(* ===== verification/Prelude.thy ===== *)
theory Prelude
  imports Main "HOL-Library.Word" "HOL-Library.AList" "HOL-Library.List_Lexorder"
    "HOL-Library.Char_ord" "HOL-Library.Product_Lexorder" "HOL-Library.Multiset"
begin

text \<open>
  Shared vocabulary of the development: byte strings, Go's 64-bit integers, Go maps as
  association lists with distinct keys, byte slices with a capacity, and the environment
  a call into the store reads (the clock, the iteration order of maps, the random draws
  and the allocator's rounding), together with the generic lemmas about them.
\<close>

subsection \<open>Collections of facts\<close>

named_theorems go_simps \<open>simplification rules of the Go data layer\<close>
named_theorems wf_intros \<open>introduction rules for well-formedness\<close>

subsection \<open>Bytes and integers\<close>

text \<open>Go strings and byte slices are sequences of bytes; a \<^typ>\<open>char\<close> is one byte.\<close>

type_synonym bytes = "char list"

abbreviation max_int64 :: int where "max_int64 \<equiv> 9223372036854775807"
abbreviation min_int64 :: int where "min_int64 \<equiv> - 9223372036854775808"
abbreviation max_uint64 :: int where "max_uint64 \<equiv> 18446744073709551615"

definition int64_range :: "int \<Rightarrow> bool" where
  "int64_range n \<longleftrightarrow> min_int64 \<le> n \<and> n \<le> max_int64"

text \<open>The value a 64-bit two's complement register holds after an overflowing operation.\<close>

definition wrap64 :: "int \<Rightarrow> int" where
  "wrap64 n = (n + 9223372036854775808) mod 18446744073709551616 - 9223372036854775808"

lemma wrap64_range [simp, wf_intros]: "int64_range (wrap64 n)"
proof -
  have "0 \<le> (n + 9223372036854775808) mod 18446744073709551616"
    and "(n + 9223372036854775808) mod 18446744073709551616 < 18446744073709551616"
    by simp_all
  then show ?thesis by (simp add: int64_range_def wrap64_def)
qed

lemma wrap64_id [simp]: "int64_range n \<Longrightarrow> wrap64 n = n"
  by (simp add: int64_range_def wrap64_def)

text \<open>Go's integer division truncates towards zero.\<close>

definition go_div :: "int \<Rightarrow> int \<Rightarrow> int" where
  "go_div a b = sgn a * sgn b * (\<bar>a\<bar> div \<bar>b\<bar>)"

lemma go_div_nonneg [simp]: "0 \<le> a \<Longrightarrow> 0 < b \<Longrightarrow> go_div a b = a div b"
  by (cases "a = 0") (auto simp: go_div_def)

subsection \<open>Go maps\<close>

text \<open>
  A Go map is an association list with distinct keys. The order of the list is not
  observable in Go; every operation that ranges over a map passes the keys through the
  iteration order of the environment below.
\<close>

type_synonym ('k, 'v) gomap = "('k \<times> 'v) list"

definition gmap_wf :: "('k, 'v) gomap \<Rightarrow> bool" where
  "gmap_wf m \<longleftrightarrow> distinct (map fst m)"

definition gput :: "'k \<Rightarrow> 'v \<Rightarrow> ('k, 'v) gomap \<Rightarrow> ('k, 'v) gomap" where
  "gput k v m = AList.update k v m"

definition gdel :: "'k \<Rightarrow> ('k, 'v) gomap \<Rightarrow> ('k, 'v) gomap" where
  "gdel k m = AList.delete k m"

text \<open>The slot of one key replaced: \<^const>\<open>None\<close> deletes it.\<close>

definition gset :: "'k \<Rightarrow> 'v option \<Rightarrow> ('k, 'v) gomap \<Rightarrow> ('k, 'v) gomap" where
  "gset k v m = (case v of None \<Rightarrow> gdel k m | Some x \<Rightarrow> gput k x m)"

definition gsum :: "('k \<Rightarrow> 'v \<Rightarrow> int) \<Rightarrow> ('k, 'v) gomap \<Rightarrow> int" where
  "gsum f m = sum_list (map (\<lambda>(k, v). f k v) m)"

definition gopt :: "('k \<Rightarrow> 'v \<Rightarrow> int) \<Rightarrow> 'k \<Rightarrow> 'v option \<Rightarrow> int" where
  "gopt f k v = (case v of None \<Rightarrow> 0 | Some x \<Rightarrow> f k x)"

lemma gopt_simps [simp]: "gopt f k None = 0" "gopt f k (Some x) = f k x"
  by (simp_all add: gopt_def)

lemma gset_simps: "gset k None m = gdel k m" "gset k (Some x) m = gput k x m"
  by (simp_all add: gset_def)

lemma gmap_wf_Nil [simp]: "gmap_wf []"
  by (simp add: gmap_wf_def)

lemma gmap_wf_Cons [simp]: "gmap_wf ((k, v) # m) \<longleftrightarrow> k \<notin> fst ` set m \<and> gmap_wf m"
  by (auto simp: gmap_wf_def)

lemma map_of_gput [simp]: "map_of (gput k v m) = (map_of m)(k \<mapsto> v)"
  by (simp add: gput_def update_conv')

lemma map_of_gdel [simp]: "map_of (gdel k m) = (map_of m)(k := None)"
  by (simp add: gdel_def delete_conv')

lemma map_of_gset [simp]: "map_of (gset k v m) = (map_of m)(k := v)"
  by (simp add: gset_def split: option.split)

lemma gput_wf [simp, wf_intros]: "gmap_wf m \<Longrightarrow> gmap_wf (gput k v m)"
  by (simp add: gmap_wf_def gput_def distinct_update)

lemma gdel_wf [simp, wf_intros]: "gmap_wf m \<Longrightarrow> gmap_wf (gdel k m)"
  by (simp add: gmap_wf_def gdel_def distinct_delete)

lemma gset_wf [simp, wf_intros]: "gmap_wf m \<Longrightarrow> gmap_wf (gset k v m)"
  by (simp add: gset_def split: option.split)

lemma gput_Nil [simp]: "gput k v [] = [(k, v)]"
  by (simp add: gput_def)

lemma gput_Cons [simp]:
  "gput k v ((k', v') # m) = (if k = k' then (k', v) # m else (k', v') # gput k v m)"
  by (simp add: gput_def)

lemma gdel_Nil [simp]: "gdel k [] = []"
  by (simp add: gdel_def)

lemma gdel_Cons [simp]:
  "gdel k ((k', v') # m) = (if k = k' then gdel k m else (k', v') # gdel k m)"
  by (simp add: gdel_def)

lemma gdel_absent [simp]: "k \<notin> fst ` set m \<Longrightarrow> gdel k m = m"
  by (induction m) auto

lemma gput_same: "gmap_wf m \<Longrightarrow> map_of m k = Some v \<Longrightarrow> gput k v m = m"
  by (induction m) (auto split: if_splits)

lemma gset_same [simp]: "gmap_wf m \<Longrightarrow> gset k (map_of m k) m = m"
proof (cases "map_of m k")
  case None
  then have "k \<notin> fst ` set m" by (simp add: map_of_eq_None_iff)
  with None show ?thesis by (simp add: gset_simps)
next
  case (Some v)
  then show "gmap_wf m \<Longrightarrow> ?thesis" by (simp add: gset_simps gput_same)
qed

lemma gput_not_Nil [simp]: "gput k v m \<noteq> []"
proof (cases m)
  case (Cons kv m')
  then show ?thesis by (cases kv) simp
qed simp

lemma fst_set_gput: "fst ` set (gput k v m) = insert k (fst ` set m)"
  by (simp flip: dom_map_of_conv_image_fst add: gput_def update_conv')

lemma fst_set_gdel: "fst ` set (gdel k m) = fst ` set m - {k}"
  by (simp flip: dom_map_of_conv_image_fst add: gdel_def delete_conv' dom_fun_upd)

lemma length_gput:
  "gmap_wf m \<Longrightarrow> length (gput k v m) = (if map_of m k = None then Suc (length m) else length m)"
  by (induction m) auto

lemma length_gdel:
  "gmap_wf m \<Longrightarrow> length (gdel k m) = (if map_of m k = None then length m else length m - 1)"
proof (induction m)
  case (Cons kv m)
  obtain k' v' where kv: "kv = (k', v')" by (cases kv)
  have "k \<noteq> k' \<Longrightarrow> map_of m k \<noteq> None \<Longrightarrow> length m \<noteq> 0" by auto
  with Cons show ?case by (auto simp: kv map_of_eq_None_iff [symmetric])
qed simp

lemma gsum_Nil [simp]: "gsum f [] = 0"
  by (simp add: gsum_def)

lemma gsum_Cons [simp]: "gsum f ((k, v) # m) = f k v + gsum f m"
  by (simp add: gsum_def)

lemma gsum_gdel:
  "gmap_wf m \<Longrightarrow> gsum f (gdel k m) = gsum f m - gopt f k (map_of m k)"
  by (induction m) auto

lemma gsum_gput:
  "gmap_wf m \<Longrightarrow> gsum f (gput k v m) = gsum f m - gopt f k (map_of m k) + f k v"
proof (induction m)
  case Nil
  then show ?case by simp
next
  case (Cons kv m)
  obtain k' v' where kv: "kv = (k', v')" by (cases kv)
  have "k \<noteq> k' \<Longrightarrow> ?case" using Cons by (simp add: kv)
  moreover have "k = k' \<Longrightarrow> ?case" by (simp add: kv)
  ultimately show ?case by blast
qed

text \<open>The one law the byte accounting rests on: replacing a slot moves a sum by the difference.\<close>

lemma gsum_gset:
  "gmap_wf m \<Longrightarrow> gsum f (gset k v m) = gsum f m - gopt f k (map_of m k) + gopt f k v"
  by (cases v) (simp_all add: gset_simps gsum_gdel gsum_gput)

lemma gsum_cong: "(\<And>k v. (k, v) \<in> set m \<Longrightarrow> f k v = g k v) \<Longrightarrow> gsum f m = gsum g m"
  by (induction m) auto

lemma gmap_wf_lookup: "gmap_wf m \<Longrightarrow> (k, v) \<in> set m \<longleftrightarrow> map_of m k = Some v"
  by (simp add: gmap_wf_def)

lemma gmap_mset_eq:
  assumes "gmap_wf m" "gmap_wf m'" "map_of m = map_of m'"
  shows "mset m = mset m'"
proof -
  have "distinct m" "distinct m'" using assms(1,2) by (auto simp: gmap_wf_def distinct_map)
  moreover have "set m = set m'"
    using assms by (auto simp: gmap_wf_lookup)
  ultimately show ?thesis by (simp add: set_eq_iff_mset_eq_distinct)
qed

lemma set_gset:
  "gmap_wf m \<Longrightarrow> (k', v') \<in> set (gset k v m) \<longleftrightarrow>
     (if k' = k then v = Some v' else (k', v') \<in> set m)"
  by (simp add: gmap_wf_lookup)

subsection \<open>Byte slices\<close>

text \<open>
  A byte slice that the accounting charges for carries its capacity. \<open>copyBytes\<close>
  allocates exactly the length; a buffer grown by the runtime (a conversion from a
  string, an append onto nil) has the capacity the allocator rounds the length to.
\<close>

record slice =
  sbytes :: bytes
  scap :: int

definition copyBytes :: "bytes \<Rightarrow> slice" where
  "copyBytes b = \<lparr>sbytes = b, scap = int (length b)\<rparr>"

definition grown :: "(nat \<Rightarrow> nat) \<Rightarrow> bytes \<Rightarrow> slice" where
  "grown alloc b = \<lparr>sbytes = b, scap = int (alloc (length b))\<rparr>"

lemma copyBytes_simps [simp]: "sbytes (copyBytes b) = b" "scap (copyBytes b) = int (length b)"
  by (simp_all add: copyBytes_def)

lemma grown_simps [simp]: "sbytes (grown f b) = b" "scap (grown f b) = int (f (length b))"
  by (simp_all add: grown_def)

subsection \<open>The environment of a call\<close>

text \<open>
  What one call reads from outside the store: \<open>now\<close>, the clock reading in Unix
  nanoseconds; \<open>iter\<close>, the order in which the runtime ranges over the keys of a map (any
  permutation, see \<open>fair_iter\<close>); \<open>draw\<close>, the random number in \<open>[0, 1)\<close> as a fraction
  of \<open>2 ^ 53\<close>; \<open>pick\<close>, the draws of the random source; \<open>coins\<close>, the random source handed to
  a new skip list; \<open>alloc\<close>, the capacity the allocator gives a buffer of a given length.
\<close>

record goenv =
  now :: int
  iter :: "bytes list \<Rightarrow> bytes list"
  draw :: nat
  pick :: "nat \<Rightarrow> nat"
  coins :: "nat \<Rightarrow> bool"
  alloc :: "nat \<Rightarrow> nat"

text \<open>The Go specification: a range over a map visits every key exactly once, in some order.\<close>

definition fair_iter :: "goenv \<Rightarrow> bool" where
  "fair_iter env \<longleftrightarrow> (\<forall>ks. mset (iter env ks) = mset ks)"

definition gkeys :: "goenv \<Rightarrow> (bytes, 'v) gomap \<Rightarrow> bytes list" where
  "gkeys env m = iter env (map fst m)"

lemma gkeys_props:
  assumes "fair_iter env"
  shows "set (gkeys env m) = fst ` set m"
    and "gmap_wf m \<Longrightarrow> distinct (gkeys env m)"
    and "length (gkeys env m) = length m"
proof -
  have p: "mset (gkeys env m) = mset (map fst m)"
    using assms by (simp add: fair_iter_def gkeys_def)
  show "set (gkeys env m) = fst ` set m"
    using mset_eq_setD [OF p] by simp
  show "gmap_wf m \<Longrightarrow> distinct (gkeys env m)"
    using p by (metis gmap_wf_def mset_eq_imp_distinct_iff)
  show "length (gkeys env m) = length m"
    using mset_eq_length [OF p] by simp
qed

text \<open>The \<open>i\<close>-th draw below a bound, and the library's shuffle: from the last position down, each
  element is exchanged with one drawn at or before it.\<close>

definition Intn :: "goenv \<Rightarrow> nat \<Rightarrow> nat \<Rightarrow> nat" where
  "Intn env i n = pick env i mod n"

definition swap_at :: "nat \<Rightarrow> nat \<Rightarrow> 'a list \<Rightarrow> 'a list" where
  "swap_at i j xs = xs[i := xs ! j, j := xs ! i]"

fun shuffle_from :: "goenv \<Rightarrow> nat \<Rightarrow> 'a list \<Rightarrow> 'a list" where
  "shuffle_from env 0 xs = xs"
| "shuffle_from env (Suc i) xs = shuffle_from env i (swap_at (Suc i) (Intn env i (Suc (Suc i))) xs)"

definition Shuffle :: "goenv \<Rightarrow> 'a list \<Rightarrow> 'a list" where
  "Shuffle env xs = shuffle_from env (length xs - 1) xs"

lemma Intn_less: "0 < n \<Longrightarrow> Intn env i n < n"
  by (simp add: Intn_def)

lemma mset_shuffle_from: "i < length xs \<or> i = 0 \<Longrightarrow> mset (shuffle_from env i xs) = mset xs"
proof (induction i arbitrary: xs)
  case (Suc i)
  have "Intn env i (Suc (Suc i)) < length xs" using Suc.prems Intn_less [of "Suc (Suc i)" env i] by simp
  then show ?case using Suc by (simp add: swap_at_def mset_swap)
qed simp

lemma mset_Shuffle [simp]: "mset (Shuffle env xs) = mset xs"
  unfolding Shuffle_def by (rule mset_shuffle_from) auto

text \<open>A concrete environment, for evaluations.\<close>

definition env0 :: "int \<Rightarrow> goenv" where
  "env0 t = \<lparr>now = t, iter = (\<lambda>ks. ks), draw = 0, pick = (\<lambda>_. 0), coins = (\<lambda>_. False), alloc = (\<lambda>n. n)\<rparr>"

lemma env0_fair [simp]: "fair_iter (env0 t)"
  by (simp add: fair_iter_def env0_def)

end
