(* ===== verification/Float64.thy ===== *)
theory Float64
  imports Prelude
begin

text \<open>
  Go's \<open>float64\<close>, as the IEEE 754 binary64 bit pattern. Sorted sets compare, add and
  multiply scores; comparison works on the sign-magnitude reading of the bits, addition
  and multiplication compute the exact result and round it to nearest, ties to even.
\<close>

datatype float64 = F64 (bits: "64 word")

definition f64_inf_mag :: int where
  "f64_inf_mag = 9218868437227405312" \<comment> \<open>\<open>0x7ff0000000000000\<close>\<close>

definition f64_neg :: "float64 \<Rightarrow> bool" where
  "f64_neg x \<longleftrightarrow> 9223372036854775808 \<le> uint (bits x)"

definition f64_mag :: "float64 \<Rightarrow> int" where
  "f64_mag x = uint (bits x) mod 9223372036854775808"

definition f64_make :: "bool \<Rightarrow> int \<Rightarrow> float64" where
  "f64_make s m = F64 (word_of_int ((if s then 9223372036854775808 else 0) + m))"

text \<open>\<open>math.IsNaN\<close> and \<open>math.IsInf\<close>.\<close>

definition IsNaN :: "float64 \<Rightarrow> bool" where
  "IsNaN x \<longleftrightarrow> f64_inf_mag < f64_mag x"

definition IsInf :: "float64 \<Rightarrow> bool" where
  "IsInf x \<longleftrightarrow> f64_mag x = f64_inf_mag"

definition f64_nan :: float64 where
  "f64_nan = f64_make False 9221120237041090561"

text \<open>The position of a number on the extended real line; both zeros sit at 0.\<close>

definition f64_key :: "float64 \<Rightarrow> int" where
  "f64_key x = (if f64_neg x then - f64_mag x else f64_mag x)"

definition f64_lt :: "float64 \<Rightarrow> float64 \<Rightarrow> bool" where
  "f64_lt x y \<longleftrightarrow> \<not> IsNaN x \<and> \<not> IsNaN y \<and> f64_key x < f64_key y"

definition f64_le :: "float64 \<Rightarrow> float64 \<Rightarrow> bool" where
  "f64_le x y \<longleftrightarrow> \<not> IsNaN x \<and> \<not> IsNaN y \<and> f64_key x \<le> f64_key y"

definition f64_eq :: "float64 \<Rightarrow> float64 \<Rightarrow> bool" where
  "f64_eq x y \<longleftrightarrow> \<not> IsNaN x \<and> \<not> IsNaN y \<and> f64_key x = f64_key y"

subsection \<open>Arithmetic\<close>

function bit_len :: "int \<Rightarrow> int" where
  "bit_len n = (if n \<le> 0 then 0 else 1 + bit_len (n div 2))"
  by pat_completeness auto
termination
  by (relation "measure nat") auto

declare bit_len.simps [simp del]

text \<open>Division by a power of two, rounding to nearest and halves to the even neighbour.\<close>

definition round_even :: "int \<Rightarrow> nat \<Rightarrow> int" where
  "round_even m d =
     (let q = m div 2 ^ d; r = m mod 2 ^ d; half = 2 ^ (d - 1)
      in if d = 0 then m
         else if r < half then q
         else if half < r then q + 1
         else if even q then q else q + 1)"

text \<open>The float nearest to \<open>m * 2 ^ q\<close> with the given sign.\<close>

definition f64_round :: "bool \<Rightarrow> int \<Rightarrow> int \<Rightarrow> float64" where
  "f64_round s m q =
     (let e = max (q + bit_len m - 53) (- 1074);
          m' = (if e \<le> q then m * 2 ^ nat (q - e) else round_even m (nat (e - q)));
          mag = (if m' < 4503599627370496 then m'
                 else (e + 1075) * 4503599627370496 + (m' - 4503599627370496))
      in f64_make s (min (max 0 mag) f64_inf_mag))"

text \<open>Significand and exponent of a finite number.\<close>

definition f64_sig :: "float64 \<Rightarrow> int" where
  "f64_sig x =
     (let f = f64_mag x mod 4503599627370496
      in if f64_mag x < 4503599627370496 then f else f + 4503599627370496)"

definition f64_exp :: "float64 \<Rightarrow> int" where
  "f64_exp x =
     (if f64_mag x < 4503599627370496 then - 1074 else f64_mag x div 4503599627370496 - 1075)"

definition f64_add :: "float64 \<Rightarrow> float64 \<Rightarrow> float64" where
  "f64_add x y =
     (if IsNaN x \<or> IsNaN y then f64_nan
      else if IsInf x then (if IsInf y \<and> f64_neg x \<noteq> f64_neg y then f64_nan else x)
      else if IsInf y then y
      else
        let q = min (f64_exp x) (f64_exp y);
            sx = (if f64_neg x then -1 else 1) * f64_sig x * 2 ^ nat (f64_exp x - q);
            sy = (if f64_neg y then -1 else 1) * f64_sig y * 2 ^ nat (f64_exp y - q)
        in if sx + sy = 0 then f64_make (f64_neg x \<and> f64_neg y) 0
           else f64_round (sx + sy < 0) \<bar>sx + sy\<bar> q)"

definition f64_mul :: "float64 \<Rightarrow> float64 \<Rightarrow> float64" where
  "f64_mul x y =
     (let s = (f64_neg x \<noteq> f64_neg y)
      in if IsNaN x \<or> IsNaN y then f64_nan
         else if IsInf x \<or> IsInf y
           then (if f64_mag x = 0 \<or> f64_mag y = 0 then f64_nan else f64_make s f64_inf_mag)
         else if f64_sig x * f64_sig y = 0 then f64_make s 0
         else f64_round s (f64_sig x * f64_sig y) (f64_exp x + f64_exp y))"

text \<open>
  Division keeps more than 60 quotient bits and a sticky bit for the remainder, which is
  enough to round correctly.
\<close>

definition f64_div :: "float64 \<Rightarrow> float64 \<Rightarrow> float64" where
  "f64_div x y =
     (let s = (f64_neg x \<noteq> f64_neg y)
      in if IsNaN x \<or> IsNaN y \<or> (IsInf x \<and> IsInf y) \<or> (f64_mag x = 0 \<and> f64_mag y = 0) then f64_nan
         else if IsInf x \<or> f64_mag y = 0 then f64_make s f64_inf_mag
         else if IsInf y \<or> f64_mag x = 0 then f64_make s 0
         else
           let n = f64_sig x * 2 ^ 120; q = n div f64_sig y; r = n mod f64_sig y
           in f64_round s (2 * q + (if r = 0 then 0 else 1)) (f64_exp x - f64_exp y - 121))"

definition f64_of_int :: "int \<Rightarrow> float64" where
  "f64_of_int n = (if n = 0 then F64 0 else f64_round (n < 0) \<bar>n\<bar> 0)"

abbreviation f64_zero :: float64 where "f64_zero \<equiv> F64 0"
abbreviation f64_one :: float64 where "f64_one \<equiv> F64 4607182418800017408"

subsection \<open>The order\<close>

lemma f64_mag_bounds [simp]: "0 \<le> f64_mag x" "f64_mag x < 9223372036854775808"
  by (simp_all add: f64_mag_def)

lemma f64_lt_irrefl [simp]: "\<not> f64_lt x x"
  by (simp add: f64_lt_def)

lemma f64_lt_trans: "f64_lt x y \<Longrightarrow> f64_lt y z \<Longrightarrow> f64_lt x z"
  by (simp add: f64_lt_def)

lemma f64_trichotomy:
  "\<not> IsNaN x \<Longrightarrow> \<not> IsNaN y \<Longrightarrow> f64_lt x y \<or> f64_eq x y \<or> f64_lt y x"
  by (auto simp: f64_lt_def f64_eq_def)

lemma f64_le_lt: "\<not> IsNaN x \<Longrightarrow> \<not> IsNaN y \<Longrightarrow> f64_le x y \<longleftrightarrow> \<not> f64_lt y x"
  by (auto simp: f64_lt_def f64_le_def)

lemma f64_eq_refl: "f64_eq x x \<longleftrightarrow> \<not> IsNaN x"
  by (simp add: f64_eq_def)

subsection \<open>Which results are numbers\<close>

lemma uint_f64_make:
  "0 \<le> m \<Longrightarrow> m < 9223372036854775808 \<Longrightarrow>
     uint (bits (f64_make s m)) = (if s then 9223372036854775808 else 0) + m"
  unfolding f64_make_def float64.sel uint_word_of_int by simp

lemma f64_make_simps [simp]:
  assumes "0 \<le> m" "m < 9223372036854775808"
  shows "f64_mag (f64_make s m) = m" and "f64_neg (f64_make s m) = s"
  using uint_f64_make [OF assms, of s] assms by (simp_all add: f64_mag_def f64_neg_def)

lemma clamped_not_NaN: "\<not> IsNaN (f64_make s (min (max 0 x) f64_inf_mag))"
proof -
  have "0 \<le> min (max 0 x) f64_inf_mag" "min (max 0 x) f64_inf_mag < 9223372036854775808"
    by (simp_all add: f64_inf_mag_def)
  then show ?thesis by (simp add: IsNaN_def)
qed

lemma f64_round_not_NaN [simp]: "\<not> IsNaN (f64_round s m q)"
  unfolding f64_round_def Let_def by (rule clamped_not_NaN)

lemma IsNaN_nan [simp]: "IsNaN f64_nan"
  by (simp add: f64_nan_def IsNaN_def f64_inf_mag_def)

text \<open>A sum is not a number exactly when an operand is not, or opposite infinities meet.\<close>

lemma IsNaN_f64_add:
  "IsNaN (f64_add x y) \<longleftrightarrow>
     IsNaN x \<or> IsNaN y \<or> (IsInf x \<and> IsInf y \<and> f64_neg x \<noteq> f64_neg y)"
proof -
  have z: "\<And>s. \<not> IsNaN (f64_make s 0)" by (simp add: IsNaN_def f64_inf_mag_def)
  show ?thesis by (auto simp: f64_add_def Let_def z)
qed

lemma f64_add_comm: "\<not> IsNaN x \<Longrightarrow> \<not> IsNaN y \<Longrightarrow> f64_key (f64_add x y) = f64_key (f64_add y x)"
proof -
  have "IsInf x \<Longrightarrow> IsInf y \<Longrightarrow> f64_neg x = f64_neg y \<Longrightarrow> f64_key x = f64_key y"
    by (simp add: IsInf_def f64_key_def)
  then show "\<not> IsNaN x \<Longrightarrow> \<not> IsNaN y \<Longrightarrow> ?thesis"
    by (auto simp: f64_add_def Let_def min.commute add.commute conj_commute)
qed

end
