(* ===== verification/Lfu.thy ===== *)
theory Lfu
  imports Float64
begin

text \<open>
  The access counter of the LFU policies (\<open>internal/store/evict.go\<close>): sixteen bits of the
  minute of the last decay and eight bits of a logarithmic counter, packed into a 32-bit
  word whose top bit marks a word that has been written. The lemmas show that packing
  loses nothing, that decay only lowers a counter, and that one access raises it by at
  most one and never past 255.
\<close>

unbundle bit_operations_syntax

subsection \<open>Definitions\<close>

abbreviation lfuInitVal :: "8 word" where "lfuInitVal \<equiv> 5"
abbreviation lfuMaxVal :: "8 word" where "lfuMaxVal \<equiv> 255"

definition lfuStamped :: "32 word" where
  "lfuStamped = push_bit 31 1"

definition lfuState :: "16 word \<Rightarrow> 8 word \<Rightarrow> 32 word" where
  "lfuState minute counter = lfuStamped OR push_bit 8 (ucast minute) OR ucast counter"

definition lfuSplit :: "32 word \<Rightarrow> 16 word \<times> 8 word" where
  "lfuSplit v = (ucast (drop_bit 8 v), ucast (v AND 255))"

text \<open>Wall-clock minutes of an instant in nanoseconds, truncated to sixteen bits.\<close>

definition lfuMinute :: "int \<Rightarrow> 16 word" where
  "lfuMinute t = word_of_int (go_div (t div 1000000000) 60)"

definition lfuCounter :: "32 word \<Rightarrow> 16 word \<Rightarrow> int \<Rightarrow> 8 word" where
  "lfuCounter v t decayMinutes =
     (if v AND lfuStamped = 0 then lfuInitVal
      else
        let (minute, counter) = lfuSplit v; elapsed = uint t - uint minute
        in if decayMinutes \<le> 0 then counter
           else if elapsed \<le> 0 then counter
           else
             let periods = go_div elapsed decayMinutes
             in if periods \<le> 0 then counter
                else if periods \<ge> uint counter then 0
                else counter - word_of_int periods)"

text \<open>\<open>rnd\<close> is the outcome of \<open>rand.Float64()\<close> as a multiple of \<open>2 ^ -53\<close>.\<close>

definition lfuIncr :: "nat \<Rightarrow> 32 word \<Rightarrow> 16 word \<Rightarrow> int \<Rightarrow> int \<Rightarrow> 32 word" where
  "lfuIncr rnd v t decayMinutes logFactor =
     (let counter = lfuCounter v t decayMinutes;
          base = f64_add (f64_of_int (uint counter)) (f64_of_int (- 5));
          base = (if f64_lt base f64_zero then f64_zero else base);
          p = f64_div f64_one (f64_add (f64_mul base (f64_of_int logFactor)) f64_one);
          r = (if rnd = 0 then f64_zero else f64_round False (int rnd) (- 53))
      in lfuState t (if counter < lfuMaxVal \<and> f64_lt r p then counter + 1 else counter))"

definition lfuAccess :: "nat \<Rightarrow> 32 word \<Rightarrow> 16 word \<Rightarrow> int \<Rightarrow> int \<Rightarrow> 32 word" where
  "lfuAccess rnd v t decayMinutes logFactor =
     (if v AND lfuStamped = 0 then lfuState t lfuInitVal
      else lfuIncr rnd v t decayMinutes logFactor)"

subsection \<open>Properties\<close>

lemma bit_lfuStamped: "bit lfuStamped n \<longleftrightarrow> n = 31"
  unfolding lfuStamped_def bit_push_bit_iff bit_1_iff by (auto simp: possible_bit_def)

lemma mask_255: "(255 :: 32 word) = mask 8"
  by (simp add: mask_eq_decr_exp)

lemma lfuSplit_lfuState: "lfuSplit (lfuState m c) = (m, c)"
proof -
  have "\<not> bit c (8 + n)" for n using bit_imp_le_length [of c "8 + n"] by auto
  then show ?thesis
    unfolding lfuSplit_def lfuState_def mask_255
    by (auto intro!: bit_word_eqI simp: bit_simps bit_lfuStamped)
qed

lemma lfuState_stamped: "lfuState m c AND lfuStamped \<noteq> 0"
proof -
  have "bit (lfuState m c AND lfuStamped) 31"
    by (simp add: lfuState_def bit_lfuStamped bit_simps)
  then show ?thesis by auto
qed

lemma lfuCounter_fresh: "lfuCounter (lfuState t c) t d = c"
  by (simp add: lfuCounter_def lfuState_stamped lfuSplit_lfuState Let_def)

lemma word8_sub_le: "uint k < uint (c :: 8 word) \<Longrightarrow> c - k \<le> c"
  by (simp add: word_le_def uint_sub_if')

lemma lfuCounter_le: "lfuCounter (lfuState m c) t d \<le> c"
proof -
  have "c - word_of_int p \<le> c" if "0 < p" "p < uint c" for p
  proof -
    have "p < 256" using that(2) uint_bounded [of c] by simp
    with that have "uint (word_of_int p :: 8 word) = p" by (simp add: uint_word_of_int)
    with that show ?thesis using word8_sub_le [of "word_of_int p" c] by simp
  qed
  then show ?thesis
    by (auto simp: lfuCounter_def lfuState_stamped lfuSplit_lfuState Let_def)
qed

lemma lfuIncr_counter:
  "\<exists>c. lfuIncr rnd v t d f = lfuState t c \<and>
     (c = lfuCounter v t d \<or> lfuCounter v t d < lfuMaxVal \<and> uint c = uint (lfuCounter v t d) + 1)"
proof -
  let ?c = "lfuCounter v t d"
  have "uint (?c + 1) = uint ?c + 1" if "?c < lfuMaxVal"
  proof -
    have "uint ?c < 255" using that by (simp add: word_less_def)
    then show ?thesis by (simp add: uint_plus_if')
  qed
  then show ?thesis unfolding lfuIncr_def Let_def by auto
qed

text \<open>What \<open>OBJECT FREQ\<close> reads right after an access.\<close>

lemma lfuAccess_counter:
  "uint (lfuCounter (lfuAccess rnd v t d f) t d) \<le> uint (lfuCounter v t d) + 1"
  "lfuAccess rnd v t d f AND lfuStamped \<noteq> 0"
proof -
  obtain c where c: "lfuIncr rnd v t d f = lfuState t c"
    "c = lfuCounter v t d \<or> uint c = uint (lfuCounter v t d) + 1"
    using lfuIncr_counter [of rnd v t d f] by auto
  show "uint (lfuCounter (lfuAccess rnd v t d f) t d) \<le> uint (lfuCounter v t d) + 1"
  proof (cases "v AND lfuStamped = 0")
    case True
    then show ?thesis by (simp add: lfuAccess_def lfuCounter_fresh) (simp add: lfuCounter_def)
  next
    case False
    with c show ?thesis by (auto simp: lfuAccess_def lfuCounter_fresh)
  qed
  show "lfuAccess rnd v t d f AND lfuStamped \<noteq> 0"
    using c by (simp add: lfuAccess_def lfuState_stamped)
qed

end
