(* ===== verification/Deque.thy ===== *)
theory Deque
  imports Prelude
begin

text \<open>
  The deque behind the list type (\<open>internal/store/types.go\<close>, \<open>internal/store/list.go\<close>).
  A \<open>container/list\<close> is the sequence of its values and an element pointer is the position of
  the element; a scan that starts at \<open>Back()\<close> and follows \<open>Prev()\<close> is the scan of the
  reversed sequence. The lemmas show that the maintained byte cnt is the sum over the
  elements after every operation, and what each operation does to the sequence.
\<close>

subsection \<open>Operations\<close>

abbreviation memListElem :: int where "memListElem \<equiv> 64"

record deque =
  dl :: "bytes list"
  dbytes :: int

definition newDeque :: deque where
  "newDeque = \<lparr>dl = [], dbytes = 0\<rparr>"

definition dlen :: "deque \<Rightarrow> int" where
  "dlen d = int (length (dl d))"

definition elemBytes :: "bytes \<Rightarrow> int" where
  "elemBytes v = memListElem + int (length v)"

definition lpush :: "bytes \<Rightarrow> deque \<Rightarrow> deque" where
  "lpush v d = \<lparr>dl = v # dl d, dbytes = dbytes d + elemBytes v\<rparr>"

definition rpush :: "bytes \<Rightarrow> deque \<Rightarrow> deque" where
  "rpush v d = \<lparr>dl = dl d @ [v], dbytes = dbytes d + elemBytes v\<rparr>"

text \<open>\<open>remove_el\<close> takes out the element at a position.\<close>

definition remove_el :: "nat \<Rightarrow> deque \<Rightarrow> deque" where
  "remove_el i d = \<lparr>dl = take i (dl d) @ drop (Suc i) (dl d), dbytes = dbytes d - elemBytes (dl d ! i)\<rparr>"

definition lpop :: "deque \<Rightarrow> deque \<times> bytes option" where
  "lpop d = (if dl d = [] then (d, None) else (remove_el 0 d, Some (dl d ! 0)))"

definition rpop :: "deque \<Rightarrow> deque \<times> bytes option" where
  "rpop d = (if dl d = [] then (d, None)
             else (remove_el (length (dl d) - 1) d, Some (dl d ! (length (dl d) - 1))))"

definition setValue :: "nat \<Rightarrow> bytes \<Rightarrow> deque \<Rightarrow> deque" where
  "setValue i v d =
     \<lparr>dl = (dl d)[i := v], dbytes = dbytes d + (int (length v) - int (length (dl d ! i)))\<rparr>"

fun range_loop :: "int \<Rightarrow> int \<Rightarrow> int \<Rightarrow> bytes list \<Rightarrow> bytes list" where
  "range_loop start stop i [] = []"
| "range_loop start stop i (v # vs) =
     (if i > stop then []
      else (if i \<ge> start then [v] else []) @ range_loop start stop (i + 1) vs)"

definition rangeIdx :: "int \<Rightarrow> int \<Rightarrow> deque \<Rightarrow> bytes list" where
  "rangeIdx start stop d =
     (let n = dlen d;
          start = (if start < 0 then start + n else start);
          stop = (if stop < 0 then stop + n else stop);
          start = (if start < 0 then 0 else start);
          stop = (if stop \<ge> n then n - 1 else stop)
      in if start > stop \<or> n = 0 then [] else range_loop start stop 0 (dl d))"

definition normalizeRange :: "int \<Rightarrow> int \<Rightarrow> int \<Rightarrow> (int \<times> int) option" where
  "normalizeRange n start stop =
     (let start = (if start < 0 then start + n else start);
          stop = (if stop < 0 then stop + n else stop);
          start = max start 0;
          stop = (if stop \<ge> n then n - 1 else stop)
      in if start > stop \<or> n = 0 then None else Some (start, stop))"

text \<open>\<open>at\<close> walks from the nearer end; the result is the position of the element reached.\<close>

definition at :: "int \<Rightarrow> deque \<Rightarrow> nat option" where
  "at i d =
     (let n = dlen d; i = (if i < 0 then i + n else i)
      in if i < 0 \<or> i \<ge> n then None
         else if i \<le> n div 2 then Some ((Suc ^^ nat i) 0)
         else Some (((\<lambda>p. p - 1) ^^ nat (n - 1 - i)) (length (dl d) - 1)))"

fun insert_loop :: "bytes \<Rightarrow> bytes \<Rightarrow> bool \<Rightarrow> bytes list \<Rightarrow> bytes list option" where
  "insert_loop pivot val before [] = None"
| "insert_loop pivot val before (v # vs) =
     (if v \<noteq> pivot then map_option (Cons v) (insert_loop pivot val before vs)
      else Some (if before then val # v # vs else v # val # vs))"

definition insertAt :: "bytes \<Rightarrow> bytes \<Rightarrow> bool \<Rightarrow> deque \<Rightarrow> deque \<times> int" where
  "insertAt pivot val before d =
     (case insert_loop pivot val before (dl d) of
        None \<Rightarrow> (d, -1)
      | Some vs \<Rightarrow> (\<lparr>dl = vs, dbytes = dbytes d + elemBytes val\<rparr>, int (length vs)))"

text \<open>
  The scan of \<open>removeVal\<close>: what is left of the sequence, the byte cnt and the number
  removed so far. The \<open>break\<close> leaves the rest of the sequence alone.
\<close>

fun remove_loop :: "int \<Rightarrow> int \<Rightarrow> bytes \<Rightarrow> int \<Rightarrow> int \<Rightarrow> bytes list \<Rightarrow> bytes list \<times> int \<times> int" where
  "remove_loop cnt limit val removed b [] = ([], b, removed)"
| "remove_loop cnt limit val removed b (v # vs) =
     (if v = val
      then if cnt \<noteq> 0 \<and> removed + 1 = limit then (vs, b - elemBytes v, removed + 1)
           else remove_loop cnt limit val (removed + 1) (b - elemBytes v) vs
      else let (vs', b', r') = remove_loop cnt limit val removed b vs in (v # vs', b', r'))"

definition removeVal :: "int \<Rightarrow> bytes \<Rightarrow> deque \<Rightarrow> deque \<times> int" where
  "removeVal cnt val d =
     (if cnt < 0
      then let (vs, b, r) = remove_loop cnt (- cnt) val 0 (dbytes d) (rev (dl d))
           in (\<lparr>dl = rev vs, dbytes = b\<rparr>, r)
      else let (vs, b, r) = remove_loop cnt cnt val 0 (dbytes d) (dl d)
           in (\<lparr>dl = vs, dbytes = b\<rparr>, r))"

text \<open>The two loops of \<open>trim\<close> drop elements at the head and then at the tail.\<close>

fun drop_front :: "nat \<Rightarrow> deque \<Rightarrow> deque" where
  "drop_front 0 d = d"
| "drop_front (Suc n) d = (if dl d = [] then d else drop_front n (remove_el 0 d))"

fun drop_back :: "nat \<Rightarrow> deque \<Rightarrow> deque" where
  "drop_back 0 d = d"
| "drop_back (Suc n) d = (if dl d = [] then d else drop_back n (remove_el (length (dl d) - 1) d))"

definition trim :: "int \<Rightarrow> int \<Rightarrow> deque \<Rightarrow> deque" where
  "trim start stop d =
     (case normalizeRange (dlen d) start stop of
        None \<Rightarrow> \<lparr>dl = [], dbytes = 0\<rparr>
      | Some (from', to) \<Rightarrow>
          let d1 = drop_front (nat from') d
          in drop_back (nat (dlen d1 - 1 - (to - from'))) d1)"

fun positions_loop :: "bytes \<Rightarrow> int \<Rightarrow> int \<Rightarrow> int \<Rightarrow> int \<Rightarrow> int \<Rightarrow> int \<Rightarrow> int \<Rightarrow> int \<Rightarrow> bytes list \<Rightarrow> int list" where
  "positions_loop val skip cnt maxlen step i compared matched found [] = []"
| "positions_loop val skip cnt maxlen step i compared matched found (v # vs) =
     (if maxlen > 0 \<and> compared \<ge> maxlen then []
      else if v = val
      then if matched \<ge> skip
           then if cnt > 0 \<and> found + 1 = cnt then [i]
                else i # positions_loop val skip cnt maxlen step (i + step) (compared + 1) (matched + 1) (found + 1) vs
           else positions_loop val skip cnt maxlen step (i + step) (compared + 1) (matched + 1) found vs
      else positions_loop val skip cnt maxlen step (i + step) (compared + 1) matched found vs)"

definition positions :: "bytes \<Rightarrow> int \<Rightarrow> int \<Rightarrow> int \<Rightarrow> deque \<Rightarrow> int list" where
  "positions val rank cnt maxlen d =
     (if rank < 0
      then positions_loop val (- rank - 1) cnt maxlen (-1) (dlen d - 1) 0 0 0 (rev (dl d))
      else positions_loop val (rank - 1) cnt maxlen 1 0 0 0 0 (dl d))"

subsection \<open>The byte count\<close>

definition deque_ok :: "deque \<Rightarrow> bool" where
  "deque_ok d \<longleftrightarrow> dbytes d = sum_list (map elemBytes (dl d))"

lemma newDeque_ok [simp]: "deque_ok newDeque" "dl newDeque = []"
  by (simp_all add: deque_ok_def newDeque_def)

lemma push_simps [simp]:
  "dl (lpush v d) = v # dl d" "dl (rpush v d) = dl d @ [v]"
  "deque_ok (lpush v d) = deque_ok d" "deque_ok (rpush v d) = deque_ok d"
  by (auto simp: lpush_def rpush_def deque_ok_def)

lemma sum_list_split:
  fixes f :: "'a \<Rightarrow> int"
  assumes "i < length xs"
  shows "sum_list (map f xs) =
     sum_list (map f (take i xs)) + f (xs ! i) + sum_list (map f (drop (Suc i) xs))"
  using arg_cong [OF id_take_nth_drop [OF assms], of "\<lambda>xs. sum_list (map f xs)"] by simp

lemma remove_el_ok: "deque_ok d \<Longrightarrow> i < length (dl d) \<Longrightarrow> deque_ok (remove_el i d)"
  by (simp add: deque_ok_def remove_el_def sum_list_split [of i])

lemma lpop_simps:
  "dl (fst (lpop d)) = tl (dl d)" "snd (lpop d) = (if dl d = [] then None else Some (hd (dl d)))"
  "deque_ok d \<Longrightarrow> deque_ok (fst (lpop d))"
  by (auto simp: lpop_def remove_el_ok hd_conv_nth) (simp add: remove_el_def drop_Suc)

lemma rpop_simps:
  "dl (fst (rpop d)) = butlast (dl d)" "snd (rpop d) = (if dl d = [] then None else Some (last (dl d)))"
  "deque_ok d \<Longrightarrow> deque_ok (fst (rpop d))"
  by (auto simp: rpop_def remove_el_ok last_conv_nth) (simp add: remove_el_def butlast_conv_take)

lemma setValue_ok: "deque_ok d \<Longrightarrow> i < length (dl d) \<Longrightarrow> deque_ok (setValue i v d)"
  by (simp add: deque_ok_def setValue_def upd_conv_take_nth_drop sum_list_split [of i "dl d"] elemBytes_def)

lemma drop_front_dl: "dl (drop_front n d) = drop n (dl d)"
proof (induction n arbitrary: d)
  case (Suc n)
  then show ?case by (cases "dl d") (simp_all add: remove_el_def)
qed simp

lemma drop_front_ok: "deque_ok d \<Longrightarrow> deque_ok (drop_front n d)"
  by (induction n arbitrary: d) (auto simp: remove_el_ok)

lemma drop_back_dl: "dl (drop_back n d) = take (length (dl d) - n) (dl d)"
proof (induction n arbitrary: d)
  case (Suc n)
  have "dl (remove_el (length (dl d) - 1) d) = butlast (dl d)"
    by (simp add: remove_el_def butlast_conv_take)
  with Suc show ?case by (auto simp: take_butlast min_def)
qed simp

lemma drop_back_ok: "deque_ok d \<Longrightarrow> deque_ok (drop_back n d)"
  by (induction n arbitrary: d) (auto simp: remove_el_ok)

subsection \<open>Ranges\<close>

definition slice_of :: "(int \<times> int) option \<Rightarrow> 'a list \<Rightarrow> 'a list" where
  "slice_of r xs = (case r of None \<Rightarrow> [] | Some (a, b) \<Rightarrow> take (nat (b - a + 1)) (drop (nat a) xs))"

lemma range_loop_eq:
  "range_loop a b i xs = take (nat (b - max a i + 1)) (drop (nat (a - i)) xs)"
proof (induction xs arbitrary: i)
  case (Cons x xs)
  show ?case
  proof (cases "i < a")
    case True
    then have "nat (a - i) = Suc (nat (a - (i + 1)))" by simp
    with True Cons show ?thesis by auto
  next
    case False
    have "i \<le> b \<Longrightarrow> nat (b - i + 1) = Suc (nat (b - (i + 1) + 1))" by simp
    with False Cons show ?thesis by (auto simp: max_def)
  qed
qed simp

lemma rangeIdx_eq: "rangeIdx start stop d = slice_of (normalizeRange (dlen d) start stop) (dl d)"
  by (auto simp: rangeIdx_def normalizeRange_def slice_of_def Let_def range_loop_eq max_def)

lemma normalizeRange_bounds:
  "normalizeRange n start stop = Some (a, b) \<Longrightarrow> 0 \<le> n \<Longrightarrow> 0 \<le> a \<and> a \<le> b \<and> b < n"
  by (auto simp: normalizeRange_def Let_def split: if_splits)

lemma trim_ok: "deque_ok d \<Longrightarrow> deque_ok (trim start stop d)"
  by (auto simp: trim_def Let_def drop_front_ok drop_back_ok split: option.split)
     (simp add: deque_ok_def)

lemma trim_dl: "dl (trim start stop d) = slice_of (normalizeRange (dlen d) start stop) (dl d)"
proof (cases "normalizeRange (dlen d) start stop")
  case (Some ab)
  obtain a b where ab: "ab = (a, b)" by (cases ab)
  from normalizeRange_bounds [OF Some [unfolded ab]]
  have b: "0 \<le> a" "a \<le> b" "b < int (length (dl d))" by (auto simp: dlen_def)
  let ?d = "drop_front (nat a) d"
  have "length (dl ?d) - nat (dlen ?d - 1 - (b - a)) = nat (b - a + 1)"
    using b by (simp add: drop_front_dl dlen_def)
  then show ?thesis
    by (simp add: Some ab trim_def slice_of_def Let_def drop_back_dl) (simp add: drop_front_dl)
qed (simp add: trim_def slice_of_def)

lemma at_eq:
  "at i d = (if 0 \<le> i \<and> i < dlen d then Some (nat i)
             else if - dlen d \<le> i \<and> i < 0 then Some (nat (dlen d + i)) else None)"
proof -
  have f: "(Suc ^^ n) 0 = n" for n by (induction n) auto
  have b: "((\<lambda>p. p - Suc 0) ^^ n) m = m - n" for n m :: nat by (induction n) auto
  show ?thesis by (auto simp: at_def Let_def f b dlen_def)
qed

lemma at_bound: "at i d = Some j \<Longrightarrow> j < length (dl d)"
  by (auto simp: at_eq dlen_def split: if_splits)

subsection \<open>Insertion next to a pivot\<close>

lemma insert_loop_eq:
  "insert_loop pivot val before xs =
     (if pivot \<in> set xs
      then Some (takeWhile (\<lambda>v. v \<noteq> pivot) xs @
                 (if before then [val, pivot] else [pivot, val]) @ tl (dropWhile (\<lambda>v. v \<noteq> pivot) xs))
      else None)"
  by (induction xs) auto

lemma insertAt_dl:
  "dl (fst (insertAt pivot val before d)) =
     (if pivot \<in> set (dl d)
      then takeWhile (\<lambda>v. v \<noteq> pivot) (dl d) @
           (if before then [val, pivot] else [pivot, val]) @ tl (dropWhile (\<lambda>v. v \<noteq> pivot) (dl d))
      else dl d)"
  by (auto simp: insertAt_def insert_loop_eq)

lemma insert_loop_bytes:
  "insert_loop pivot val before xs = Some ys \<Longrightarrow>
   sum_list (map elemBytes ys) = sum_list (map elemBytes xs) + elemBytes val \<and> length ys = Suc (length xs)"
  by (induction xs arbitrary: ys) (auto split: if_splits)

lemma insertAt_ok: "deque_ok d \<Longrightarrow> deque_ok (fst (insertAt pivot val before d))"
  by (auto simp: insertAt_def deque_ok_def dest!: insert_loop_bytes split: option.split)

lemma insertAt_result:
  "snd (insertAt pivot val before d) = (if pivot \<in> set (dl d) then dlen d + 1 else -1)"
proof (cases "insert_loop pivot val before (dl d)")
  case None
  then show ?thesis by (auto simp: insertAt_def insert_loop_eq split: if_splits)
next
  case (Some ys)
  with insert_loop_bytes [OF Some] show ?thesis
    by (auto simp: insertAt_def dlen_def) (simp add: insert_loop_eq split: if_splits)
qed

subsection \<open>Removal by value\<close>

fun del_first :: "nat \<Rightarrow> 'a \<Rightarrow> 'a list \<Rightarrow> 'a list" where
  "del_first n val [] = []"
| "del_first n val (v # vs) =
     (if n = 0 then v # vs else if v = val then del_first (n - 1) val vs else v # del_first n val vs)"

lemma remove_loop_all:
  "remove_loop 0 limit val r b xs =
     (filter (\<lambda>v. v \<noteq> val) xs, b - sum_list (map elemBytes (filter (\<lambda>v. v = val) xs)),
      r + int (count_list xs val))"
  by (induction xs arbitrary: r b) auto

lemma remove_loop_some:
  "cnt \<noteq> 0 \<Longrightarrow> 0 \<le> r \<Longrightarrow> r < limit \<Longrightarrow> remove_loop cnt limit val r b xs =
     (del_first (nat (limit - r)) val xs,
      b - int (min (nat (limit - r)) (count_list xs val)) * elemBytes val,
      r + int (min (nat (limit - r)) (count_list xs val)))"
proof (induction xs arbitrary: r b)
  case (Cons x xs)
  show ?case
  proof (cases "x = val")
    case False
    with Cons show ?thesis by simp
  next
    case True
    show ?thesis
    proof (cases "r + 1 = limit")
      case True
      with Cons.prems \<open>x = val\<close> have "nat (limit - r) = 1" by simp
      with True Cons.prems \<open>x = val\<close> show ?thesis by (cases xs) auto
    next
      case False
      then have n: "nat (limit - r) = Suc (nat (limit - (r + 1)))" using Cons.prems by simp
      from False Cons.prems \<open>x = val\<close> Cons.IH [of "r + 1" "b - elemBytes val"] show ?thesis
        by (simp add: n algebra_simps)
    qed
  qed
qed simp

lemma del_first_bytes:
  "sum_list (map elemBytes (del_first n val xs)) =
     sum_list (map elemBytes xs) - int (min n (count_list xs val)) * elemBytes val"
proof (induction n val xs rule: del_first.induct)
  case (2 n val v vs)
  show ?case
  proof (cases "n = 0")
    case False
    then obtain m where "n = Suc m" by (cases n) auto
    with 2 show ?thesis by (simp add: algebra_simps)
  qed simp
qed simp

lemma count_list_rev [simp]: "count_list (rev xs) v = count_list xs v"
  by (induction xs) auto

lemma filter_bytes:
  "sum_list (map elemBytes (filter (\<lambda>v. v \<noteq> val) xs)) =
     sum_list (map elemBytes xs) - sum_list (map elemBytes (filter (\<lambda>v. v = val) xs))"
  by (induction xs) auto

lemma sum_list_rev_map: "sum_list (map f (rev xs)) = (sum_list (map f xs) :: int)"
  by (simp add: rev_map [symmetric] sum_list_rev)

lemma removeVal_eq:
  "removeVal cnt val d =
     (if cnt = 0 then (\<lparr>dl = filter (\<lambda>v. v \<noteq> val) (dl d),
                        dbytes = dbytes d - sum_list (map elemBytes (filter (\<lambda>v. v = val) (dl d)))\<rparr>,
                       int (count_list (dl d) val))
      else (\<lparr>dl = (if cnt < 0 then rev (del_first (nat (- cnt)) val (rev (dl d)))
                   else del_first (nat cnt) val (dl d)),
             dbytes = dbytes d - int (min (nat \<bar>cnt\<bar>) (count_list (dl d) val)) * elemBytes val\<rparr>,
            int (min (nat \<bar>cnt\<bar>) (count_list (dl d) val))))"
  by (auto simp: removeVal_def remove_loop_all remove_loop_some)

lemma removeVal_ok: "deque_ok d \<Longrightarrow> deque_ok (fst (removeVal cnt val d))"
  by (auto simp: removeVal_eq deque_ok_def filter_bytes del_first_bytes sum_list_rev_map abs_if)

subsection \<open>Positions of a value\<close>

fun match_idx :: "'a \<Rightarrow> int \<Rightarrow> int \<Rightarrow> 'a list \<Rightarrow> int list" where
  "match_idx val step i [] = []"
| "match_idx val step i (v # vs) = (if v = val then [i] else []) @ match_idx val step (i + step) vs"

lemma match_idx_eq:
  "match_idx val step i xs = map (\<lambda>j. i + step * int j) (filter (\<lambda>j. xs ! j = val) [0..<length xs])"
proof (induction xs arbitrary: i)
  case (Cons x xs)
  have "[0..<length (x # xs)] = 0 # map Suc [0..<length xs]" by (simp add: upt_conv_Cons map_Suc_upt del: upt_Suc)
  with Cons show ?case by (simp add: filter_map comp_def algebra_simps del: upt_Suc)
qed simp

definition limit_to :: "int \<Rightarrow> 'a list \<Rightarrow> 'a list" where
  "limit_to n xs = (if n > 0 then take (nat n) xs else xs)"

lemma positions_loop_eq:
  "(cnt > 0 \<Longrightarrow> found < cnt) \<Longrightarrow> (maxlen > 0 \<Longrightarrow> compared \<le> maxlen) \<Longrightarrow>
   positions_loop val skip cnt maxlen step i compared matched found xs =
     (let ms = drop (nat (skip - matched))
                 (match_idx val step i (if maxlen > 0 then take (nat (maxlen - compared)) xs else xs))
      in if cnt > 0 then take (nat (cnt - found)) ms else ms)"
proof (induction xs arbitrary: i compared matched found)
  case (Cons x xs)
  show ?case
  proof (cases "maxlen > 0 \<and> compared \<ge> maxlen")
    case True
    then show ?thesis by simp
  next
    case False
    then have m: "maxlen > 0 \<Longrightarrow> nat (maxlen - compared) = Suc (nat (maxlen - (compared + 1)))"
      and m': "maxlen > 0 \<Longrightarrow> compared + 1 \<le> maxlen" by auto
    note IH = Cons.IH [OF _ m']
    show ?thesis
    proof (cases "x = val \<and> matched \<ge> skip \<and> cnt > 0")
      case True
      have c: "nat (cnt - found) = Suc (nat (cnt - (found + 1)))" using Cons.prems(1) True by simp
      show ?thesis
        using True False Cons.prems m c IH [of "found + 1" "i + step" "matched + 1"]
        by (cases "found + 1 = cnt") (auto simp: Let_def)
    next
      case f: False
      have s: "matched < skip \<Longrightarrow> nat (skip - matched) = Suc (nat (skip - (matched + 1)))" by simp
      show ?thesis
        using f False Cons.prems m s IH [of found "i + step" "matched + 1"] IH [of "found + 1" "i + step" "matched + 1"]
          IH [of found "i + step" matched]
        by (cases "matched < skip") (auto simp: Let_def)
    qed
  qed
qed simp

lemma positions_eq:
  "rank \<noteq> 0 \<Longrightarrow> positions val rank cnt maxlen d =
     limit_to cnt (drop (nat (\<bar>rank\<bar> - 1))
       (let xs = limit_to maxlen (if rank < 0 then rev (dl d) else dl d);
            js = filter (\<lambda>j. xs ! j = val) [0..<length xs]
        in map (\<lambda>j. if rank < 0 then dlen d - 1 - int j else int j) js))"
  by (auto simp: positions_def positions_loop_eq limit_to_def Let_def match_idx_eq)

end
