(* ===== verification/SkipList.thy ===== *)
theory SkipList
  imports Float64
begin

text \<open>
  The skip list of \<open>internal/store/skiplist.go\<close>, at the level of its nodes and pointers.
  The Go heap of one skip list is the list \<open>heap\<close> of the nodes allocated so far; a pointer
  is an index into it and the head sits at address 0. The random source is the sequence
  \<open>rng\<close> of outcomes of \<open>Float64() < slP\<close>, of which \<open>drawn\<close> have been consumed.
\<close>

subsection \<open>Nodes, levels and the list\<close>

abbreviation slMaxLevel :: nat where "slMaxLevel \<equiv> 32"

record slLevel =
  forward :: "nat option"
  span :: int

record slNode =
  nmember :: bytes
  nscore :: float64
  nexts :: "slLevel list"
  nprev :: "nat option"

record skipList =
  heap :: "slNode list"
  slhead :: nat
  sltail :: "nat option"
  slen :: int
  sllevel :: nat
  rng :: "nat \<Rightarrow> bool"
  drawn :: nat

definition newSkipList :: "(nat \<Rightarrow> bool) \<Rightarrow> skipList" where
  "newSkipList rnd =
     \<lparr>heap = [\<lparr>nmember = [], nscore = f64_zero,
               nexts = replicate slMaxLevel \<lparr>forward = None, span = 0\<rparr>, nprev = None\<rparr>],
      slhead = 0, sltail = None, slen = 0, sllevel = 1, rng = rnd, drawn = 0\<rparr>"

text \<open>The levels of the random draw: the level reached and the draws consumed.\<close>

function random_level_from :: "(nat \<Rightarrow> bool) \<Rightarrow> nat \<Rightarrow> nat \<Rightarrow> nat \<times> nat" where
  "random_level_from rnd d lvl =
     (if lvl < slMaxLevel
      then if rnd d then random_level_from rnd (Suc d) (Suc lvl) else (lvl, Suc d)
      else (lvl, d))"
  by pat_completeness auto
termination
  by (relation "measure (\<lambda>(rnd, d, lvl). slMaxLevel - lvl)") auto

declare random_level_from.simps [simp del]

definition randomLevel :: "skipList \<Rightarrow> nat \<times> skipList" where
  "randomLevel sl =
     (let (lvl, d) = random_level_from (rng sl) (drawn sl) 1 in (lvl, sl\<lparr>drawn := d\<rparr>))"

definition sl_less :: "float64 \<Rightarrow> bytes \<Rightarrow> float64 \<Rightarrow> bytes \<Rightarrow> bool" where
  "sl_less scoreA memberA scoreB memberB =
     (if \<not> f64_eq scoreA scoreB then f64_lt scoreA scoreB else memberA < memberB)"

definition node :: "skipList \<Rightarrow> nat \<Rightarrow> slNode" where
  "node sl a = heap sl ! a"

definition cell :: "skipList \<Rightarrow> nat \<Rightarrow> nat \<Rightarrow> slLevel" where
  "cell sl a i = nexts (node sl a) ! i"

definition set_cell :: "nat \<Rightarrow> nat \<Rightarrow> slLevel \<Rightarrow> skipList \<Rightarrow> skipList" where
  "set_cell a i c sl =
     sl\<lparr>heap := (heap sl)[a := (node sl a)\<lparr>nexts := (nexts (node sl a))[i := c]\<rparr>]\<rparr>"

definition set_prev :: "nat \<Rightarrow> nat option \<Rightarrow> skipList \<Rightarrow> skipList" where
  "set_prev a q sl = sl\<lparr>heap := (heap sl)[a := (node sl a)\<lparr>nprev := q\<rparr>]\<rparr>"

subsection \<open>Descending the levels\<close>

text \<open>
  The inner loop of every operation: advance along level \<open>i\<close> while there is a next node
  and the guard admits it, adding up the spans crossed. A level never visits a node twice
  (\<open>walk_last\<close> below), so the number of allocated nodes is enough fuel.
\<close>

fun walk :: "nat \<Rightarrow> skipList \<Rightarrow> (int \<Rightarrow> slLevel \<Rightarrow> bool) \<Rightarrow> nat \<Rightarrow> nat \<Rightarrow> int \<Rightarrow> nat \<times> int" where
  "walk 0 sl g i x r = (x, r)"
| "walk (Suc fuel) sl g i x r =
     (if forward (cell sl x i) \<noteq> None \<and> g r (cell sl x i)
      then walk fuel sl g i (the (forward (cell sl x i))) (r + span (cell sl x i))
      else (x, r))"

text \<open>The outer loop from level \<open>i - 1\<close> down to 0; entry \<open>j\<close> is \<open>(update[j], rank[j])\<close>.\<close>

fun descend :: "skipList \<Rightarrow> (int \<Rightarrow> slLevel \<Rightarrow> bool) \<Rightarrow> nat \<Rightarrow> nat \<Rightarrow> int \<Rightarrow> (nat \<times> int) list" where
  "descend sl g 0 x r = []"
| "descend sl g (Suc i) x r =
     (let (x', r') = walk (length (heap sl)) sl g i x r
      in descend sl g i x' r' @ [(x', r')])"

text \<open>The guard of a search by order: the next node sorts before the target.\<close>

definition sl_before :: "skipList \<Rightarrow> bytes \<Rightarrow> float64 \<Rightarrow> int \<Rightarrow> slLevel \<Rightarrow> bool" where
  "sl_before sl m s r c =
     (let n = node sl (the (forward c)) in sl_less (nscore n) (nmember n) s m)"

subsection \<open>insert\<close>

definition link_level :: "(nat \<times> int) list \<Rightarrow> nat \<Rightarrow> nat \<Rightarrow> skipList \<Rightarrow> skipList" where
  "link_level ur x i sl =
     (let (u, ri) = ur ! i; r0 = snd (ur ! 0); c = cell sl u i
      in set_cell u i \<lparr>forward = Some x, span = (r0 - ri) + 1\<rparr>
           (set_cell x i \<lparr>forward = forward c, span = span c - (r0 - ri)\<rparr> sl))"

definition bump_span :: "(nat \<times> int) list \<Rightarrow> int \<Rightarrow> nat \<Rightarrow> skipList \<Rightarrow> skipList" where
  "bump_span ur d i sl =
     (let u = fst (ur ! i); c = cell sl u i in set_cell u i (c\<lparr>span := span c + d\<rparr>) sl)"

definition raise_head :: "nat \<Rightarrow> skipList \<Rightarrow> skipList" where
  "raise_head i sl = set_cell (slhead sl) i ((cell sl (slhead sl) i)\<lparr>span := slen sl\<rparr>) sl"

definition raise_levels :: "nat \<Rightarrow> skipList \<Rightarrow> skipList" where
  "raise_levels lvl sl =
     (if sllevel sl < lvl then (fold raise_head [sllevel sl..<lvl] sl)\<lparr>sllevel := lvl\<rparr> else sl)"

definition new_node :: "nat \<Rightarrow> bytes \<Rightarrow> float64 \<Rightarrow> skipList \<Rightarrow> skipList" where
  "new_node lvl m s sl =
     sl\<lparr>heap := heap sl @
           [\<lparr>nmember = m, nscore = s,
             nexts = replicate lvl \<lparr>forward = None, span = 0\<rparr>, nprev = None\<rparr>]\<rparr>"

definition splice_levels :: "(nat \<times> int) list \<Rightarrow> nat \<Rightarrow> nat \<Rightarrow> skipList \<Rightarrow> skipList" where
  "splice_levels ur x lvl sl =
     fold (bump_span ur 1) [lvl..<sllevel sl] (fold (link_level ur x) [0..<lvl] sl)"

definition link_prev :: "nat \<Rightarrow> nat \<Rightarrow> skipList \<Rightarrow> skipList" where
  "link_prev u0 x sl =
     (let sl6 = (if u0 \<noteq> slhead sl then set_prev x (Some u0) sl else sl)
      in case forward (cell sl6 x 0) of
           Some y \<Rightarrow> set_prev y (Some x) sl6
         | None \<Rightarrow> sl6\<lparr>sltail := Some x\<rparr>)"

definition insert_sl :: "bytes \<Rightarrow> float64 \<Rightarrow> skipList \<Rightarrow> skipList" where
  "insert_sl m s sl =
     (let ur = descend sl (sl_before sl m s) (sllevel sl) (slhead sl) 0;
          (lvl, sl1) = randomLevel sl;
          ur1 = ur @ replicate (lvl - sllevel sl) (slhead sl, 0);
          sl2 = raise_levels lvl sl1;
          x = length (heap sl2);
          sl3 = splice_levels ur1 x lvl (new_node lvl m s sl2);
          sl4 = link_prev (fst (ur1 ! 0)) x sl3
      in sl4\<lparr>slen := slen sl4 + 1\<rparr>)"

subsection \<open>delete\<close>

definition unlink_level :: "(nat \<times> int) list \<Rightarrow> nat \<Rightarrow> nat \<Rightarrow> skipList \<Rightarrow> skipList" where
  "unlink_level ur x i sl =
     (let u = fst (ur ! i); c = cell sl u i
      in if forward c = Some x
         then let d = cell sl x i
              in set_cell u i \<lparr>forward = forward d, span = span c + (span d - 1)\<rparr> sl
         else set_cell u i (c\<lparr>span := span c - 1\<rparr>) sl)"

fun lower_level :: "skipList \<Rightarrow> nat \<Rightarrow> nat" where
  "lower_level sl 0 = 0"
| "lower_level sl (Suc l) =
     (if l \<ge> 1 \<and> forward (cell sl (slhead sl) l) = None then lower_level sl l else Suc l)"

definition delete_sl :: "bytes \<Rightarrow> float64 \<Rightarrow> skipList \<Rightarrow> skipList \<times> bool" where
  "delete_sl m s sl =
     (let ur = descend sl (sl_before sl m s) (sllevel sl) (slhead sl) 0
      in case forward (cell sl (fst (ur ! 0)) 0) of
           None \<Rightarrow> (sl, False)
         | Some x \<Rightarrow>
             if \<not> f64_eq (nscore (node sl x)) s \<or> nmember (node sl x) \<noteq> m then (sl, False)
             else
               let sl1 = fold (unlink_level ur x) [0..<sllevel sl] sl;
                   sl2 = (case forward (cell sl1 x 0) of
                            Some y \<Rightarrow> set_prev y (nprev (node sl1 x)) sl1
                          | None \<Rightarrow> sl1\<lparr>sltail := nprev (node sl1 x)\<rparr>);
                   sl3 = sl2\<lparr>sllevel := lower_level sl2 (sllevel sl2)\<rparr>
               in (sl3\<lparr>slen := slen sl3 - 1\<rparr>, True))"

subsection \<open>rank and nodeByRank\<close>

text \<open>Both loops test for their target at the end of every level and return early.\<close>

definition not_after :: "skipList \<Rightarrow> bytes \<Rightarrow> float64 \<Rightarrow> int \<Rightarrow> slLevel \<Rightarrow> bool" where
  "not_after sl m s r c =
     (let n = node sl (the (forward c)) in \<not> sl_less s m (nscore n) (nmember n))"

fun rank_from :: "skipList \<Rightarrow> bytes \<Rightarrow> float64 \<Rightarrow> nat \<Rightarrow> nat \<Rightarrow> int \<Rightarrow> int" where
  "rank_from sl m s 0 x r = -1"
| "rank_from sl m s (Suc i) x r =
     (let (x', r') = walk (length (heap sl)) sl (not_after sl m s) i x r
      in if x' \<noteq> slhead sl \<and> nmember (node sl x') = m then r' - 1
         else rank_from sl m s i x' r')"

definition rank_sl :: "bytes \<Rightarrow> float64 \<Rightarrow> skipList \<Rightarrow> int" where
  "rank_sl m s sl = rank_from sl m s (sllevel sl) (slhead sl) 0"

definition sl_within :: "int \<Rightarrow> int \<Rightarrow> slLevel \<Rightarrow> bool" where
  "sl_within target r c \<longleftrightarrow> r + span c \<le> target"

fun node_by_rank_from :: "skipList \<Rightarrow> int \<Rightarrow> nat \<Rightarrow> nat \<Rightarrow> int \<Rightarrow> nat option" where
  "node_by_rank_from sl target 0 x r = None"
| "node_by_rank_from sl target (Suc i) x r =
     (let (x', r') = walk (length (heap sl)) sl (sl_within target) i x r
      in if r' = target then Some x' else node_by_rank_from sl target i x' r')"

definition nodeByRank :: "int \<Rightarrow> skipList \<Rightarrow> nat option" where
  "nodeByRank r sl = node_by_rank_from sl (r + 1) (sllevel sl) (slhead sl) 0"

text \<open>The walk along level 0 from a node, which every range query performs.\<close>

fun chain_from :: "nat \<Rightarrow> skipList \<Rightarrow> nat option \<Rightarrow> nat list" where
  "chain_from 0 sl p = []"
| "chain_from (Suc fuel) sl p =
     (case p of None \<Rightarrow> [] | Some a \<Rightarrow> a # chain_from fuel sl (forward (cell sl a 0)))"

definition sl_first :: "skipList \<Rightarrow> nat option" where
  "sl_first sl = forward (cell sl (slhead sl) 0)"

subsection \<open>Positions\<close>

definition cell_ok :: "(nat \<Rightarrow> nat) \<Rightarrow> (nat \<Rightarrow> nat) \<Rightarrow> nat \<Rightarrow> nat \<Rightarrow> nat \<Rightarrow> slLevel \<Rightarrow> bool" where
  "cell_ok h ad n i p c \<longleftrightarrow>
     (case forward c of
        None \<Rightarrow> span c = int n - int p \<and> (\<forall>q. p < q \<and> q \<le> n \<longrightarrow> h q \<le> i)
      | Some a \<Rightarrow> (\<exists>q. p < q \<and> q \<le> n \<and> a = ad q \<and> i < h q \<and>
                      (\<forall>r. p < r \<and> r < q \<longrightarrow> h r \<le> i) \<and> span c = int q - int p))"

definition is_last :: "(nat \<Rightarrow> nat) \<Rightarrow> nat \<Rightarrow> nat \<Rightarrow> nat \<Rightarrow> bool" where
  "is_last h i k P \<longleftrightarrow> P \<le> k \<and> i < h P \<and> (\<forall>q. P < q \<and> q \<le> k \<longrightarrow> h q \<le> i)"

definition ins_at :: "nat \<Rightarrow> 'a \<Rightarrow> (nat \<Rightarrow> 'a) \<Rightarrow> nat \<Rightarrow> 'a" where
  "ins_at k v h p = (if p \<le> k then h p else if p = Suc k then v else h (p - 1))"

definition del_at :: "nat \<Rightarrow> (nat \<Rightarrow> 'a) \<Rightarrow> nat \<Rightarrow> 'a" where
  "del_at k h p = (if p \<le> k then h p else h (Suc p))"

lemma cell_okI_Some:
  "forward c = Some (ad q) \<Longrightarrow> p < q \<Longrightarrow> q \<le> n \<Longrightarrow> i < h q \<Longrightarrow>
   (\<And>r. p < r \<Longrightarrow> r < q \<Longrightarrow> h r \<le> i) \<Longrightarrow> span c = int q - int p \<Longrightarrow> cell_ok h ad n i p c"
  by (auto simp: cell_ok_def)

lemma cell_okI_None:
  "forward c = None \<Longrightarrow> (\<And>q. p < q \<Longrightarrow> q \<le> n \<Longrightarrow> h q \<le> i) \<Longrightarrow>
   span c = int n - int p \<Longrightarrow> cell_ok h ad n i p c"
  by (auto simp: cell_ok_def)

lemma cell_okE:
  assumes "cell_ok h ad n i p c"
  obtains (last) "forward c = None" "span c = int n - int p" "\<And>q. p < q \<Longrightarrow> q \<le> n \<Longrightarrow> h q \<le> i"
  | (step) q where "forward c = Some (ad q)" "p < q" "q \<le> n" "i < h q"
      "\<And>r. p < r \<Longrightarrow> r < q \<Longrightarrow> h r \<le> i" "span c = int q - int p"
  using assms by (fastforce simp: cell_ok_def split: option.splits)

lemma is_last_unique: "is_last h i k P \<Longrightarrow> is_last h i k Q \<Longrightarrow> P = Q"
  unfolding is_last_def by (metis linorder_not_le nat_neq_iff)

lemma cell_ins_right:
  assumes "cell_ok h ad n i p c" "k < p"
  shows "cell_ok (ins_at k v h) (ins_at k x ad) (Suc n) i (Suc p) c"
  using assms(1)
proof (cases rule: cell_okE)
  case last
  with assms(2) show ?thesis by (intro cell_okI_None) (auto simp: ins_at_def)
next
  case (step q)
  have "h (r - 1) \<le> i" if "Suc p < r" "r < Suc q" for r
    using step(5) [of "r - 1"] that by auto
  with step assms(2) show ?thesis
    by (intro cell_okI_Some [where q = "Suc q"]) (auto simp: ins_at_def)
qed

lemma cell_ins_left:
  assumes "cell_ok h ad n i p c" "p < q" "q \<le> k" "i < h q" "k \<le> n"
  shows "cell_ok (ins_at k v h) (ins_at k x ad) (Suc n) i p c"
  using assms(1)
proof (cases rule: cell_okE)
  case last
  with assms show ?thesis by (meson le_trans linorder_not_le)
next
  case (step q')
  have "q' \<le> k" using step(5) [of q] assms by (meson le_trans linorder_not_le)
  with step assms show ?thesis
    by (intro cell_okI_Some [where q = q']) (auto simp: ins_at_def)
qed

lemma cell_ins_under:
  assumes "cell_ok h ad n i P c" "is_last h i k P" "v \<le> i" "k \<le> n"
  shows "cell_ok (ins_at k v h) (ins_at k x ad) (Suc n) i P (c\<lparr>span := span c + 1\<rparr>)"
  using assms(1)
proof (cases rule: cell_okE)
  case last
  with assms show ?thesis
    by (intro cell_okI_None) (auto simp: ins_at_def is_last_def)
next
  case (step q)
  have kq: "k < q" using step assms(2) unfolding is_last_def by (meson linorder_not_le)
  have "ins_at k v h r \<le> i" if "P < r" "r < Suc q" for r
    using step(5) [of r] step(5) [of "r - 1"] that assms(2,3) kq
    by (auto simp: ins_at_def is_last_def)
  with step assms kq show ?thesis
    by (intro cell_okI_Some [where q = "Suc q"]) (auto simp: ins_at_def)
qed

lemma cell_ins_pred:
  assumes "is_last h i k P" "i < v" "k \<le> n"
  shows "cell_ok (ins_at k v h) (ins_at k x ad) (Suc n) i P
           \<lparr>forward = Some x, span = (int k - int P) + 1\<rparr>"
  using assms
  by (intro cell_okI_Some [where q = "Suc k"]) (auto simp: ins_at_def is_last_def)

lemma cell_ins_new:
  assumes "cell_ok h ad n i P c" "is_last h i k P" "k \<le> n"
  shows "cell_ok (ins_at k v h) (ins_at k x ad) (Suc n) i (Suc k)
           \<lparr>forward = forward c, span = span c - (int k - int P)\<rparr>"
  using assms(1)
proof (cases rule: cell_okE)
  case last
  with assms show ?thesis
    by (intro cell_okI_None) (auto simp: ins_at_def is_last_def)
next
  case (step q)
  have kq: "k < q" using step assms(2) unfolding is_last_def by (meson linorder_not_le)
  have "ins_at k v h r \<le> i" if "Suc k < r" "r < Suc q" for r
    using step(5) [of "r - 1"] that assms(2) by (auto simp: ins_at_def is_last_def)
  with step assms kq show ?thesis
    by (intro cell_okI_Some [where q = "Suc q"]) (auto simp: ins_at_def is_last_def)
qed

lemma cell_del_right:
  assumes "cell_ok h ad (Suc n) i p c" "Suc k < p"
  shows "cell_ok (del_at k h) (del_at k ad) n i (p - 1) c"
  using assms(1)
proof (cases rule: cell_okE)
  case last
  with assms(2) show ?thesis by (intro cell_okI_None) (auto simp: del_at_def)
next
  case (step q)
  with assms(2) show ?thesis
    by (intro cell_okI_Some [where q = "q - 1"]) (auto simp: del_at_def)
qed

lemma cell_del_left:
  assumes "cell_ok h ad (Suc n) i p c" "p < q" "q \<le> k" "i < h q" "k \<le> n"
  shows "cell_ok (del_at k h) (del_at k ad) n i p c"
  using assms(1)
proof (cases rule: cell_okE)
  case last
  then have "h q \<le> i" using assms by auto
  with assms show ?thesis by simp
next
  case (step q')
  have "q' \<le> k" using step(5) [of q] assms by (meson le_trans linorder_not_le)
  with step assms show ?thesis
    by (intro cell_okI_Some [where q = q']) (auto simp: del_at_def)
qed

lemma cell_del_under:
  assumes "cell_ok h ad (Suc n) i P c" "is_last h i k P" "h (Suc k) \<le> i" "k \<le> n"
  shows "cell_ok (del_at k h) (del_at k ad) n i P (c\<lparr>span := span c - 1\<rparr>)"
  using assms(1)
proof (cases rule: cell_okE)
  case last
  with assms show ?thesis
    by (intro cell_okI_None) (auto simp: del_at_def is_last_def)
next
  case (step q)
  have kq: "Suc k < q" using step assms(2,3) unfolding is_last_def
    by (metis Suc_lessI linorder_not_le)
  have "del_at k h r \<le> i" if "P < r" "r < q - 1" for r
    using step(5) [of r] step(5) [of "Suc r"] that by (auto simp: del_at_def)
  with step assms kq show ?thesis
    by (intro cell_okI_Some [where q = "q - 1"]) (auto simp: del_at_def is_last_def)
qed

lemma cell_del_pred:
  assumes "cell_ok h ad (Suc n) i P c" "is_last h i k P" "i < h (Suc k)" "k \<le> n"
    and "cell_ok h ad (Suc n) i (Suc k) d"
  shows "cell_ok (del_at k h) (del_at k ad) n i P
           \<lparr>forward = forward d, span = span c + (span d - 1)\<rparr>"
proof -
  have c: "span c = int (Suc k) - int P"
    using assms(1)
  proof (cases rule: cell_okE)
    case last
    have "P < Suc k" "Suc k \<le> Suc n" using assms(2,4) by (auto simp: is_last_def)
    from last(3) [OF this] assms(3) show ?thesis by simp
  next
    case (step q)
    have "k < q" using step assms(2) unfolding is_last_def by (meson linorder_not_le)
    moreover have "\<not> Suc k < q"
      using step(5) [of "Suc k"] assms(2,3) by (auto simp: is_last_def)
    ultimately have "q = Suc k" by simp
    with step show ?thesis by simp
  qed
  show ?thesis
    using assms(5)
  proof (cases rule: cell_okE)
    case last
    with c assms show ?thesis
      by (intro cell_okI_None) (auto simp: del_at_def is_last_def)
  next
    case (step q)
    have "del_at k h r \<le> i" if "P < r" "r < q - 1" for r
      using step(5) [of "Suc r"] that assms(2) by (auto simp: del_at_def is_last_def)
    with step c assms show ?thesis
      by (intro cell_okI_Some [where q = "q - 1"]) (auto simp: del_at_def is_last_def)
  qed
qed

subsection \<open>The heap\<close>

definition hgt :: "skipList \<Rightarrow> nat \<Rightarrow> nat" where
  "hgt sl a = length (nexts (node sl a))"

definition shape :: "skipList \<Rightarrow> (bytes \<times> float64 \<times> nat \<times> nat option) list \<times> nat \<times> nat option \<times> int \<times> nat" where
  "shape sl = (map (\<lambda>n. (nmember n, nscore n, length (nexts n), nprev n)) (heap sl),
               slhead sl, sltail sl, slen sl, sllevel sl)"

lemma shapeD:
  assumes "shape S = shape T"
  shows "length (heap S) = length (heap T)" "slhead S = slhead T" "sltail S = sltail T"
    "slen S = slen T" "sllevel S = sllevel T"
    and "a < length (heap T) \<Longrightarrow> nmember (node S a) = nmember (node T a)"
    and "a < length (heap T) \<Longrightarrow> nscore (node S a) = nscore (node T a)"
    and "a < length (heap T) \<Longrightarrow> nprev (node S a) = nprev (node T a)"
    and "a < length (heap T) \<Longrightarrow> hgt S a = hgt T a"
proof -
  let ?f = "\<lambda>n. (nmember n, nscore n, length (nexts n), nprev n)"
  from assms have m: "map ?f (heap S) = map ?f (heap T)"
    and r: "slhead S = slhead T" "sltail S = sltail T" "slen S = slen T" "sllevel S = sllevel T"
    by (simp_all add: shape_def)
  from m have l: "length (heap S) = length (heap T)" by (rule map_eq_imp_length_eq)
  have n: "?f (node S a) = ?f (node T a)" if "a < length (heap T)"
    using arg_cong [OF m, of "\<lambda>xs. xs ! a"] that l by (simp add: node_def)
  show "length (heap S) = length (heap T)" "slhead S = slhead T" "sltail S = sltail T"
    "slen S = slen T" "sllevel S = sllevel T"
    using l r by simp_all
  show "a < length (heap T) \<Longrightarrow> nmember (node S a) = nmember (node T a)"
    "a < length (heap T) \<Longrightarrow> nscore (node S a) = nscore (node T a)"
    "a < length (heap T) \<Longrightarrow> nprev (node S a) = nprev (node T a)"
    "a < length (heap T) \<Longrightarrow> hgt S a = hgt T a"
    using n by (auto simp: hgt_def)
qed

lemma node_set_cell:
  "node (set_cell a i c sl) b =
     (if b = a \<and> a < length (heap sl)
      then (node sl a)\<lparr>nexts := (nexts (node sl a))[i := c]\<rparr> else node sl b)"
  by (auto simp: node_def set_cell_def list_update_beyond)

lemma shape_set_cell [simp]: "shape (set_cell a i c sl) = shape sl"
proof (cases "a < length (heap sl)")
  case True
  then show ?thesis
    by (auto simp: shape_def set_cell_def node_def map_update intro!: list_update_same_conv [THEN iffD2])
next
  case False
  then show ?thesis by (simp add: shape_def set_cell_def list_update_beyond)
qed

lemma cell_set_cell:
  "cell (set_cell a i c sl) b j =
     (if b = a \<and> j = i \<and> a < length (heap sl) \<and> i < hgt sl a then c else cell sl b j)"
  by (auto simp: cell_def node_set_cell hgt_def nth_list_update list_update_beyond)

lemma set_prev_props [simp]:
  "length (heap (set_prev a q sl)) = length (heap sl)"
  "slhead (set_prev a q sl) = slhead sl" "sltail (set_prev a q sl) = sltail sl"
  "slen (set_prev a q sl) = slen sl" "sllevel (set_prev a q sl) = sllevel sl"
  "cell (set_prev a q sl) b j = cell sl b j"
  "hgt (set_prev a q sl) b = hgt sl b"
  "nmember (node (set_prev a q sl) b) = nmember (node sl b)"
  "nscore (node (set_prev a q sl) b) = nscore (node sl b)"
  by (cases "a < length (heap sl)"; auto simp: set_prev_def cell_def hgt_def node_def nth_list_update list_update_beyond)+

lemma prev_set_prev:
  "a < length (heap sl) \<Longrightarrow> nprev (node (set_prev a q sl) b) = (if b = a then q else nprev (node sl b))"
  by (auto simp: set_prev_def node_def)

text \<open>A loop over levels whose steps touch only the cells of their own level.\<close>

definition level_local :: "skipList \<Rightarrow> (nat \<Rightarrow> skipList \<Rightarrow> skipList) \<Rightarrow> nat \<Rightarrow> ((nat \<Rightarrow> slLevel) \<Rightarrow> nat \<Rightarrow> slLevel) \<Rightarrow> bool" where
  "level_local T step i F \<longleftrightarrow>
     (\<forall>S. shape S = shape T \<longrightarrow> shape (step i S) = shape T \<and>
        (\<forall>a j. cell (step i S) a j = (if j = i then F (\<lambda>b. cell S b i) a else cell S a j)))"

lemma fold_level_local:
  assumes "\<And>i. i \<in> set is \<Longrightarrow> level_local T step i (F i)" and "distinct is" and "shape S = shape T"
  shows "shape (fold step is S) = shape T \<and>
     (\<forall>a j. cell (fold step is S) a j = (if j \<in> set is then F j (\<lambda>b. cell S b j) a else cell S a j))"
  using assms
proof (induction "is" arbitrary: S)
  case Nil
  then show ?case by simp
next
  case (Cons i "is")
  have i: "shape (step i S) = shape T"
    "\<And>a j. cell (step i S) a j = (if j = i then F i (\<lambda>b. cell S b i) a else cell S a j)"
    using Cons.prems(1) [of i] Cons.prems(3) by (auto simp: level_local_def)
  have r: "shape (fold step is (step i S)) = shape T"
     "\<And>a j. cell (fold step is (step i S)) a j =
        (if j \<in> set is then F j (\<lambda>b. cell (step i S) b j) a else cell (step i S) a j)"
    using Cons.IH [of "step i S"] Cons.prems i(1) by auto
  have "(\<lambda>b. cell (step i S) b j) = (\<lambda>b. cell S b j)" if "j \<in> set is" for j
    using that Cons.prems(2) i(2) by auto
  then have "cell (fold step is (step i S)) a j =
      (if j \<in> set (i # is) then F j (\<lambda>b. cell S b j) a else cell S a j)" for a j
    using Cons.prems(2) by (cases "j \<in> set is") (simp_all add: r(2), simp add: i(2))
  with r(1) show ?case by simp
qed

subsection \<open>The invariant\<close>

definition addr :: "nat list \<Rightarrow> nat \<Rightarrow> nat" where
  "addr ns p = (0 # ns) ! p"

definition nkey :: "skipList \<Rightarrow> nat \<Rightarrow> int \<times> bytes" where
  "nkey sl a = (f64_key (nscore (node sl a)), nmember (node sl a))"

definition cells_ok :: "skipList \<Rightarrow> nat list \<Rightarrow> nat \<Rightarrow> bool" where
  "cells_ok sl ns L \<longleftrightarrow>
     (\<forall>p \<le> length ns. \<forall>i < L. i < hgt sl (addr ns p) \<longrightarrow>
        cell_ok (\<lambda>q. hgt sl (addr ns q)) (addr ns) (length ns) i p (cell sl (addr ns p) i))"

definition chain_ok :: "skipList \<Rightarrow> nat list \<Rightarrow> bool" where
  "chain_ok sl ns \<longleftrightarrow>
     slhead sl = 0 \<and> distinct (0 # ns) \<and> (\<forall>a \<in> set (0 # ns). a < length (heap sl)) \<and>
     slen sl = int (length ns) \<and> hgt sl 0 = slMaxLevel \<and> 1 \<le> sllevel sl \<and> sllevel sl \<le> slMaxLevel \<and>
     (\<forall>a \<in> set ns. 1 \<le> hgt sl a \<and> hgt sl a \<le> sllevel sl) \<and>
     (\<forall>i. sllevel sl \<le> i \<and> i < slMaxLevel \<longrightarrow> forward (cell sl 0 i) = None)"

definition ends_ok :: "skipList \<Rightarrow> nat list \<Rightarrow> bool" where
  "ends_ok sl ns \<longleftrightarrow>
     sltail sl = (if ns = [] then None else Some (last ns)) \<and>
     (\<forall>j < length ns. nprev (node sl (ns ! j)) = (if j = 0 then None else Some (ns ! (j - 1))))"

definition order_ok :: "skipList \<Rightarrow> nat list \<Rightarrow> bool" where
  "order_ok sl ns \<longleftrightarrow>
     sorted_wrt (<) (map (nkey sl) ns) \<and> (\<forall>a \<in> set ns. \<not> IsNaN (nscore (node sl a)))"

definition sl_inv :: "skipList \<Rightarrow> nat list \<Rightarrow> bool" where
  "sl_inv sl ns \<longleftrightarrow>
     chain_ok sl ns \<and> cells_ok sl ns (sllevel sl) \<and> ends_ok sl ns \<and> order_ok sl ns"

lemma addr_simps [simp]: "addr ns 0 = 0" "addr ns (Suc p) = ns ! p"
  by (simp_all add: addr_def)

lemma addr_bound: "chain_ok sl ns \<Longrightarrow> p \<le> length ns \<Longrightarrow> addr ns p < length (heap sl)"
  by (cases p) (auto simp: chain_ok_def)

lemma addr_inj: "distinct (0 # ns) \<Longrightarrow> p \<le> length ns \<Longrightarrow> q \<le> length ns \<Longrightarrow> addr ns p = addr ns q \<longleftrightarrow> p = q"
  unfolding addr_def by (rule nth_eq_iff_index_eq) auto

lemma chain_fuel: "chain_ok sl ns \<Longrightarrow> length ns < length (heap sl)"
proof -
  assume c: "chain_ok sl ns"
  then have "set (0 # ns) \<subseteq> {..<length (heap sl)}" and d: "distinct (0 # ns)"
    by (auto simp: chain_ok_def)
  then have "card (set (0 # ns)) \<le> length (heap sl)"
    by (metis card_lessThan card_mono finite_lessThan)
  with d show ?thesis by (simp only: distinct_card) simp
qed

lemma hgt_pos: "chain_ok sl ns \<Longrightarrow> p \<le> length ns \<Longrightarrow> 0 < hgt sl (addr ns p)"
  by (cases p) (auto simp: chain_ok_def Suc_le_eq)

text \<open>A guard that admits exactly the nodes up to position \<open>k\<close>.\<close>

definition guard_ok :: "(int \<Rightarrow> slLevel \<Rightarrow> bool) \<Rightarrow> nat list \<Rightarrow> nat \<Rightarrow> bool" where
  "guard_ok g ns k \<longleftrightarrow>
     (\<forall>p q c. p < q \<longrightarrow> q \<le> length ns \<longrightarrow> forward c = Some (addr ns q) \<longrightarrow> span c = int q - int p \<longrightarrow>
        g (int p) c = (q \<le> k))"

lemma walk_last:
  assumes "cells_ok sl ns L" "i < L" "k \<le> length ns" "guard_ok g ns k"
  shows "p \<le> k \<Longrightarrow> i < hgt sl (addr ns p) \<Longrightarrow> k - p < fuel \<Longrightarrow>
    \<exists>P. walk fuel sl g i (addr ns p) (int p) = (addr ns P, int P) \<and>
        is_last (\<lambda>q. hgt sl (addr ns q)) i k P"
proof (induction fuel arbitrary: p)
  case 0
  then show ?case by simp
next
  case (Suc fuel)
  let ?c = "cell sl (addr ns p) i"
  have "p \<le> length ns" using Suc.prems(1) assms(3) by simp
  then have "cell_ok (\<lambda>q. hgt sl (addr ns q)) (addr ns) (length ns) i p ?c"
    using assms(1,2) Suc.prems(2) by (simp add: cells_ok_def)
  then show ?case
  proof (cases rule: cell_okE)
    case last
    then show ?thesis using Suc.prems assms(3) by (auto simp: is_last_def)
  next
    case (step q)
    have g: "g (int p) ?c = (q \<le> k)" using assms(4) step by (auto simp: guard_ok_def)
    show ?thesis
    proof (cases "q \<le> k")
      case True
      with step have "k - q < fuel" using Suc.prems(3) by linarith
      from Suc.IH [OF True step(4) this] obtain P where
        P: "walk fuel sl g i (addr ns q) (int q) = (addr ns P, int P)"
          "is_last (\<lambda>q. hgt sl (addr ns q)) i k P" by blast
      have "int p + span ?c = int q" using step by simp
      with P step g True show ?thesis by (intro exI [of _ P]) simp
    next
      case False
      with step Suc.prems have "is_last (\<lambda>q. hgt sl (addr ns q)) i k p"
        by (auto simp: is_last_def)
      with False g step show ?thesis by (intro exI [of _ p]) simp
    qed
  qed
qed

lemma walk_level:
  assumes "chain_ok sl ns" "cells_ok sl ns L" "i < L" "k \<le> length ns" "guard_ok g ns k"
    and "p \<le> k" "i < hgt sl (addr ns p)"
  obtains P where "walk (length (heap sl)) sl g i (addr ns p) (int p) = (addr ns P, int P)"
    "is_last (\<lambda>q. hgt sl (addr ns q)) i k P"
proof -
  have "k - p < length (heap sl)" using chain_fuel [OF assms(1)] assms(4) by linarith
  from walk_last [OF assms(2-5,6,7) this] that show ?thesis by blast
qed

definition preds_ok :: "skipList \<Rightarrow> nat list \<Rightarrow> nat \<Rightarrow> (nat \<times> int) list \<Rightarrow> bool" where
  "preds_ok sl ns k ur \<longleftrightarrow>
     (\<forall>i < length ur. \<exists>P. ur ! i = (addr ns P, int P) \<and> is_last (\<lambda>q. hgt sl (addr ns q)) i k P)"

lemma descend_preds:
  assumes "chain_ok sl ns" "cells_ok sl ns L" "k \<le> length ns" "guard_ok g ns k"
  shows "l \<le> L \<Longrightarrow> p \<le> k \<Longrightarrow> l \<le> hgt sl (addr ns p) \<Longrightarrow>
    length (descend sl g l (addr ns p) (int p)) = l \<and>
    preds_ok sl ns k (descend sl g l (addr ns p) (int p))"
proof (induction l arbitrary: p)
  case 0
  then show ?case by (simp add: preds_ok_def)
next
  case (Suc l)
  obtain P where P: "walk (length (heap sl)) sl g l (addr ns p) (int p) = (addr ns P, int P)"
    "is_last (\<lambda>q. hgt sl (addr ns q)) l k P"
    using walk_level [OF assms(1,2) _ assms(3,4), of l p] Suc.prems by auto
  have "length (descend sl g l (addr ns P) (int P)) = l \<and>
    preds_ok sl ns k (descend sl g l (addr ns P) (int P))"
    using Suc.prems P(2) by (intro Suc.IH) (auto simp: is_last_def)
  with P show ?case by (auto simp: preds_ok_def nth_append less_Suc_eq)
qed

subsection \<open>Searching by order\<close>

lemma sl_less_key:
  "\<not> IsNaN sA \<Longrightarrow> \<not> IsNaN sB \<Longrightarrow> sl_less sA mA sB mB \<longleftrightarrow> (f64_key sA, mA) < (f64_key sB, mB)"
  by (auto simp: sl_less_def f64_eq_def f64_lt_def less_prod_def')

definition split_pos :: "skipList \<Rightarrow> nat list \<Rightarrow> (int \<times> bytes \<Rightarrow> bool) \<Rightarrow> nat" where
  "split_pos sl ns Q = length (takeWhile (\<lambda>a. Q (nkey sl a)) ns)"

lemma split_pos_le: "split_pos sl ns Q \<le> length ns"
  by (simp add: split_pos_def length_takeWhile_le)

lemma split_pos_before: "j < split_pos sl ns Q \<Longrightarrow> Q (nkey sl (ns ! j))"
  unfolding split_pos_def using set_takeWhileD [OF nth_mem, of j "\<lambda>a. Q (nkey sl a)" ns]
  by (simp add: takeWhile_nth)

lemma split_pos_after:
  assumes "order_ok sl ns" "\<And>x y. x < y \<Longrightarrow> Q y \<Longrightarrow> Q x"
    and "split_pos sl ns Q \<le> j" "j < length ns"
  shows "\<not> Q (nkey sl (ns ! j))"
proof -
  let ?k = "split_pos sl ns Q"
  have k: "\<not> Q (nkey sl (ns ! ?k))"
    using nth_length_takeWhile [of "\<lambda>a. Q (nkey sl a)" ns] assms(3,4)
    by (simp add: split_pos_def)
  show ?thesis
  proof (cases "?k = j")
    case False
    with assms have "nkey sl (ns ! ?k) < nkey sl (ns ! j)"
      by (auto simp: order_ok_def sorted_wrt_iff_nth_less)
    with k assms(2) show ?thesis by blast
  qed (use k in simp)
qed

lemma split_pos_iff:
  assumes "order_ok sl ns" "\<And>x y. x < y \<Longrightarrow> Q y \<Longrightarrow> Q x" "j < length ns"
  shows "Q (nkey sl (ns ! j)) \<longleftrightarrow> j < split_pos sl ns Q"
proof (cases "j < split_pos sl ns Q")
  case True
  then show ?thesis by (simp add: split_pos_before)
next
  case False
  then have "split_pos sl ns Q \<le> j" by simp
  from split_pos_after [of sl ns Q, OF assms(1,2) this assms(3)] False show ?thesis by simp
qed

lemma guard_before:
  assumes "order_ok sl ns" "\<not> IsNaN s"
  shows "guard_ok (sl_before sl m s) ns (split_pos sl ns (\<lambda>t. t < (f64_key s, m)))"
    (is "guard_ok _ _ ?k")
  unfolding guard_ok_def
proof (intro allI impI)
  fix p q :: nat and c :: slLevel
  assume pq: "p < q" "q \<le> length ns" and f: "forward c = Some (addr ns q)"
  then obtain j where j: "q = Suc j" "j < length ns" by (cases q) auto
  have "sl_before sl m s (int p) c \<longleftrightarrow> nkey sl (ns ! j) < (f64_key s, m)"
    using f j assms by (simp add: sl_before_def Let_def nkey_def sl_less_key order_ok_def)
  also have "\<dots> \<longleftrightarrow> j < ?k"
    by (rule split_pos_iff [OF assms(1) _ j(2)]) auto
  finally show "sl_before sl m s (int p) c = (q \<le> ?k)" using j by (simp add: Suc_le_eq)
qed

lemma guard_not_after:
  assumes "order_ok sl ns" "\<not> IsNaN s"
  shows "guard_ok (not_after sl m s) ns (split_pos sl ns (\<lambda>t. t \<le> (f64_key s, m)))"
    (is "guard_ok _ _ ?k")
  unfolding guard_ok_def
proof (intro allI impI)
  fix p q :: nat and c :: slLevel
  assume pq: "p < q" "q \<le> length ns" and f: "forward c = Some (addr ns q)"
  then obtain j where j: "q = Suc j" "j < length ns" by (cases q) auto
  have "not_after sl m s (int p) c \<longleftrightarrow> nkey sl (ns ! j) \<le> (f64_key s, m)"
    using f j assms by (auto simp: not_after_def Let_def nkey_def sl_less_key order_ok_def)
  also have "\<dots> \<longleftrightarrow> j < ?k"
    by (rule split_pos_iff [OF assms(1) _ j(2)]) auto
  finally show "not_after sl m s (int p) c = (q \<le> ?k)" using j by (simp add: Suc_le_eq)
qed

lemma guard_within: "guard_ok (sl_within (int k)) ns k"
  by (simp add: guard_ok_def sl_within_def)

text \<open>Level 0 links every node to its successor.\<close>

lemma forward0:
  assumes "chain_ok sl ns" "cells_ok sl ns L" "0 < L" "p \<le> length ns"
  shows "forward (cell sl (addr ns p) 0) = (if p < length ns then Some (ns ! p) else None)"
proof -
  have "cell_ok (\<lambda>q. hgt sl (addr ns q)) (addr ns) (length ns) 0 p (cell sl (addr ns p) 0)"
    using assms hgt_pos [OF assms(1,4)] by (simp add: cells_ok_def)
  then show ?thesis
  proof (cases rule: cell_okE)
    case last
    have "\<not> p < length ns"
      using last(3) [of "Suc p"] hgt_pos [OF assms(1), of "Suc p"] by auto
    with last show ?thesis by simp
  next
    case (step q)
    have "\<not> Suc p < q"
      using step(2,3) step(5) [of "Suc p"] hgt_pos [OF assms(1), of "Suc p"] by auto
    with step have "q = Suc p" by simp
    with step show ?thesis by simp
  qed
qed

lemma preds_zero:
  assumes "chain_ok sl ns" "preds_ok sl ns k ur" "0 < length ur" "k \<le> length ns"
  shows "ur ! 0 = (addr ns k, int k)"
proof -
  obtain P where P: "ur ! 0 = (addr ns P, int P)" "is_last (\<lambda>q. hgt sl (addr ns q)) 0 k P"
    using assms(2,3) by (auto simp: preds_ok_def)
  have "is_last (\<lambda>q. hgt sl (addr ns q)) 0 k k"
    using hgt_pos [OF assms(1,4)] by (simp add: is_last_def)
  with P is_last_unique show ?thesis by blast
qed

lemma cell_ok_cong:
  assumes "\<And>q. q \<le> n \<Longrightarrow> h q = h' q" "\<And>q. q \<le> n \<Longrightarrow> ad q = ad' q"
  shows "cell_ok h ad n i p c \<longleftrightarrow> cell_ok h' ad' n i p c"
  unfolding cell_ok_def using assms by (auto split: option.splits)

subsection \<open>insert keeps the invariant\<close>

lemma random_level_bounds:
  "1 \<le> lvl \<Longrightarrow> lvl \<le> slMaxLevel \<Longrightarrow> random_level_from rnd d lvl = (l, d') \<Longrightarrow> 1 \<le> l \<and> l \<le> slMaxLevel"
proof (induction rnd d lvl rule: random_level_from.induct)
  case (1 rnd d lvl)
  have "lvl < slMaxLevel \<and> rnd d \<Longrightarrow> random_level_from rnd (Suc d) (Suc lvl) = (l, d')"
    "\<not> (lvl < slMaxLevel \<and> rnd d) \<Longrightarrow> l = lvl"
    using 1(4) random_level_from.simps [of rnd d lvl] by (auto split: if_splits)
  with 1 show ?case by (cases "lvl < slMaxLevel \<and> rnd d") auto
qed

lemma randomLevel_props:
  assumes "randomLevel sl = (lvl, sl1)"
  shows "1 \<le> lvl" "lvl \<le> slMaxLevel" "\<exists>d. sl1 = sl\<lparr>drawn := d\<rparr>"
  using assms random_level_bounds [of 1 "rng sl" "drawn sl"]
  by (auto simp: randomLevel_def split: prod.splits)

lemma level_localI:
  assumes "\<And>S. length (heap S) = length (heap T) \<Longrightarrow> slhead S = slhead T \<Longrightarrow> slen S = slen T \<Longrightarrow>
     (\<forall>a < length (heap T). hgt S a = hgt T a) \<Longrightarrow> shape (step i S) = shape S \<and>
        (\<forall>a j. cell (step i S) a j = (if j = i then F (\<lambda>b. cell S b i) a else cell S a j))"
  shows "level_local T step i F"
  unfolding level_local_def
proof (intro allI impI)
  fix S assume S: "shape S = shape T"
  then show "shape (step i S) = shape T \<and>
        (\<forall>a j. cell (step i S) a j = (if j = i then F (\<lambda>b. cell S b i) a else cell S a j))"
    using assms [of S] shapeD [OF S] by simp
qed

lemma heap_set_cell [simp]:
  "length (heap (set_cell a i c sl)) = length (heap sl)" "hgt (set_cell a i c sl) b = hgt sl b"
  by (simp add: set_cell_def) (auto simp: hgt_def node_set_cell)

lemma level_local_raise:
  assumes "slhead T = 0" "0 < length (heap T)" "i < hgt T 0"
  shows "level_local T raise_head i (\<lambda>cs a. if a = 0 then (cs 0)\<lparr>span := slen T\<rparr> else cs a)"
  using assms by (intro level_localI) (auto simp: raise_head_def cell_set_cell)

lemma level_local_link:
  assumes "ur ! i = (u, ri)" "snd (ur ! 0) = r0" "u \<noteq> x" "u < length (heap T)" "x < length (heap T)"
    "i < hgt T u" "i < hgt T x"
  shows "level_local T (link_level ur x) i
    (\<lambda>cs a. if a = u then \<lparr>forward = Some x, span = (r0 - ri) + 1\<rparr>
            else if a = x then \<lparr>forward = forward (cs u), span = span (cs u) - (r0 - ri)\<rparr> else cs a)"
  using assms by (intro level_localI) (auto simp: link_level_def cell_set_cell Let_def)

lemma level_local_bump:
  assumes "fst (ur ! i) = u" "u < length (heap T)" "i < hgt T u"
  shows "level_local T (bump_span ur d) i
    (\<lambda>cs a. if a = u then (cs u)\<lparr>span := span (cs u) + d\<rparr> else cs a)"
  using assms by (intro level_localI) (auto simp: bump_span_def cell_set_cell Let_def)

lemma level_local_unlink:
  assumes "fst (ur ! i) = u" "u < length (heap T)" "i < hgt T u"
  shows "level_local T (unlink_level ur x) i
    (\<lambda>cs a. if a = u then
              (if forward (cs u) = Some x
               then \<lparr>forward = forward (cs x), span = span (cs u) + (span (cs x) - 1)\<rparr>
               else (cs u)\<lparr>span := span (cs u) - 1\<rparr>)
            else cs a)"
  using assms by (intro level_localI) (auto simp: unlink_level_def cell_set_cell Let_def)

lemma raise_levels_props:
  assumes "chain_ok sl ns" "lvl \<le> slMaxLevel"
  defines "S \<equiv> raise_levels lvl sl" and "L \<equiv> max (sllevel sl) lvl"
  shows "shape S = shape (sl\<lparr>sllevel := L\<rparr>)"
    and "cell S a i = (if a = 0 \<and> sllevel sl \<le> i \<and> i < L then (cell sl 0 i)\<lparr>span := slen sl\<rparr> else cell sl a i)"
proof -
  let ?F = "\<lambda>i cs a. if a = 0 then (cs 0)\<lparr>span := slen sl\<rparr> else (cs a :: slLevel)"
  let ?R = "fold raise_head [sllevel sl..<lvl] sl"
  have f: "shape ?R = shape sl \<and>
     (\<forall>a j. cell ?R a j = (if j \<in> set [sllevel sl..<lvl] then ?F j (\<lambda>b. cell sl b j) a else cell sl a j))"
    using assms(1,2)
    by (intro fold_level_local level_local_raise) (auto simp: chain_ok_def)
  have u: "shape (T\<lparr>sllevel := v\<rparr>) = (case shape T of (ms, hd', tl', n, l) \<Rightarrow> (ms, hd', tl', n, v))" for T v
    by (simp add: shape_def)
  have c: "cell (T\<lparr>sllevel := v\<rparr>) a i = cell T a i" for T v a i
    by (simp add: cell_def node_def)
  show "shape S = shape (sl\<lparr>sllevel := L\<rparr>)"
  proof (cases "sllevel sl < lvl")
    case True
    with f show ?thesis by (simp add: S_def L_def raise_levels_def u max_def)
  next
    case False
    then show ?thesis by (simp add: S_def L_def raise_levels_def max_def)
  qed
  show "cell S a i = (if a = 0 \<and> sllevel sl \<le> i \<and> i < L then (cell sl 0 i)\<lparr>span := slen sl\<rparr> else cell sl a i)"
    using f by (auto simp: S_def L_def raise_levels_def c max_def)
qed

lemma shape_chain_ok:
  assumes "chain_ok sl ns" "shape S = shape (sl\<lparr>sllevel := L\<rparr>)"
    and "sllevel sl \<le> L" "L \<le> slMaxLevel" "\<And>i. forward (cell S 0 i) = forward (cell sl 0 i)"
  shows "chain_ok S ns"
proof -
  have n: "node (sl\<lparr>sllevel := L\<rparr>) a = node sl a" for a by (simp add: node_def)
  have h: "hgt (sl\<lparr>sllevel := L\<rparr>) a = hgt sl a" for a by (simp add: hgt_def n)
  note d = shapeD [OF assms(2), unfolded h n, simplified]
  show ?thesis using assms(1,3-5) d by (auto simp: chain_ok_def)
qed

lemma raise_levels_ok:
  assumes "chain_ok sl ns" "cells_ok sl ns (sllevel sl)" "lvl \<le> slMaxLevel"
  defines "S \<equiv> raise_levels lvl sl" and "L \<equiv> max (sllevel sl) lvl"
  shows "chain_ok S ns" "cells_ok S ns L" "sllevel S = L"
proof -
  note r = raise_levels_props [OF assms(1,3), folded S_def L_def]
  have L: "sllevel sl \<le> L" "L \<le> slMaxLevel" using assms(1,3) by (auto simp: L_def chain_ok_def)
  have h: "hgt S (addr ns q) = hgt sl (addr ns q)" if "q \<le> length ns" for q
    using shapeD(9) [OF r(1)] addr_bound [OF assms(1) that] by (simp add: hgt_def node_def)
  show "chain_ok S ns"
    by (rule shape_chain_ok [OF assms(1) r(1) L]) (simp add: r(2))
  show "sllevel S = L" using shapeD(5) [OF r(1)] by simp
  show "cells_ok S ns L"
    unfolding cells_ok_def
  proof (intro allI impI)
    fix p i assume p: "p \<le> length ns" and i: "i < L" "i < hgt S (addr ns p)"
    show "cell_ok (\<lambda>q. hgt S (addr ns q)) (addr ns) (length ns) i p (cell S (addr ns p) i)"
    proof (cases "i < sllevel sl")
      case True
      then have "cell_ok (\<lambda>q. hgt sl (addr ns q)) (addr ns) (length ns) i p (cell S (addr ns p) i)"
        using assms(2) i p h by (auto simp: cells_ok_def r(2))
      then show ?thesis
        using cell_ok_cong [of "length ns" "\<lambda>q. hgt sl (addr ns q)" "\<lambda>q. hgt S (addr ns q)"] h by auto
    next
      case False
      have low: "hgt S (addr ns q) \<le> sllevel sl" if "0 < q" "q \<le> length ns" for q
        using assms(1) that h [OF that(2)] by (cases q) (auto simp: chain_ok_def)
      with False i p have "p = 0" by (metis le_trans linorder_not_le not_gr_zero)
      moreover have "hgt S (addr ns q) \<le> i" if "0 < q" "q \<le> length ns" for q
        using low [OF that] False by simp
      ultimately show ?thesis using assms(1) False i L
        by (intro cell_okI_None) (auto simp: r(2) chain_ok_def)
    qed
  qed
qed

lemma new_node_props:
  fixes sl :: skipList and lvl :: nat and m :: bytes and s :: float64
  defines "S \<equiv> new_node lvl m s sl"
  shows "a < length (heap sl) \<Longrightarrow> node S a = node sl a"
    and "node S (length (heap sl)) = \<lparr>nmember = m, nscore = s,
             nexts = replicate lvl \<lparr>forward = None, span = 0\<rparr>, nprev = None\<rparr>"
    and "length (heap S) = Suc (length (heap sl))"
    and "slhead S = slhead sl" "sltail S = sltail sl" "slen S = slen sl" "sllevel S = sllevel sl"
  by (simp_all add: S_def new_node_def node_def nth_append)

text \<open>The cells after the splice_levels of a node \<open>x\<close> with \<open>lvl\<close> levels after the predecessors.\<close>

lemma splice_props:
  assumes preds: "\<And>i. i < sllevel T \<Longrightarrow> fst (ur ! i) < x \<and> i < hgt T (fst (ur ! i))"
    and x: "x < length (heap T)" "hgt T x = lvl" and lvl: "lvl \<le> sllevel T"
  shows "shape (splice_levels ur x lvl T) = shape T"
    and "cell (splice_levels ur x lvl T) a i =
      (let u = fst (ur ! i); ri = snd (ur ! i); r0 = snd (ur ! 0); c = cell T u i in
       if i < lvl then
         (if a = u then \<lparr>forward = Some x, span = (r0 - ri) + 1\<rparr>
          else if a = x then \<lparr>forward = forward c, span = span c - (r0 - ri)\<rparr> else cell T a i)
       else if i < sllevel T \<and> a = u then c\<lparr>span := span c + 1\<rparr> else cell T a i)"
proof -
  let ?F = "\<lambda>i cs a. if a = fst (ur ! i) then \<lparr>forward = Some x, span = (snd (ur ! 0) - snd (ur ! i)) + 1\<rparr>
     else if a = x then \<lparr>forward = forward (cs (fst (ur ! i))),
        span = span (cs (fst (ur ! i))) - (snd (ur ! 0) - snd (ur ! i))\<rparr> else cs a"
  let ?G = "\<lambda>i cs a. if a = fst (ur ! i)
     then (cs (fst (ur ! i)))\<lparr>span := span (cs (fst (ur ! i))) + 1\<rparr> else (cs a :: slLevel)"
  let ?A = "fold (link_level ur x) [0..<lvl] T"
  have A: "shape ?A = shape T \<and>
     (\<forall>a j. cell ?A a j = (if j \<in> set [0..<lvl] then ?F j (\<lambda>b. cell T b j) a else cell T a j))"
  proof (intro fold_level_local level_local_link)
    fix i assume "i \<in> set [0..<lvl]"
    then have "i < sllevel T" "i < lvl" using lvl by auto
    then show "fst (ur ! i) \<noteq> x" "fst (ur ! i) < length (heap T)" "i < hgt T (fst (ur ! i))" "i < hgt T x"
      using preds [of i] x by auto
  qed (use x in auto)
  have B: "shape (fold (bump_span ur 1) [lvl..<sllevel T] ?A) = shape T \<and>
     (\<forall>a j. cell (fold (bump_span ur 1) [lvl..<sllevel T] ?A) a j =
        (if j \<in> set [lvl..<sllevel T] then ?G j (\<lambda>b. cell ?A b j) a else cell ?A a j))"
  proof (intro fold_level_local level_local_bump)
    fix i assume "i \<in> set [lvl..<sllevel T]"
    then show "fst (ur ! i) < length (heap T)" "i < hgt T (fst (ur ! i))"
      using preds [of i] x by auto
  qed (use A in auto)
  show "shape (splice_levels ur x lvl T) = shape T" using B by (simp add: splice_levels_def)
  show "cell (splice_levels ur x lvl T) a i =
      (let u = fst (ur ! i); ri = snd (ur ! i); r0 = snd (ur ! 0); c = cell T u i in
       if i < lvl then
         (if a = u then \<lparr>forward = Some x, span = (r0 - ri) + 1\<rparr>
          else if a = x then \<lparr>forward = forward c, span = span c - (r0 - ri)\<rparr> else cell T a i)
       else if i < sllevel T \<and> a = u then c\<lparr>span := span c + 1\<rparr> else cell T a i)"
    using A B by (auto simp: splice_levels_def Let_def)
qed

lemma addr_ins:
  assumes "k \<le> length ns" "p \<le> Suc (length ns)"
  shows "addr (take k ns @ x # drop k ns) p = ins_at k x (addr ns) p"
proof (cases p)
  case (Suc j)
  with assms show ?thesis
    by (cases "j < k"; cases "j = k") (auto simp: ins_at_def nth_append min_def nth_Cons' addr_def)
qed (simp add: ins_at_def)

lemma insert_cells:
  fixes m :: bytes and s :: float64
  assumes S: "chain_ok S ns" "cells_ok S ns (sllevel S)"
    and k: "k \<le> length ns" and ur: "length ur = sllevel S" "preds_ok S ns k ur"
    and lvl: "lvl \<le> sllevel S" "0 < lvl"
  defines "x \<equiv> length (heap S)"
  defines "T \<equiv> new_node lvl m s S"
  defines "U \<equiv> splice_levels ur x lvl T"
  shows "shape U = shape T" "cells_ok U (take k ns @ x # drop k ns) (sllevel S)"
    and "sllevel S \<le> i \<Longrightarrow> cell U 0 i = cell S 0 i"
    and "forward (cell U x 0) = (if k < length ns then Some (ns ! k) else None)"
proof -
  let ?h = "\<lambda>q. hgt S (addr ns q)" and ?n = "length ns"
  let ?ns = "take k ns @ x # drop k ns"
  note nn = new_node_props [where sl = S and lvl = lvl and m = m and s = s, folded T_def x_def]
  have b: "addr ns q < x" if "q \<le> ?n" for q using addr_bound [OF S(1) that] by (simp add: x_def)
  have hT: "hgt T (addr ns q) = ?h q" if "q \<le> ?n" for q using nn(1) [OF b [OF that]] by (simp add: hgt_def)
  have cT: "cell T (addr ns q) i = cell S (addr ns q) i" if "q \<le> ?n" for q i
    using nn(1) [OF b [OF that]] by (simp add: cell_def)
  have hx: "hgt T x = lvl" by (simp add: hgt_def nn(2))
  have P: "\<exists>P. ur ! i = (addr ns P, int P) \<and> is_last ?h i k P \<and> P \<le> ?n" if "i < sllevel S" for i
    using ur that k unfolding preds_ok_def is_last_def by (metis le_trans)
  have r0: "snd (ur ! 0) = int k" using preds_zero [OF S(1) ur(2) _ k] ur(1) lvl by simp
  have pr: "fst (ur ! i) < x \<and> i < hgt T (fst (ur ! i))" if "i < sllevel T" for i
    using P [of i] that b hT nn(7) by (auto simp: is_last_def)
  note sp = splice_props [OF pr _ hx, folded U_def]
  show U: "shape U = shape T" using sp(1) nn(3,7) lvl by simp
  have cU: "cell U a i =
      (let u = fst (ur ! i); ri = snd (ur ! i); c = cell T u i in
       if i < lvl then
         (if a = u then \<lparr>forward = Some x, span = (int k - ri) + 1\<rparr>
          else if a = x then \<lparr>forward = forward c, span = span c - (int k - ri)\<rparr> else cell T a i)
       else if i < sllevel S \<and> a = u then c\<lparr>span := span c + 1\<rparr> else cell T a i)" for a i
    using sp(2) [of a i] nn(3,7) lvl r0 by (simp add: Let_def)
  show "sllevel S \<le> i \<Longrightarrow> cell U 0 i = cell S 0 i"
    using lvl cT [of 0 i] by (simp add: cU Let_def)
  show "forward (cell U x 0) = (if k < length ns then Some (ns ! k) else None)"
    using preds_zero [OF S(1) ur(2) _ k] forward0 [OF S _ k] ur(1) lvl b [OF k] cT [OF k]
    by (simp add: cU Let_def)
  have hU: "hgt U (addr ?ns q) = ins_at k lvl ?h q" if "q \<le> Suc ?n" for q
  proof -
    have "addr ?ns q < length (heap T)" "hgt T (addr ?ns q) = ins_at k lvl ?h q"
      using that k b [of q] b [of "q - 1"] hT [of q] hT [of "q - 1"] hx nn(3)
      by (auto simp: addr_ins ins_at_def intro: less_SucI)
    then show ?thesis using shapeD(9) [OF U] by simp
  qed
  show "cells_ok U ?ns (sllevel S)"
    unfolding cells_ok_def
  proof (intro allI impI)
    fix p i assume p: "p \<le> length ?ns" and i: "i < sllevel S" "i < hgt U (addr ?ns p)"
    have p': "p \<le> Suc ?n" using p k by simp
    obtain P where P: "ur ! i = (addr ns P, int P)" "is_last ?h i k P" "P \<le> ?n" using P [OF i(1)] by blast
    have c: "cell_ok ?h (addr ns) ?n i q (cell S (addr ns q) i)" if "q \<le> ?n" "i < ?h q" for q
      using S(2) that i(1) by (simp add: cells_ok_def)
    have cP: "cell_ok ?h (addr ns) ?n i P (cell S (addr ns P) i)" using c P by (simp add: is_last_def)
    have h: "i < ins_at k lvl ?h p" using i(2) hU [OF p'] by simp
    have inj: "addr ns q = addr ns r \<longleftrightarrow> q = r" if "q \<le> ?n" "r \<le> ?n" for q r
      using addr_inj [of ns q r] S(1) that by (simp add: chain_ok_def)
    have neq: "addr ns q \<noteq> x" if "q \<le> ?n" for q using b [OF that] by simp
    have "cell_ok (ins_at k lvl ?h) (ins_at k x (addr ns)) (Suc ?n) i p (cell U (ins_at k x (addr ns) p) i)"
    proof (cases "p \<le> k")
      case True
      with k have pn: "p \<le> ?n" by simp
      have ip: "i < ?h p" using h True by (simp add: ins_at_def)
      show ?thesis
      proof (cases "p = P")
        case eq: True
        show ?thesis
        proof (cases "i < lvl")
          case True
          with eq \<open>p \<le> k\<close> P show ?thesis using cell_ins_pred [OF P(2) True k]
            by (simp add: cU Let_def ins_at_def [of k x])
        next
          case False
          with eq \<open>p \<le> k\<close> P i show ?thesis using cell_ins_under [OF cP P(2) _ k, of lvl x] cT [OF P(3)]
            by (simp add: cU Let_def ins_at_def [of k x])
        qed
      next
        case False
        then have "p < P" using P(2) True ip by (auto simp: is_last_def) (meson linorder_not_le linorder_neqE_nat)
        then show ?thesis using cell_ins_left [OF c [OF pn ip], of P k lvl x] P(2) k True cT [OF pn]
            inj [OF pn P(3)] neq [OF pn] P(1) False
          by (simp add: cU Let_def ins_at_def [of k x] is_last_def)
      qed
    next
      case False
      show ?thesis
      proof (cases "p = Suc k")
        case True
        with h have "i < lvl" by (simp add: ins_at_def)
        with True P i show ?thesis using cell_ins_new [OF cP P(2) k, of lvl x] cT [OF P(3)] neq [OF P(3)]
          by (simp add: cU Let_def ins_at_def [of k x])
      next
        case neqk: False
        then have pn: "p - 1 \<le> ?n" and ip: "i < ?h (p - 1)" and kp: "k < p - 1"
          using False p' h by (auto simp: ins_at_def)
        have "P \<noteq> p - 1" using P(2) kp by (auto simp: is_last_def)
        then show ?thesis using cell_ins_right [OF c [OF pn ip] kp, of lvl x] False neqk cT [OF pn]
            inj [OF pn P(3)] neq [OF pn] P(1)
          by (simp add: cU Let_def ins_at_def [of k x])
      qed
    qed
    moreover have "cell_ok (\<lambda>q. hgt U (addr ?ns q)) (addr ?ns) (Suc ?n) i p c =
        cell_ok (ins_at k lvl ?h) (ins_at k x (addr ns)) (Suc ?n) i p c" for c
      by (rule cell_ok_cong [OF hU addr_ins [OF k]])
    ultimately show "cell_ok (\<lambda>q. hgt U (addr ?ns q)) (addr ?ns) (length ?ns) i p (cell U (addr ?ns p) i)"
      using k p' by (simp add: addr_ins)
  qed
qed

lemma link_prev_props:
  fixes U :: skipList and u0 x :: nat
  defines "V \<equiv> link_prev u0 x U" and "f \<equiv> forward (cell U x 0)"
  assumes "x < length (heap U)" "\<forall>y. f = Some y \<longrightarrow> y < length (heap U)"
  shows "cell V a i = cell U a i" "hgt V a = hgt U a"
    and "nmember (node V a) = nmember (node U a)" "nscore (node V a) = nscore (node U a)"
    and "length (heap V) = length (heap U)" "slhead V = slhead U" "slen V = slen U" "sllevel V = sllevel U"
    and "sltail V = (if f = None then Some x else sltail U)"
    and "nprev (node V a) = (if f = Some a then Some x
           else if a = x \<and> u0 \<noteq> slhead U then Some u0 else nprev (node U a))"
proof -
  have t: "node (W\<lparr>sltail := q\<rparr>) b = node W b" "cell (W\<lparr>sltail := q\<rparr>) b j = cell W b j"
    "hgt (W\<lparr>sltail := q\<rparr>) b = hgt W b" for W q b j
    by (simp_all add: node_def cell_def hgt_def)
  show "cell V a i = cell U a i" "hgt V a = hgt U a"
    and "nmember (node V a) = nmember (node U a)" "nscore (node V a) = nscore (node U a)"
    and "length (heap V) = length (heap U)" "slhead V = slhead U" "slen V = slen U" "sllevel V = sllevel U"
    and "sltail V = (if f = None then Some x else sltail U)"
    by (auto simp: V_def f_def link_prev_def Let_def t split: option.split)
  show "nprev (node V a) = (if f = Some a then Some x
           else if a = x \<and> u0 \<noteq> slhead U then Some u0 else nprev (node U a))"
    using assms(3,4) by (auto simp: V_def f_def link_prev_def Let_def t prev_set_prev split: option.split)
qed

lemma nth_ins:
  "k \<le> length ns \<Longrightarrow> j \<le> length ns \<Longrightarrow>
   (take k ns @ x # drop k ns) ! j = (if j < k then ns ! j else if j = k then x else ns ! (j - 1))"
  by (auto simp: nth_append nth_Cons')

lemma distinct_nth_eq: "distinct xs \<Longrightarrow> i < length xs \<Longrightarrow> j < length xs \<Longrightarrow> xs ! i = xs ! j \<longleftrightarrow> i = j"
  by (rule nth_eq_iff_index_eq)

lemma ends_ok_insert:
  assumes "ends_ok S ns" "distinct ns" "x \<notin> set ns" "k \<le> length ns"
    and "\<And>a. a \<in> set ns \<Longrightarrow> nprev (node V a) = (if k < length ns \<and> a = ns ! k then Some x else nprev (node S a))"
    and "nprev (node V x) = (if k = 0 then None else Some (ns ! (k - 1)))"
    and "sltail V = (if k < length ns then sltail S else Some x)"
  shows "ends_ok V (take k ns @ x # drop k ns)"
  unfolding ends_ok_def
proof (intro conjI allI impI)
  show "sltail V = (if take k ns @ x # drop k ns = [] then None else Some (last (take k ns @ x # drop k ns)))"
    using assms(1,4,7) by (auto simp: ends_ok_def)
next
  fix j assume j: "j < length (take k ns @ x # drop k ns)"
  let ?ns = "take k ns @ x # drop k ns"
  have p: "nprev (node S (ns ! i)) = (if i = 0 then None else Some (ns ! (i - 1)))" if "i < length ns" for i
    using assms(1) that by (simp add: ends_ok_def)
  have v: "nprev (node V (ns ! i)) = (if i = k then Some x else nprev (node S (ns ! i)))" if "i < length ns" for i
    using assms(5) [of "ns ! i"] that assms(2) by (auto simp: distinct_nth_eq)
  from j assms(4) have "j \<le> length ns" by simp
  then show "nprev (node V (?ns ! j)) = (if j = 0 then None else Some (?ns ! (j - 1)))"
    using assms(4,6) p [of j] p [of "j - 1"] v [of j] v [of "j - 1"]
    by (cases "j < k"; cases "j = k") (auto simp: nth_ins)
qed

lemma chain_ok_insert:
  assumes "chain_ok S ns" "k \<le> length ns" "\<forall>a \<in> set (0 # ns). a < x"
    and "slhead V = 0" "length (heap V) = Suc x" "slen V = slen S + 1" "sllevel V = sllevel S"
    and "\<forall>a \<in> set (0 # ns). hgt V a = hgt S a" "1 \<le> hgt V x" "hgt V x \<le> sllevel S"
    and "\<forall>i \<ge> sllevel S. forward (cell V 0 i) = forward (cell S 0 i)"
  shows "chain_ok V (take k ns @ x # drop k ns)"
proof -
  let ?ns = "take k ns @ x # drop k ns"
  have sub: "set ?ns \<subseteq> insert x (set ns)" by (auto dest: in_set_takeD in_set_dropD)
  have "distinct (0 # ?ns)"
    using assms(1,3) by (auto simp: chain_ok_def dest: in_set_takeD in_set_dropD set_take_disj_set_drop_if_distinct)
  moreover have "\<forall>a \<in> set (0 # ?ns). a < length (heap V)"
    using sub assms(3,5) by (auto intro: less_SucI)
  moreover have "\<forall>a \<in> set ?ns. 1 \<le> hgt V a \<and> hgt V a \<le> sllevel V"
    using sub assms(1,7-10) by (auto simp: chain_ok_def)
  ultimately show ?thesis
    using assms unfolding chain_ok_def by simp
qed

lemma cells_ok_same:
  assumes "\<And>a. hgt V a = hgt U a" "\<And>a i. cell V a i = cell U a i"
  shows "cells_ok V ns L \<longleftrightarrow> cells_ok U ns L"
  by (simp add: cells_ok_def assms)

lemma order_ok_insert:
  assumes "order_ok sl ns" "\<not> IsNaN s" "(f64_key s, m) \<notin> nkey sl ` set ns"
    and "\<And>a. a \<in> set ns \<Longrightarrow> nmember (node V a) = nmember (node sl a) \<and> nscore (node V a) = nscore (node sl a)"
    and "nmember (node V x) = m" "nscore (node V x) = s"
  defines "k \<equiv> split_pos sl ns (\<lambda>t. t < (f64_key s, m))"
  shows "order_ok V (take k ns @ x # drop k ns)"
proof -
  have key: "nkey V a = nkey sl a" if "a \<in> set ns" for a using assms(4) [OF that] by (simp add: nkey_def)
  have kx: "nkey V x = (f64_key s, m)" using assms(5,6) by (simp add: nkey_def)
  have iff: "nkey sl (ns ! j) < (f64_key s, m) \<longleftrightarrow> j < k" if "j < length ns" for j
    unfolding k_def by (rule split_pos_iff [OF assms(1) _ that]) auto
  have l: "nkey V a < nkey V x" if a: "a \<in> set (take k ns)" for a
  proof -
    obtain j where j: "j < k" "j < length ns" "a = ns ! j" using a by (auto simp: in_set_conv_nth)
    with iff [of j] show ?thesis by (simp add: key kx)
  qed
  have r: "nkey V x < nkey V a" if a: "a \<in> set (drop k ns)" for a
  proof -
    obtain j where j: "j < length ns - k" "a = ns ! (k + j)" using a by (auto simp: in_set_conv_nth)
    then have "k + j < length ns" by simp
    with iff [of "k + j"] j assms(3) have "\<not> nkey sl a < (f64_key s, m)" "nkey sl a \<noteq> (f64_key s, m)"
      by (auto simp: image_iff dest!: bspec [OF _ nth_mem])
    with j show ?thesis using \<open>k + j < length ns\<close> by (simp add: key kx)
  qed
  have "sorted_wrt (<) (map (nkey V) ns)"
    using assms(1) key by (simp add: order_ok_def cong: map_cong)
  then have "sorted_wrt (\<lambda>a b. nkey V a < nkey V b) (take k ns @ drop k ns)"
    by (simp add: sorted_wrt_map)
  then have "sorted_wrt (\<lambda>a b. nkey V a < nkey V b) (take k ns @ x # drop k ns)"
    unfolding sorted_wrt_append using l r by auto
  moreover have "\<not> IsNaN (nscore (node V a))" if "a \<in> set (take k ns @ x # drop k ns)" for a
    using that assms(1,2,4,6) by (auto simp: order_ok_def dest: in_set_takeD in_set_dropD)
  ultimately show ?thesis unfolding order_ok_def sorted_wrt_map by blast
qed

lemma node_upd [simp]:
  "node (sl\<lparr>sllevel := l\<rparr>) a = node sl a" "node (sl\<lparr>drawn := d\<rparr>) a = node sl a"
  "node (sl\<lparr>slen := n\<rparr>) a = node sl a" "node (sl\<lparr>sltail := t\<rparr>) a = node sl a"
  "cell (sl\<lparr>sllevel := l\<rparr>) a i = cell sl a i" "cell (sl\<lparr>drawn := d\<rparr>) a i = cell sl a i"
  "cell (sl\<lparr>slen := n\<rparr>) a i = cell sl a i" "cell (sl\<lparr>sltail := t\<rparr>) a i = cell sl a i"
  "hgt (sl\<lparr>sllevel := l\<rparr>) a = hgt sl a" "hgt (sl\<lparr>drawn := d\<rparr>) a = hgt sl a"
  "hgt (sl\<lparr>slen := n\<rparr>) a = hgt sl a" "hgt (sl\<lparr>sltail := t\<rparr>) a = hgt sl a"
  by (simp_all add: node_def cell_def hgt_def)

lemma preds_ok_extend:
  assumes "chain_ok S ns" "preds_ok S ns k ur" "length ur = l" "l \<le> lvl" "lvl \<le> slMaxLevel"
    and "\<And>a. a \<in> set ns \<Longrightarrow> hgt S a \<le> l" "k \<le> length ns"
  shows "preds_ok S ns k (ur @ replicate (lvl - l) (0, 0))"
  unfolding preds_ok_def
proof (intro allI impI)
  fix i assume i: "i < length (ur @ replicate (lvl - l) (0, 0))"
  show "\<exists>P. (ur @ replicate (lvl - l) (0, 0)) ! i = (addr ns P, int P) \<and>
            is_last (\<lambda>q. hgt S (addr ns q)) i k P"
  proof (cases "i < l")
    case True
    with assms(2,3) show ?thesis by (simp add: preds_ok_def nth_append)
  next
    case False
    have "hgt S (addr ns q) \<le> i" if "0 < q" "q \<le> k" for q
      using that assms(6) [of "addr ns q"] assms(7) False by (cases q) auto
    moreover have "i < hgt S 0" using assms(1,5) i assms(3) False by (simp add: chain_ok_def)
    ultimately show ?thesis using i False assms(3)
      by (intro exI [of _ 0]) (simp add: is_last_def nth_append)
  qed
qed

lemma preds_ok_hgt:
  assumes "\<And>q. q \<le> k \<Longrightarrow> hgt S (addr ns q) = hgt T (addr ns q)"
  shows "preds_ok S ns k ur \<longleftrightarrow> preds_ok T ns k ur"
proof -
  have "is_last (\<lambda>q. hgt S (addr ns q)) i k P \<longleftrightarrow> is_last (\<lambda>q. hgt T (addr ns q)) i k P" for i P
    using assms unfolding is_last_def by (metis (mono_tags))
  then show ?thesis by (simp add: preds_ok_def)
qed

lemma descend_before:
  fixes m :: bytes
  assumes "sl_inv sl ns" "\<not> IsNaN s"
  defines "k \<equiv> split_pos sl ns (\<lambda>t. t < (f64_key s, m))"
    and "ur \<equiv> descend sl (sl_before sl m s) (sllevel sl) (slhead sl) 0"
  shows "length ur = sllevel sl" "preds_ok sl ns k ur" "k \<le> length ns" "ur ! 0 = (addr ns k, int k)"
proof -
  have c: "chain_ok sl ns" and k: "k \<le> length ns" using assms(1) by (simp_all add: sl_inv_def k_def split_pos_le)
  have g: "guard_ok (sl_before sl m s) ns k" unfolding k_def
    using assms(1,2) by (intro guard_before) (simp_all add: sl_inv_def)
  have "length ur = sllevel sl \<and> preds_ok sl ns k ur"
    using descend_preds [OF c _ k g, of "sllevel sl" "sllevel sl" 0] assms(1)
    by (simp add: ur_def sl_inv_def chain_ok_def)
  then show "length ur = sllevel sl" "preds_ok sl ns k ur" "k \<le> length ns" by (simp_all add: k)
  then show "ur ! 0 = (addr ns k, int k)" using c by (intro preds_zero) (auto simp: chain_ok_def)
qed

lemma insert_inv:
  fixes m :: bytes
  assumes inv: "sl_inv sl ns" and s: "\<not> IsNaN s" and new: "(f64_key s, m) \<notin> nkey sl ` set ns"
  defines "k \<equiv> split_pos sl ns (\<lambda>t. t < (f64_key s, m))" and "V \<equiv> insert_sl m s sl"
  obtains x where "sl_inv V (take k ns @ x # drop k ns)"
    "nmember (node V x) = m" "nscore (node V x) = s"
    "\<And>a. a \<in> set ns \<Longrightarrow> nmember (node V a) = nmember (node sl a) \<and> nscore (node V a) = nscore (node sl a)"
proof -
  let ?ur = "descend sl (sl_before sl m s) (sllevel sl) (slhead sl) 0"
  note dp = descend_before [OF inv s, of m, folded k_def]
  obtain lvl sl1 where rl: "randomLevel sl = (lvl, sl1)" by fastforce
  obtain d where sl1: "sl1 = sl\<lparr>drawn := d\<rparr>" using randomLevel_props(3) [OF rl] by blast
  note lvl = randomLevel_props(1,2) [OF rl]
  have n1 [simp]: "node sl1 a = node sl a" "cell sl1 a i = cell sl a i" "hgt sl1 a = hgt sl a"
    "heap sl1 = heap sl" "sllevel sl1 = sllevel sl" "slhead sl1 = slhead sl" "slen sl1 = slen sl" "sltail sl1 = sltail sl" for a i
    by (simp_all add: sl1 node_def cell_def hgt_def)
  have i1: "chain_ok sl1 ns" "cells_ok sl1 ns (sllevel sl1)"
    using inv by (simp_all add: sl_inv_def chain_ok_def cells_ok_def)
  have h0: "slhead sl = 0" using inv by (simp add: sl_inv_def chain_ok_def)
  define S where "S = raise_levels lvl sl1"
  define x where "x = length (heap S)"
  define ur where "ur = ?ur @ replicate (lvl - sllevel sl) (slhead sl, 0)"
  define T where "T = new_node lvl m s S"
  define U where "U = splice_levels ur x lvl T"
  define W where "W = link_prev (fst (ur ! 0)) x U"
  have V: "V = W\<lparr>slen := slen W + 1\<rparr>"
    by (simp add: V_def insert_sl_def rl Let_def W_def U_def T_def ur_def x_def S_def)
  note S = raise_levels_ok [OF i1 lvl(2), folded S_def]
  note Sh = raise_levels_props [OF i1(1) lvl(2), folded S_def]
  have S1: "length (heap S) = length (heap sl)" "slen S = slen sl" "sltail S = sltail sl" "slhead S = 0"
    using shapeD [OF Sh(1)] h0 by simp_all
  have nS: "hgt S a = hgt sl a" "nmember (node S a) = nmember (node sl a)"
    "nscore (node S a) = nscore (node sl a)" "nprev (node S a) = nprev (node sl a)" if "a < length (heap sl)" for a
    using shapeD(6-9) [OF Sh(1), of a] that by simp_all
  have ab: "a < length (heap sl)" if "a \<in> set ns" for a using i1(1) that by (simp add: chain_ok_def)
  have x: "x = length (heap sl)" "x \<notin> set ns" using S1 ab by (auto simp: x_def)
  have hd: "hgt S (addr ns q) = hgt sl (addr ns q)" if "q \<le> k" for q
    using nS(1) addr_bound [OF i1(1), of q] that dp(3) by simp
  have ur: "length ur = sllevel S" "preds_ok S ns k ur"
  proof -
    show "length ur = sllevel S" by (simp add: ur_def dp S)
    have p: "preds_ok S ns k ?ur" using dp(2) preds_ok_hgt [of k S ns sl] hd by blast
    have hl: "\<And>a. a \<in> set ns \<Longrightarrow> hgt S a \<le> sllevel sl" using i1(1) nS(1) ab by (simp add: chain_ok_def)
    show "preds_ok S ns k ur"
    proof (cases "sllevel sl \<le> lvl")
      case True
      from preds_ok_extend [OF S(1) p dp(1) True lvl(2) hl dp(3)] show ?thesis by (simp add: ur_def h0)
    next
      case False
      with p show ?thesis by (simp add: ur_def)
    qed
  qed
  have L: "lvl \<le> sllevel S" "0 < lvl" using S(3) lvl by auto
  have SL: "cells_ok S ns (sllevel S)" using S by simp
  note ic = insert_cells [OF S(1) SL dp(3) ur L, where m = m and s = s, folded x_def T_def, folded U_def]
  note nn = new_node_props [where sl = S and lvl = lvl and m = m and s = s, folded T_def x_def]
  let ?ns = "take k ns @ x # drop k ns"
  have U1: "length (heap U) = Suc x" "slhead U = 0" "sltail U = sltail sl" "slen U = slen sl" "sllevel U = sllevel S"
    using shapeD [OF ic(1)] nn S1 by simp_all
  have nU: "hgt U a = hgt T a" "nmember (node U a) = nmember (node T a)"
    "nscore (node U a) = nscore (node T a)" "nprev (node U a) = nprev (node T a)" if "a \<le> x" for a
    using shapeD(6-9) [OF ic(1), of a] that nn(3) by simp_all
  have nUo: "hgt U a = hgt sl a" "nmember (node U a) = nmember (node sl a)"
    "nscore (node U a) = nscore (node sl a)" "nprev (node U a) = nprev (node sl a)" if "a \<in> set (0 # ns)" for a
  proof -
    have a: "a < length (heap sl)" using that i1(1) by (auto simp: chain_ok_def)
    then have "a < x" "a \<le> x" using x(1) by simp_all
    then show "hgt U a = hgt sl a" "nmember (node U a) = nmember (node sl a)"
      "nscore (node U a) = nscore (node sl a)" "nprev (node U a) = nprev (node sl a)"
      using nU nn(1) nS [OF a] by (simp_all add: hgt_def)
  qed
  have xT: "nmember (node U x) = m" "nscore (node U x) = s" "nprev (node U x) = None" "hgt U x = lvl"
    using nU [of x] nn(2) by (simp_all add: hgt_def)
  have f: "forward (cell U x 0) = (if k < length ns then Some (ns ! k) else None)" by (rule ic(4))
  have fb: "\<forall>y. forward (cell U x 0) = Some y \<longrightarrow> y < length (heap U)"
    using f ab x(1) U1(1) by (auto split: if_splits intro: less_SucI)
  have xb: "x < length (heap U)" using U1 by simp
  note lp = link_prev_props [of x U "fst (ur ! 0)", folded W_def, OF xb fb]
  have [simp]: "node V a = node W a" "cell V a i = cell W a i" "hgt V a = hgt W a"
    "heap V = heap W" "sllevel V = sllevel W" "slhead V = slhead W" "sltail V = sltail W" "slen V = slen W + 1" for a i
    by (simp_all add: V node_def cell_def hgt_def)
  have u0: "fst (ur ! 0) = addr ns k"
    using preds_zero [OF S(1) ur(2) _ dp(3)] ur(1) L by simp
  have ms: "nmember (node V a) = nmember (node sl a) \<and> nscore (node V a) = nscore (node sl a)" if "a \<in> set ns" for a
    using nUo [of a] that by (simp add: lp)
  have "chain_ok V ?ns"
  proof (rule chain_ok_insert [OF S(1) dp(3)])
    show "\<forall>a \<in> set (0 # ns). a < x" using i1(1) x(1) by (auto simp: chain_ok_def)
    show "\<forall>a \<in> set (0 # ns). hgt V a = hgt S a"
      using nUo(1) nS(1) i1(1) by (simp add: lp chain_ok_def)
  qed (use U1 xT lvl L ic(3) S1 in \<open>simp_all add: lp\<close>)
  moreover have "cells_ok V ?ns (sllevel V)"
    using ic(2) cells_ok_same [of V U] by (simp add: lp U1)
  moreover have "ends_ok V ?ns"
  proof (rule ends_ok_insert)
    show "ends_ok sl ns" using inv by (simp add: sl_inv_def)
    show "distinct ns" using i1(1) by (simp add: chain_ok_def)
    show "nprev (node V a) = (if k < length ns \<and> a = ns ! k then Some x else nprev (node sl a))" if "a \<in> set ns" for a
      using that x(2) nUo(4) [of a] by (auto simp: lp f)
    show "nprev (node V x) = (if k = 0 then None else Some (ns ! (k - 1)))"
    proof -
      have "forward (cell U x 0) \<noteq> Some x" using f x(2) nth_mem by auto
      moreover have "addr ns k = 0 \<longleftrightarrow> k = 0"
        using addr_inj [of ns k 0] i1(1) dp(3) by (simp add: chain_ok_def)
      ultimately show ?thesis using xT(3) by (cases k) (simp_all add: lp u0 U1)
    qed
    show "sltail V = (if k < length ns then sltail sl else Some x)" by (simp add: lp f U1)
  qed (use x dp(3) in auto)
  moreover have "order_ok V ?ns"
    unfolding k_def using inv s new ms xT
    by (intro order_ok_insert) (auto simp: sl_inv_def lp)
  ultimately have "sl_inv V ?ns" by (simp add: sl_inv_def)
  then show ?thesis using ms xT by (intro that [of x]) (auto simp: lp)
qed

subsection \<open>delete keeps the invariant\<close>

lemma addr_del:
  "k < length ns \<Longrightarrow> p < length ns \<Longrightarrow> addr (take k ns @ drop (Suc k) ns) p = del_at k (addr ns) p"
  by (cases p) (auto simp: del_at_def nth_append)

lemma nth_del:
  "k < length ns \<Longrightarrow> j < length ns - 1 \<Longrightarrow>
   (take k ns @ drop (Suc k) ns) ! j = (if j < k then ns ! j else ns ! Suc j)"
  by (auto simp: nth_append)

lemma pred_forward:
  assumes "cell_ok h ad n i P c" "is_last h i k P" "k < n" "\<And>q r. q \<le> n \<Longrightarrow> r \<le> n \<Longrightarrow> ad q = ad r \<longleftrightarrow> q = r"
  shows "forward c = Some (ad (Suc k)) \<longleftrightarrow> i < h (Suc k)"
  using assms(1)
proof (cases rule: cell_okE)
  case last
  have "h (Suc k) \<le> i" using assms(2,3) by (intro last(3)) (auto simp: is_last_def)
  with last(1) show ?thesis by simp
next
  case (step q)
  have kq: "k < q" using step(2,4) assms(2) unfolding is_last_def by (meson linorder_not_le)
  show ?thesis
  proof (cases "q = Suc k")
    case False
    then have "h (Suc k) \<le> i" using kq step(5) [of "Suc k"] assms(2) by (auto simp: is_last_def)
    with False step assms(3,4) show ?thesis by auto
  qed (use step in simp)
qed

lemma delete_cells:
  assumes S: "chain_ok S ns" "cells_ok S ns (sllevel S)" and k: "k < length ns"
    and ur: "length ur = sllevel S" "preds_ok S ns k ur"
  defines "U \<equiv> fold (unlink_level ur (ns ! k)) [0..<sllevel S] S"
  shows "shape U = shape S" "cells_ok U (take k ns @ drop (Suc k) ns) (sllevel S)"
    and "sllevel S \<le> i \<Longrightarrow> cell U 0 i = cell S 0 i"
    and "cell U (ns ! k) i = cell S (ns ! k) i"
proof -
  let ?h = "\<lambda>q. hgt S (addr ns q)" and ?x = "ns ! k"
  obtain n where n: "length ns = Suc n" "k \<le> n" using k by (cases "length ns") auto
  let ?ns = "take k ns @ drop (Suc k) ns"
  let ?F = "\<lambda>i cs a. if a = fst (ur ! i) then
              (if forward (cs (fst (ur ! i))) = Some ?x
               then \<lparr>forward = forward (cs ?x), span = span (cs (fst (ur ! i))) + (span (cs ?x) - 1)\<rparr>
               else (cs (fst (ur ! i)))\<lparr>span := span (cs (fst (ur ! i))) - 1\<rparr>)
            else (cs a :: slLevel)"
  have P: "\<exists>P. ur ! i = (addr ns P, int P) \<and> is_last ?h i k P \<and> P \<le> k" if "i < sllevel S" for i
    using ur that unfolding preds_ok_def is_last_def by metis
  have pr: "fst (ur ! i) < length (heap S) \<and> i < hgt S (fst (ur ! i))" if "i < sllevel S" for i
    using P [OF that] addr_bound [OF S(1)] k by (auto simp: is_last_def)
  have U: "shape U = shape S \<and> (\<forall>a i. cell U a i = (if i \<in> set [0..<sllevel S] then ?F i (\<lambda>b. cell S b i) a else cell S a i))"
    unfolding U_def by (intro fold_level_local level_local_unlink) (use pr in auto)
  have cU: "cell U a i = (if i < sllevel S then ?F i (\<lambda>b. cell S b i) a else cell S a i)" for a i
    using U by simp
  show shU: "shape U = shape S" using U by simp
  have inj: "addr ns q = addr ns r \<longleftrightarrow> q = r" if "q \<le> Suc n" "r \<le> Suc n" for q r
    using addr_inj [of ns q r] S(1) that n by (simp add: chain_ok_def)
  have hU: "hgt U (addr ?ns q) = del_at k ?h q" if "q \<le> n" for q
    using that n k addr_bound [OF S(1), of q] addr_bound [OF S(1), of "Suc q"] shapeD(9) [OF shU]
    by (auto simp: addr_del del_at_def)
  show "sllevel S \<le> i \<Longrightarrow> cell U 0 i = cell S 0 i" by (simp add: cU)
  show "cell U (ns ! k) i = cell S (ns ! k) i"
    using P [of i] inj [of "Suc k" _] n by (fastforce simp: cU)
  show "cells_ok U ?ns (sllevel S)"
    unfolding cells_ok_def
  proof (intro allI impI)
    fix p i assume p: "p \<le> length ?ns" and i: "i < sllevel S" "i < hgt U (addr ?ns p)"
    have pn: "p \<le> n" using p n by simp
    obtain P where P: "ur ! i = (addr ns P, int P)" "is_last ?h i k P" "P \<le> k" using P [OF i(1)] by blast
    have c: "cell_ok ?h (addr ns) (Suc n) i q (cell S (addr ns q) i)" if "q \<le> Suc n" "i < ?h q" for q
      using S(2) that i(1) n by (simp add: cells_ok_def)
    have cP: "cell_ok ?h (addr ns) (Suc n) i P (cell S (addr ns P) i)" using c P n by (simp add: is_last_def)
    have fP: "forward (cell S (addr ns P) i) = Some ?x \<longleftrightarrow> i < ?h (Suc k)"
      using pred_forward [OF cP P(2) _ inj] n by simp
    have h: "i < del_at k ?h p" using i(2) hU [OF pn] by simp
    have "cell_ok (del_at k ?h) (del_at k (addr ns)) n i p (cell U (del_at k (addr ns) p) i)"
    proof (cases "p \<le> k")
      case True
      have ip: "i < ?h p" using h True by (simp add: del_at_def)
      show ?thesis
      proof (cases "p = P")
        case eq: True
        show ?thesis
        proof (cases "i < ?h (Suc k)")
          case True
          then show ?thesis using cell_del_pred [OF cP P(2) True n(2) c [of "Suc k"]] eq P fP n i
            by (simp add: cU del_at_def [of k "addr ns"])
        next
          case False
          then show ?thesis using cell_del_under [OF cP P(2) _ n(2)] eq P fP n i
            by (simp add: cU del_at_def [of k "addr ns"])
        qed
      next
        case False
        then have "p < P" using P(2) True ip by (auto simp: is_last_def) (meson linorder_not_le linorder_neqE_nat)
        then show ?thesis using cell_del_left [OF c [of p] _ P(3) _ n(2)] P True ip False inj [of p P] n i
          by (simp add: cU del_at_def [of k "addr ns"] is_last_def)
      qed
    next
      case False
      then have ip: "i < ?h (Suc p)" using h by (simp add: del_at_def)
      then show ?thesis using cell_del_right [OF c [of "Suc p"], of k] False inj [of "Suc p" P] P pn n
        by (simp add: cU del_at_def [of k "addr ns"])
    qed
    moreover have "cell_ok (\<lambda>q. hgt U (addr ?ns q)) (addr ?ns) n i p c =
        cell_ok (del_at k ?h) (del_at k (addr ns)) n i p c" for c
      by (rule cell_ok_cong) (use hU addr_del [OF k] n in simp_all)
    ultimately show "cell_ok (\<lambda>q. hgt U (addr ?ns q)) (addr ?ns) (length ?ns) i p (cell U (addr ?ns p) i)"
      using k pn n by (simp add: addr_del)
  qed
qed

lemma lower_level_props:
  "0 < l \<Longrightarrow> 0 < lower_level sl l \<and> lower_level sl l \<le> l \<and>
   (\<forall>i. lower_level sl l \<le> i \<and> i < l \<longrightarrow> forward (cell sl (slhead sl) i) = None)"
proof (induction l)
  case (Suc l)
  show ?case
  proof (cases "l \<ge> 1 \<and> forward (cell sl (slhead sl) l) = None")
    case True
    with Suc.IH show ?thesis by (auto simp: less_Suc_eq)
  qed auto
qed simp

lemma ends_ok_delete:
  assumes "ends_ok S ns" "distinct ns" "k < length ns"
    and "\<And>a. a \<in> set ns \<Longrightarrow> nprev (node V a) =
       (if Suc k < length ns \<and> a = ns ! Suc k then nprev (node S (ns ! k)) else nprev (node S a))"
    and "sltail V = (if Suc k < length ns then sltail S else nprev (node S (ns ! k)))"
  shows "ends_ok V (take k ns @ drop (Suc k) ns)"
  unfolding ends_ok_def
proof (intro conjI allI impI)
  let ?ns = "take k ns @ drop (Suc k) ns"
  have p: "nprev (node S (ns ! i)) = (if i = 0 then None else Some (ns ! (i - 1)))" if "i < length ns" for i
    using assms(1) that by (simp add: ends_ok_def)
  show "sltail V = (if ?ns = [] then None else Some (last ?ns))"
  proof (cases "Suc k < length ns")
    case True
    with assms(1,5) show ?thesis by (auto simp: ends_ok_def)
  next
    case False
    then have "?ns = take k ns" by simp
    moreover have "take k ns \<noteq> [] \<Longrightarrow> last (take k ns) = ns ! (k - 1)"
      using assms(3) by (subst last_conv_nth) (auto simp: min_def)
    ultimately show ?thesis using False assms(3,5) p [of k] by auto
  qed
  fix j assume "j < length ?ns"
  then have j: "j < length ns - 1" using assms(3) by auto
  have v: "nprev (node V (ns ! i)) = (if i = Suc k then nprev (node S (ns ! k)) else nprev (node S (ns ! i)))"
    if "i < length ns" for i
    using assms(4) [of "ns ! i"] that assms(2) by (auto simp: distinct_nth_eq)
  show "nprev (node V (?ns ! j)) = (if j = 0 then None else Some (?ns ! (j - 1)))"
    using assms(3) j p [of j] p [of k] p [of "Suc j"] v [of j] v [of "Suc j"]
    by (cases "j < k"; cases "j = k") (auto simp: nth_del)
qed

lemma chain_ok_delete:
  assumes "chain_ok S ns" "k < length ns" "slhead V = 0" "length (heap V) = length (heap S)"
    and "slen V = slen S - 1" "1 \<le> sllevel V" "sllevel V \<le> slMaxLevel"
    and "\<forall>a \<in> set (0 # ns). hgt V a = hgt S a"
    and "\<forall>a \<in> set (take k ns @ drop (Suc k) ns). hgt V a \<le> sllevel V"
    and "\<forall>i. sllevel V \<le> i \<and> i < slMaxLevel \<longrightarrow> forward (cell V 0 i) = None"
  shows "chain_ok V (take k ns @ drop (Suc k) ns)"
proof -
  let ?ns = "take k ns @ drop (Suc k) ns"
  have sub: "set ?ns \<subseteq> set ns" by (auto dest: in_set_takeD in_set_dropD)
  have "distinct (take k ns @ drop k ns)" using assms(1) by (simp add: chain_ok_def)
  then have "distinct ?ns" using assms(2) by (simp add: Cons_nth_drop_Suc [symmetric])
  moreover have "0 \<notin> set ?ns" using sub assms(1) by (auto simp: chain_ok_def)
  moreover have "\<forall>a \<in> set (0 # ?ns). a < length (heap V)"
    using sub assms(1,4) by (auto simp: chain_ok_def)
  moreover have "\<forall>a \<in> set ?ns. 1 \<le> hgt V a \<and> hgt V a \<le> sllevel V"
    using sub assms(1,8,9) by (auto simp: chain_ok_def)
  ultimately show ?thesis
    using assms unfolding chain_ok_def by simp
qed

lemma sorted_wrt_cong_keys:
  "(\<And>a. a \<in> set xs \<Longrightarrow> f a = g a) \<Longrightarrow>
   sorted_wrt (\<lambda>a b. f a < (f b :: 'b :: ord)) xs \<longleftrightarrow> sorted_wrt (\<lambda>a b. g a < g b) xs"
  by (induction xs) auto

lemma order_ok_delete:
  assumes "order_ok sl ns" "k < length ns"
    and "\<And>a. a \<in> set ns \<Longrightarrow> nmember (node V a) = nmember (node sl a) \<and> nscore (node V a) = nscore (node sl a)"
  shows "order_ok V (take k ns @ drop (Suc k) ns)"
proof -
  let ?ns = "take k ns @ drop (Suc k) ns"
  have sub: "set ?ns \<subseteq> set ns" by (auto dest: in_set_takeD in_set_dropD)
  have "sorted_wrt (\<lambda>a b. nkey sl a < nkey sl b) (take k ns @ drop k ns)"
    using assms(1) by (simp add: order_ok_def sorted_wrt_map)
  then have "sorted_wrt (\<lambda>a b. nkey sl a < nkey sl b) ?ns"
    using assms(2) by (simp add: Cons_nth_drop_Suc [symmetric] sorted_wrt_append)
  moreover have "nkey V a = nkey sl a" if "a \<in> set ?ns" for a
    using assms(3) sub that by (auto simp: nkey_def)
  ultimately have "sorted_wrt (\<lambda>a b. nkey V a < nkey V b) ?ns"
    by (subst sorted_wrt_cong_keys [where g = "nkey sl"]) auto
  then show ?thesis using sub assms(1,3) unfolding order_ok_def sorted_wrt_map by auto
qed

lemma f64_eq_key: "\<not> IsNaN a \<Longrightarrow> \<not> IsNaN b \<Longrightarrow> f64_eq a b \<longleftrightarrow> f64_key a = f64_key b"
  by (simp add: f64_eq_def)

lemma order_ok_less: "order_ok sl ns \<Longrightarrow> i < j \<Longrightarrow> j < length ns \<Longrightarrow> nkey sl (ns ! i) < nkey sl (ns ! j)"
  by (auto simp: order_ok_def sorted_wrt_iff_nth_less)

lemma find_target:
  fixes m :: bytes
  assumes "order_ok sl ns" "\<not> IsNaN s"
  defines "k \<equiv> split_pos sl ns (\<lambda>t. t < (f64_key s, m))"
  shows "(f64_key s, m) \<in> nkey sl ` set ns \<longleftrightarrow>
     k < length ns \<and> f64_eq (nscore (node sl (ns ! k))) s \<and> nmember (node sl (ns ! k)) = m"
proof -
  have nan: "\<not> IsNaN (nscore (node sl (ns ! k)))" if "k < length ns"
    using assms(1) that by (simp add: order_ok_def)
  have key: "k < length ns \<and> f64_eq (nscore (node sl (ns ! k))) s \<and> nmember (node sl (ns ! k)) = m \<longleftrightarrow>
      k < length ns \<and> nkey sl (ns ! k) = (f64_key s, m)"
    using nan assms(2) by (auto simp: nkey_def f64_eq_key)
  have iff: "nkey sl (ns ! j) < (f64_key s, m) \<longleftrightarrow> j < k" if "j < length ns" for j
    unfolding k_def by (rule split_pos_iff [OF assms(1) _ that]) auto
  have "k < length ns \<and> nkey sl (ns ! k) = (f64_key s, m)" if "(f64_key s, m) \<in> nkey sl ` set ns"
  proof -
    from that obtain j where j: "j < length ns" "nkey sl (ns ! j) = (f64_key s, m)"
      by (auto simp: in_set_conv_nth)
    have "k \<le> j" using iff [OF j(1)] j(2) by (simp add: linorder_not_less)
    moreover have "\<not> k < j"
    proof
      assume "k < j"
      then have "nkey sl (ns ! k) < (f64_key s, m)"
        using order_ok_less [OF assms(1) _ j(1)] j(2) by metis
      with iff [of k] \<open>k < j\<close> j(1) show False by simp
    qed
    ultimately show ?thesis using j by simp
  qed
  with key show ?thesis by (metis image_eqI nth_mem)
qed

text \<open>The state after the unlinking loop and the repair of the back pointers.\<close>

lemma delete_found:
  fixes m :: bytes
  assumes inv: "sl_inv sl ns" and s: "\<not> IsNaN s"
  defines "k \<equiv> split_pos sl ns (\<lambda>t. t < (f64_key s, m))"
  assumes found: "(f64_key s, m) \<in> nkey sl ` set ns"
  obtains V where "delete_sl m s sl = (V, True)" "sl_inv V (take k ns @ drop (Suc k) ns)"
    "\<And>a. a \<in> set ns \<Longrightarrow> nmember (node V a) = nmember (node sl a) \<and> nscore (node V a) = nscore (node sl a)"
proof -
  let ?ns = "take k ns @ drop (Suc k) ns" and ?x = "ns ! k"
  define ur where "ur = descend sl (sl_before sl m s) (sllevel sl) (slhead sl) 0"
  note dp = descend_before [OF inv s, of m, folded k_def ur_def]
  have c: "chain_ok sl ns" "cells_ok sl ns (sllevel sl)" "ends_ok sl ns" "order_ok sl ns"
    using inv by (simp_all add: sl_inv_def)
  have t: "k < length ns" "f64_eq (nscore (node sl ?x)) s" "nmember (node sl ?x) = m"
    using find_target [OF c(4) s, of m, folded k_def] found by auto
  have L: "0 < sllevel sl" "sllevel sl \<le> slMaxLevel" "slhead sl = 0" using c(1) by (auto simp: chain_ok_def)
  have f: "forward (cell sl (fst (ur ! 0)) 0) = Some ?x"
    using forward0 [OF c(1,2) L(1) dp(3)] t(1) dp(4) by simp
  define U where "U = fold (unlink_level ur ?x) [0..<sllevel sl] sl"
  note dc = delete_cells [OF c(1,2) t(1) dp(1,2), folded U_def]
  have fx: "forward (cell U ?x 0) = (if Suc k < length ns then Some (ns ! Suc k) else None)"
    using dc(4) [of 0] forward0 [OF c(1,2) L(1), of "Suc k"] t(1) by simp
  have ab: "a < length (heap sl)" if "a \<in> set (0 # ns)" for a using c(1) that by (auto simp: chain_ok_def)
  have U: "length (heap U) = length (heap sl)" "slhead U = 0" "sltail U = sltail sl" "slen U = slen sl" "sllevel U = sllevel sl"
    using shapeD [OF dc(1)] L by simp_all
  have nU: "hgt U a = hgt sl a" "nmember (node U a) = nmember (node sl a)"
    "nscore (node U a) = nscore (node sl a)" "nprev (node U a) = nprev (node sl a)" if "a \<in> set (0 # ns)" for a
    using shapeD(6-9) [OF dc(1) ab [OF that]] by simp_all
  define W where "W = (case forward (cell U ?x 0) of Some y \<Rightarrow> set_prev y (nprev (node U ?x)) U
     | None \<Rightarrow> U\<lparr>sltail := nprev (node U ?x)\<rparr>)"
  have W: "cell W a i = cell U a i" "hgt W a = hgt U a" "nmember (node W a) = nmember (node U a)"
    "nscore (node W a) = nscore (node U a)" "length (heap W) = length (heap U)" "slhead W = slhead U"
    "slen W = slen U" "sllevel W = sllevel U" for a i
    by (auto simp: W_def split: option.split)
  define V where "V = W\<lparr>sllevel := lower_level W (sllevel W), slen := slen W - 1\<rparr>"
  have del: "delete_sl m s sl = (V, True)"
    using t by (simp add: delete_sl_def ur_def [symmetric] f U_def [symmetric] W_def [symmetric] Let_def V_def)
  have [simp]: "node V a = node W a" "cell V a i = cell W a i" "hgt V a = hgt W a"
    "heap V = heap W" "slhead V = slhead W" "sltail V = sltail W" for a i
    by (simp_all add: V_def node_def cell_def hgt_def)
  have ll: "0 < sllevel V" "sllevel V \<le> sllevel sl"
    "\<And>i. sllevel V \<le> i \<Longrightarrow> i < sllevel sl \<Longrightarrow> forward (cell V 0 i) = None"
    using lower_level_props [of "sllevel W" W] L by (simp_all add: W U V_def)
  have ms: "nmember (node V a) = nmember (node sl a) \<and> nscore (node V a) = nscore (node sl a)" if "a \<in> set ns" for a
    using nU [of a] that by (simp add: W)
  have cV: "cells_ok V ?ns (sllevel sl)"
    using dc(2) cells_ok_same [of V U] by (simp add: W)
  have low: "hgt V (addr ?ns q) \<le> sllevel V" if "0 < q" "q \<le> length ?ns" for q
  proof (cases "sllevel V < sllevel sl")
    case True
    have "hgt V 0 = slMaxLevel" using nU(1) [of 0] c(1) by (simp add: W chain_ok_def)
    with True cV L have "cell_ok (\<lambda>q. hgt V (addr ?ns q)) (addr ?ns) (length ?ns) (sllevel V) 0 (cell V 0 (sllevel V))"
      unfolding cells_ok_def by (metis addr_simps(1) le_trans less_le_trans zero_le)
    with ll(3) [of "sllevel V"] True that show ?thesis by (auto simp: cell_ok_def)
  next
    case False
    have "addr ?ns q \<in> set ns" using that by (cases q) (auto simp: nth_append dest: in_set_takeD in_set_dropD)
    with False ll(2) nU(1) c(1) show ?thesis by (simp add: W chain_ok_def)
  qed
  have "chain_ok V ?ns"
  proof (rule chain_ok_delete [OF c(1) t(1)])
    show "\<forall>a \<in> set (0 # ns). hgt V a = hgt sl a" using nU(1) by (simp add: W)
    show "\<forall>a \<in> set ?ns. hgt V a \<le> sllevel V"
    proof
      fix a assume "a \<in> set ?ns"
      then obtain j where "j < length ?ns" "a = ?ns ! j" by (metis in_set_conv_nth)
      with low [of "Suc j"] show "hgt V a \<le> sllevel V" by simp
    qed
    show "\<forall>i. sllevel V \<le> i \<and> i < slMaxLevel \<longrightarrow> forward (cell V 0 i) = None"
    proof (intro allI impI)
      fix i assume i: "sllevel V \<le> i \<and> i < slMaxLevel"
      show "forward (cell V 0 i) = None"
        using ll(3) [of i] dc(3) [of i] c(1) i by (cases "i < sllevel sl") (simp_all add: W chain_ok_def)
    qed
  qed (use ll L U W in \<open>simp_all add: V_def\<close>)
  moreover have "cells_ok V ?ns (sllevel V)" using cV ll(2) by (auto simp: cells_ok_def)
  moreover have "ends_ok V ?ns"
  proof (rule ends_ok_delete [OF c(3) _ t(1)])
    show "nprev (node V a) = (if Suc k < length ns \<and> a = ns ! Suc k then nprev (node sl ?x) else nprev (node sl a))"
      if "a \<in> set ns" for a
      using that nU(4) [of a] nU(4) [of ?x] t(1) ab [of "ns ! Suc k"] U(1) by (simp add: W_def fx prev_set_prev)
  qed (use c(1) nU(4) [of ?x] t(1) U in \<open>simp_all add: chain_ok_def W_def fx\<close>)
  moreover have "order_ok V ?ns" by (rule order_ok_delete [OF c(4) t(1) ms])
  ultimately show ?thesis using that [OF del] ms by (simp add: sl_inv_def)
qed

lemma delete_absent:
  assumes "sl_inv sl ns" "\<not> IsNaN s" "(f64_key s, m) \<notin> nkey sl ` set ns"
  shows "delete_sl m s sl = (sl, False)"
proof -
  let ?k = "split_pos sl ns (\<lambda>t. t < (f64_key s, m))"
  have c: "chain_ok sl ns" "cells_ok sl ns (sllevel sl)" "order_ok sl ns" "0 < sllevel sl"
    using assms(1) by (auto simp: sl_inv_def chain_ok_def)
  note dp = descend_before [OF assms(1,2), of m]
  show ?thesis
    using forward0 [OF c(1,2,4) dp(3)] dp(4) find_target [OF c(3) assms(2), of m] assms(3)
    by (auto simp: delete_sl_def Let_def)
qed

subsection \<open>The abstraction: the sequence of members and scores\<close>

definition node_item :: "skipList \<Rightarrow> nat \<Rightarrow> bytes \<times> float64" where
  "node_item sl a = (nmember (node sl a), nscore (node sl a))"

definition item_key :: "bytes \<times> float64 \<Rightarrow> int \<times> bytes" where
  "item_key it = (f64_key (snd it), fst it)"

definition sl_items :: "skipList \<Rightarrow> (bytes \<times> float64) list" where
  "sl_items sl = map (node_item sl) (chain_from (length (heap sl)) sl (sl_first sl))"

definition sl_wf :: "skipList \<Rightarrow> bool" where
  "sl_wf sl \<longleftrightarrow> (\<exists>ns. sl_inv sl ns)"

lemma chain_from_eq:
  assumes "chain_ok sl ns" "cells_ok sl ns L" "0 < L"
  shows "p \<le> length ns \<Longrightarrow> length ns - p \<le> fuel \<Longrightarrow>
    chain_from fuel sl (if p < length ns then Some (ns ! p) else None) = drop p ns"
proof (induction fuel arbitrary: p)
  case (Suc fuel)
  show ?case
  proof (cases "p < length ns")
    case True
    with Suc.prems Suc.IH [of "Suc p"] forward0 [OF assms, of "Suc p"]
    show ?thesis by (simp add: Cons_nth_drop_Suc [symmetric])
  qed simp
qed simp

lemma sl_items_inv: "sl_inv sl ns \<Longrightarrow> sl_items sl = map (node_item sl) ns"
proof -
  assume inv: "sl_inv sl ns"
  then have c: "chain_ok sl ns" "cells_ok sl ns (sllevel sl)" "0 < sllevel sl" "slhead sl = 0"
    by (auto simp: sl_inv_def chain_ok_def)
  from chain_fuel [OF c(1)] chain_from_eq [OF c(1-3), of 0 "length (heap sl)"] forward0 [OF c(1-3), of 0] c(4)
  show ?thesis by (simp add: sl_items_def sl_first_def)
qed

lemma item_key_item: "item_key (node_item sl a) = nkey sl a"
  by (simp add: item_key_def node_item_def nkey_def)

lemma sl_items_keys: "sl_inv sl ns \<Longrightarrow> map item_key (sl_items sl) = map (nkey sl) ns"
  by (simp add: sl_items_inv item_key_item)

lemma sl_items_sorted: "sl_wf sl \<Longrightarrow> sorted_wrt (<) (map item_key (sl_items sl))"
  by (auto simp: sl_wf_def sl_items_keys) (simp add: sl_inv_def order_ok_def)

lemma sl_items_not_NaN: "sl_wf sl \<Longrightarrow> it \<in> set (sl_items sl) \<Longrightarrow> \<not> IsNaN (snd it)"
  by (auto simp: sl_wf_def sl_items_inv node_item_def) (simp add: sl_inv_def order_ok_def)

lemma slen_items: "sl_wf sl \<Longrightarrow> slen sl = int (length (sl_items sl))"
  by (auto simp: sl_wf_def sl_items_inv) (simp add: sl_inv_def chain_ok_def)

lemma insort_key_split:
  "insort_key f x xs = takeWhile (\<lambda>y. f y < f x) xs @ x # dropWhile (\<lambda>y. f y < f x) xs"
  by (induction xs) auto

lemma split_pos_items:
  assumes "sl_inv sl ns"
  shows "map (node_item sl) (take (split_pos sl ns Q) ns) = takeWhile (\<lambda>it. Q (item_key it)) (sl_items sl)"
    and "map (node_item sl) (drop (split_pos sl ns Q) ns) = dropWhile (\<lambda>it. Q (item_key it)) (sl_items sl)"
proof -
  have "take (split_pos sl ns Q) ns = takeWhile (\<lambda>a. Q (nkey sl a)) ns"
    by (simp add: split_pos_def takeWhile_eq_take [symmetric])
  moreover have "drop (split_pos sl ns Q) ns = dropWhile (\<lambda>a. Q (nkey sl a)) ns"
    by (simp add: split_pos_def dropWhile_eq_drop)
  ultimately show "map (node_item sl) (take (split_pos sl ns Q) ns) = takeWhile (\<lambda>it. Q (item_key it)) (sl_items sl)"
    "map (node_item sl) (drop (split_pos sl ns Q) ns) = dropWhile (\<lambda>it. Q (item_key it)) (sl_items sl)"
    using assms by (simp_all add: sl_items_inv takeWhile_map dropWhile_map comp_def item_key_item)
qed

lemma item_cong:
  "(\<And>a. a \<in> set ns \<Longrightarrow> nmember (node V a) = nmember (node sl a) \<and> nscore (node V a) = nscore (node sl a)) \<Longrightarrow>
   map (node_item V) ns = map (node_item sl) ns"
  by (simp add: node_item_def)

lemma insert_items:
  assumes "sl_wf sl" "\<not> IsNaN s" "(f64_key s, m) \<notin> item_key ` set (sl_items sl)"
  shows "sl_wf (insert_sl m s sl)"
    and "sl_items (insert_sl m s sl) = insort_key item_key (m, s) (sl_items sl)"
proof -
  obtain ns where inv: "sl_inv sl ns" using assms(1) by (auto simp: sl_wf_def)
  let ?k = "split_pos sl ns (\<lambda>t. t < (f64_key s, m))" and ?V = "insert_sl m s sl"
  have "(f64_key s, m) \<notin> nkey sl ` set ns"
    using assms(3) inv by (simp add: sl_items_inv image_image item_key_item)
  from insert_inv [OF inv assms(2) this] obtain x where
    x: "sl_inv ?V (take ?k ns @ x # drop ?k ns)" "nmember (node ?V x) = m" "nscore (node ?V x) = s"
      "\<And>a. a \<in> set ns \<Longrightarrow> nmember (node ?V a) = nmember (node sl a) \<and> nscore (node ?V a) = nscore (node sl a)"
    by blast
  show "sl_wf ?V" using x(1) by (auto simp: sl_wf_def)
  have "sl_items ?V = map (node_item sl) (take ?k ns) @ (m, s) # map (node_item sl) (drop ?k ns)"
    unfolding sl_items_inv [OF x(1)] using x(2,3)
      item_cong [of "take ?k ns" ?V sl, OF x(4) [OF in_set_takeD]]
      item_cong [of "drop ?k ns" ?V sl, OF x(4) [OF in_set_dropD]]
    by (simp add: node_item_def [of _ x])
  then show "sl_items ?V = insort_key item_key (m, s) (sl_items sl)"
    by (simp add: insort_key_split split_pos_items [OF inv] item_key_def)
qed

lemma filter_neq_mid:
  assumes "distinct (map f (us @ x # vs))"
  shows "filter (\<lambda>y. f y \<noteq> f x) (us @ x # vs) = us @ vs"
proof -
  have "filter (\<lambda>y. f y \<noteq> f x) us = us" "filter (\<lambda>y. f y \<noteq> f x) vs = vs"
    using assms by (auto intro!: filter_True simp: image_iff)
  then show ?thesis by simp
qed

lemma filter_neq_del:
  assumes "distinct (map f xs)" "k < length xs"
  shows "filter (\<lambda>y. f y \<noteq> f (xs ! k)) xs = take k xs @ drop (Suc k) xs"
  using filter_neq_mid [of f "take k xs" "xs ! k" "drop (Suc k) xs"] assms
  by (simp add: id_take_nth_drop [OF assms(2), symmetric])

lemma delete_items:
  assumes "sl_wf sl" "\<not> IsNaN s"
  shows "snd (delete_sl m s sl) \<longleftrightarrow> (f64_key s, m) \<in> item_key ` set (sl_items sl)"
    and "sl_wf (fst (delete_sl m s sl))"
    and "sl_items (fst (delete_sl m s sl)) = filter (\<lambda>it. item_key it \<noteq> (f64_key s, m)) (sl_items sl)"
proof -
  obtain ns where inv: "sl_inv sl ns" using assms(1) by (auto simp: sl_wf_def)
  let ?k = "split_pos sl ns (\<lambda>t. t < (f64_key s, m))"
  have o: "order_ok sl ns" using inv by (simp add: sl_inv_def)
  have keys: "item_key ` set (sl_items sl) = nkey sl ` set ns"
    using inv by (simp add: sl_items_inv image_image item_key_item)
  have "(snd (delete_sl m s sl) \<longleftrightarrow> (f64_key s, m) \<in> item_key ` set (sl_items sl)) \<and>
    sl_wf (fst (delete_sl m s sl)) \<and>
    sl_items (fst (delete_sl m s sl)) = filter (\<lambda>it. item_key it \<noteq> (f64_key s, m)) (sl_items sl)"
  proof (cases "(f64_key s, m) \<in> nkey sl ` set ns")
    case True
    from delete_found [OF inv assms(2) True] obtain V where
      V: "delete_sl m s sl = (V, True)" "sl_inv V (take ?k ns @ drop (Suc ?k) ns)"
        "\<And>a. a \<in> set ns \<Longrightarrow> nmember (node V a) = nmember (node sl a) \<and> nscore (node V a) = nscore (node sl a)"
      by blast
    have k: "?k < length ns" "f64_eq (nscore (node sl (ns ! ?k))) s" "nmember (node sl (ns ! ?k)) = m"
      using find_target [OF o assms(2), of m] True by simp_all
    have "\<not> IsNaN (nscore (node sl (ns ! ?k)))" using o k(1) by (simp add: order_ok_def)
    then have t: "?k < length ns" "nkey sl (ns ! ?k) = (f64_key s, m)"
      using k assms(2) by (simp_all add: nkey_def f64_eq_key)
    have "sl_items V = take ?k (sl_items sl) @ drop (Suc ?k) (sl_items sl)"
      unfolding sl_items_inv [OF V(2)] sl_items_inv [OF inv]
      using item_cong [of "take ?k ns" V sl, OF V(3) [OF in_set_takeD]]
        item_cong [of "drop (Suc ?k) ns" V sl, OF V(3) [OF in_set_dropD]]
      by (simp add: take_map drop_map)
    also have "\<dots> = filter (\<lambda>it. item_key it \<noteq> item_key (sl_items sl ! ?k)) (sl_items sl)"
    proof (rule filter_neq_del [symmetric])
      show "distinct (map item_key (sl_items sl))"
        using sl_items_sorted [OF assms(1)] by (simp only: strict_sorted_iff)
      show "?k < length (sl_items sl)" using t(1) by (simp add: sl_items_inv [OF inv])
    qed
    also have "item_key (sl_items sl ! ?k) = (f64_key s, m)"
      using t by (simp add: sl_items_inv [OF inv] item_key_item)
    finally have "sl_items V = filter (\<lambda>it. item_key it \<noteq> (f64_key s, m)) (sl_items sl)" .
    moreover have "sl_wf V" using V(2) unfolding sl_wf_def by blast
    ultimately show ?thesis using V(1) True keys by simp
  next
    case False
    then have "filter (\<lambda>it. item_key it \<noteq> (f64_key s, m)) (sl_items sl) = sl_items sl"
      unfolding keys [symmetric] by (intro filter_True) (metis image_eqI)
    with delete_absent [OF inv assms(2) False] assms(1) keys False show ?thesis by simp
  qed
  then show "snd (delete_sl m s sl) \<longleftrightarrow> (f64_key s, m) \<in> item_key ` set (sl_items sl)"
    "sl_wf (fst (delete_sl m s sl))"
    "sl_items (fst (delete_sl m s sl)) = filter (\<lambda>it. item_key it \<noteq> (f64_key s, m)) (sl_items sl)"
    by simp_all
qed

lemma newSkipList_wf: "sl_wf (newSkipList rnd)" "sl_items (newSkipList rnd) = []"
proof -
  have "sl_inv (newSkipList rnd) []"
    by (auto simp: sl_inv_def chain_ok_def cells_ok_def ends_ok_def order_ok_def newSkipList_def
        hgt_def node_def cell_def cell_ok_def)
  then show "sl_wf (newSkipList rnd)" "sl_items (newSkipList rnd) = []"
    by (auto simp: sl_wf_def sl_items_inv)
qed

lemma node_by_rank_hit:
  assumes "chain_ok sl ns" "cells_ok sl ns L" "k \<le> length ns"
  shows "0 < i \<Longrightarrow> i \<le> L \<Longrightarrow> p \<le> k \<Longrightarrow> i \<le> hgt sl (addr ns p) \<Longrightarrow>
    node_by_rank_from sl (int k) i (addr ns p) (int p) = Some (addr ns k)"
proof (induction i arbitrary: p)
  case (Suc i)
  obtain P where P: "walk (length (heap sl)) sl (sl_within (int k)) i (addr ns p) (int p) = (addr ns P, int P)"
    "is_last (\<lambda>q. hgt sl (addr ns q)) i k P"
    using walk_level [OF assms(1,2) _ assms(3) guard_within, of i p] Suc.prems by auto
  show ?case
  proof (cases "P = k")
    case True
    with P show ?thesis by simp
  next
    case False
    have "is_last (\<lambda>q. hgt sl (addr ns q)) 0 k k"
      using hgt_pos [OF assms(1,3)] by (simp add: is_last_def)
    with False P(2) have "0 < i" using is_last_unique by (cases "i = 0") auto
    with False P Suc.IH [of P] Suc.prems show ?thesis by (simp add: is_last_def)
  qed
qed simp

lemma node_by_rank_miss:
  assumes "chain_ok sl ns" "cells_ok sl ns L" "k \<le> length ns" "guard_ok (sl_within t) ns k"
    and "\<And>P. P \<le> k \<Longrightarrow> int P \<noteq> t"
  shows "i \<le> L \<Longrightarrow> p \<le> k \<Longrightarrow> i \<le> hgt sl (addr ns p) \<Longrightarrow>
    node_by_rank_from sl t i (addr ns p) (int p) = None"
proof (induction i arbitrary: p)
  case (Suc i)
  obtain P where P: "walk (length (heap sl)) sl (sl_within t) i (addr ns p) (int p) = (addr ns P, int P)"
    "is_last (\<lambda>q. hgt sl (addr ns q)) i k P"
    using walk_level [OF assms(1,2) _ assms(3,4), of i p] Suc.prems by auto
  with assms(5) [of P] Suc.IH [of P] Suc.prems show ?case by (simp add: is_last_def)
qed simp

lemma nodeByRank_items:
  assumes "sl_wf sl"
  shows "0 \<le> r \<Longrightarrow> r < slen sl \<Longrightarrow> \<exists>a. nodeByRank r sl = Some a \<and> node_item sl a = sl_items sl ! nat r"
    and "r = -1 \<Longrightarrow> nodeByRank r sl = Some (slhead sl)"
    and "r < -1 \<or> slen sl \<le> r \<Longrightarrow> nodeByRank r sl = None"
proof -
  obtain ns where inv: "sl_inv sl ns" using assms(1) by (auto simp: sl_wf_def)
  then have c: "chain_ok sl ns" "cells_ok sl ns (sllevel sl)" "0 < sllevel sl" "slhead sl = 0"
    "sllevel sl \<le> hgt sl (addr ns 0)" "slen sl = int (length ns)"
    by (auto simp: sl_inv_def chain_ok_def)
  have hit: "nodeByRank (int k - 1) sl = Some (addr ns k)" if "k \<le> length ns" for k
    using node_by_rank_hit [OF c(1,2) that c(3) order_refl _ c(5)] c(4) by (simp add: nodeByRank_def)
  show "0 \<le> r \<Longrightarrow> r < slen sl \<Longrightarrow> \<exists>a. nodeByRank r sl = Some a \<and> node_item sl a = sl_items sl ! nat r"
    using hit [of "Suc (nat r)"] c(6) inv by (simp add: sl_items_inv Suc_le_eq nat_less_iff)
  show "r = -1 \<Longrightarrow> nodeByRank r sl = Some (slhead sl)" using hit [of 0] c(4) by simp
  show "nodeByRank r sl = None" if "r < -1 \<or> slen sl \<le> r"
    using that
  proof
    assume r: "r < -1"
    then have "guard_ok (sl_within (r + 1)) ns 0" by (simp add: guard_ok_def sl_within_def)
    with r show ?thesis using node_by_rank_miss [OF c(1,2) _ _ _ order_refl _ c(5), of 0 "r + 1"] c(4)
      by (simp add: nodeByRank_def)
  next
    assume r: "slen sl \<le> r"
    then have "guard_ok (sl_within (r + 1)) ns (length ns)" using c(6) by (simp add: guard_ok_def sl_within_def)
    with r show ?thesis
      using node_by_rank_miss [OF c(1,2) _ _ _ order_refl _ c(5), of "length ns" "r + 1"] c(4,6)
      by (simp add: nodeByRank_def)
  qed
qed

lemma rank_from_hit:
  assumes "chain_ok sl ns" "cells_ok sl ns L" "k \<le> length ns" "guard_ok (not_after sl m s) ns k"
    and "0 < k" "nmember (node sl (addr ns k)) = m"
    and "\<And>q. 0 < q \<Longrightarrow> q \<le> length ns \<Longrightarrow> nmember (node sl (addr ns q)) = m \<Longrightarrow> q = k"
  shows "0 < i \<Longrightarrow> i \<le> L \<Longrightarrow> p \<le> k \<Longrightarrow> i \<le> hgt sl (addr ns p) \<Longrightarrow>
    rank_from sl m s i (addr ns p) (int p) = int k - 1"
proof (induction i arbitrary: p)
  case (Suc i)
  obtain P where P: "walk (length (heap sl)) sl (not_after sl m s) i (addr ns p) (int p) = (addr ns P, int P)"
    "is_last (\<lambda>q. hgt sl (addr ns q)) i k P"
    using walk_level [OF assms(1,2) _ assms(3,4), of i p] Suc.prems by auto
  have P0: "addr ns P = slhead sl \<longleftrightarrow> P = 0"
    using addr_inj [of ns P 0] assms(1,3) P(2) by (simp add: chain_ok_def is_last_def)
  show ?case
  proof (cases "P = k")
    case True
    with P P0 assms(5,6) show ?thesis by simp
  next
    case False
    have "is_last (\<lambda>q. hgt sl (addr ns q)) 0 k k"
      using hgt_pos [OF assms(1,3)] by (simp add: is_last_def)
    with False P(2) have "0 < i" using is_last_unique by (cases "i = 0") auto
    moreover have "\<not> (addr ns P \<noteq> slhead sl \<and> nmember (node sl (addr ns P)) = m)"
      using assms(3) assms(7) [of P] False P0 P(2) by (auto simp: is_last_def)
    ultimately show ?thesis using False P Suc.IH [of P] Suc.prems by (simp add: is_last_def)
  qed
qed simp

lemma rank_from_miss:
  assumes "chain_ok sl ns" "cells_ok sl ns L" "k \<le> length ns" "guard_ok (not_after sl m s) ns k"
    and "\<And>a. a \<in> set ns \<Longrightarrow> nmember (node sl a) \<noteq> m"
  shows "i \<le> L \<Longrightarrow> p \<le> k \<Longrightarrow> i \<le> hgt sl (addr ns p) \<Longrightarrow>
    rank_from sl m s i (addr ns p) (int p) = -1"
proof (induction i arbitrary: p)
  case (Suc i)
  obtain P where P: "walk (length (heap sl)) sl (not_after sl m s) i (addr ns p) (int p) = (addr ns P, int P)"
    "is_last (\<lambda>q. hgt sl (addr ns q)) i k P"
    using walk_level [OF assms(1,2) _ assms(3,4), of i p] Suc.prems by auto
  have "\<not> (addr ns P \<noteq> slhead sl \<and> nmember (node sl (addr ns P)) = m)"
    using assms(1,3,5) P(2) by (cases P) (auto simp: chain_ok_def is_last_def)
  with P Suc.IH [of P] Suc.prems show ?case by (auto simp: is_last_def)
qed simp

lemma rank_items:
  assumes "sl_wf sl" "distinct (map fst (sl_items sl))" "\<not> IsNaN s"
  shows "j < length (sl_items sl) \<Longrightarrow> sl_items sl ! j = (m, s) \<Longrightarrow> rank_sl m s sl = int j"
    and "m \<notin> fst ` set (sl_items sl) \<Longrightarrow> rank_sl m s sl = -1"
proof -
  obtain ns where inv: "sl_inv sl ns" using assms(1) by (auto simp: sl_wf_def)
  then have c: "chain_ok sl ns" "cells_ok sl ns (sllevel sl)" "0 < sllevel sl" "slhead sl = 0"
    "sllevel sl \<le> hgt sl (addr ns 0)" "order_ok sl ns"
    by (auto simp: sl_inv_def chain_ok_def)
  let ?k = "split_pos sl ns (\<lambda>t. t \<le> (f64_key s, m))"
  note g = guard_not_after [OF c(6) assms(3), of m]
  show "rank_sl m s sl = int j" if j: "j < length (sl_items sl)" "sl_items sl ! j = (m, s)"
  proof -
    have jn: "j < length ns" "nmember (node sl (ns ! j)) = m" "nscore (node sl (ns ! j)) = s"
      using j inv by (auto simp: sl_items_inv node_item_def)
    have iff: "nkey sl (ns ! i) \<le> (f64_key s, m) \<longleftrightarrow> i < ?k" if "i < length ns" for i
      by (rule split_pos_iff [OF c(6) _ that]) auto
    have key: "nkey sl (ns ! j) = (f64_key s, m)" using jn by (simp add: nkey_def)
    have "j < ?k" using iff [OF jn(1)] key by simp
    moreover have "\<not> Suc j < ?k"
      using iff [of "Suc j"] order_ok_less [OF c(6), of j "Suc j"] key split_pos_le [of sl ns "\<lambda>t. t \<le> (f64_key s, m)"]
      by (metis less_le_trans lessI linorder_not_le)
    ultimately have k: "?k = Suc j" by simp
    have u: "q = Suc j" if "0 < q" "q \<le> length ns" "nmember (node sl (addr ns q)) = m" for q
    proof (cases q)
      case (Suc i)
      then have "map fst (sl_items sl) ! i = map fst (sl_items sl) ! j"
        using that jn inv by (simp add: sl_items_inv node_item_def)
      with assms(2) that Suc jn(1) inv have "i = j"
        by (subst (asm) nth_eq_iff_index_eq) (auto simp: sl_items_inv)
      with Suc show ?thesis by simp
    qed (use that in simp)
    have "rank_from sl m s (sllevel sl) (addr ns 0) (int 0) = int (Suc j) - 1"
      by (rule rank_from_hit [OF c(1,2) _ g [unfolded k]]) (use jn u c in auto)
    then show ?thesis using c(4) by (simp add: rank_sl_def)
  qed
  show "rank_sl m s sl = -1" if "m \<notin> fst ` set (sl_items sl)"
  proof -
    have "\<And>a. a \<in> set ns \<Longrightarrow> nmember (node sl a) \<noteq> m"
      using that inv by (auto simp: sl_items_inv node_item_def image_iff)
    from rank_from_miss [OF c(1,2) split_pos_le g this order_refl _ c(5)] c(4)
    show ?thesis by (simp add: rank_sl_def)
  qed
qed

end
