(* ===== verification/ZSet.thy ===== *)
theory ZSet
  imports SkipList
begin

text \<open>
  The sorted set of \<open>internal/store/zset.go\<close>: a map from members to scores beside a skip list
  ordered by score and member. The interface between the two is the locale \<open>ordered_index\<close>:
  what a sorted set needs of an index is proved once there, and the skip list is shown to
  be one. The invariant \<open>zset_ok\<close> says that both halves hold the same pairs and that the
  byte count is exact; the lemmas show that \<open>add\<close> and \<open>remove\<close> keep it and what they return.
\<close>

subsection \<open>Operations\<close>

abbreviation memMapSlot :: int where "memMapSlot \<equiv> 48"
abbreviation memSkipNode :: int where "memSkipNode \<equiv> 96"

record zset =
  zdict :: "(bytes, float64) gomap"
  zsl :: skipList
  zbytes :: int

definition newZSet :: "(nat \<Rightarrow> bool) \<Rightarrow> zset" where
  "newZSet rnd = \<lparr>zdict = [], zsl = newSkipList rnd, zbytes = 0\<rparr>"

definition memberBytes :: "bytes \<Rightarrow> int" where
  "memberBytes m = memMapSlot + memSkipNode + 2 * int (length m)"

text \<open>The results of \<open>add\<close> are \<open>added\<close> and \<open>changed\<close>.\<close>

definition zset_add :: "bytes \<Rightarrow> float64 \<Rightarrow> zset \<Rightarrow> zset \<times> bool \<times> bool" where
  "zset_add m s z =
     (case map_of (zdict z) m of
        Some old \<Rightarrow>
          if f64_eq old s then (z, False, False)
          else (z\<lparr>zsl := insert_sl m s (fst (delete_sl m old (zsl z))), zdict := gput m s (zdict z)\<rparr>,
                False, True)
      | None \<Rightarrow>
          (\<lparr>zdict = gput m s (zdict z), zsl = insert_sl m s (zsl z), zbytes = zbytes z + memberBytes m\<rparr>,
           True, True))"

definition zset_remove :: "bytes \<Rightarrow> zset \<Rightarrow> zset \<times> bool" where
  "zset_remove m z =
     (case map_of (zdict z) m of
        None \<Rightarrow> (z, False)
      | Some old \<Rightarrow>
          (\<lparr>zdict = gdel m (zdict z), zsl = fst (delete_sl m old (zsl z)), zbytes = zbytes z - memberBytes m\<rparr>,
           True))"

subsection \<open>What a sorted set needs of its index\<close>

locale ordered_index =
  fixes ix_ok :: "'i \<Rightarrow> bool"
    and ix_items :: "'i \<Rightarrow> (bytes \<times> float64) list"
    and ix_insert :: "bytes \<Rightarrow> float64 \<Rightarrow> 'i \<Rightarrow> 'i"
    and ix_delete :: "bytes \<Rightarrow> float64 \<Rightarrow> 'i \<Rightarrow> 'i \<times> bool"
  assumes ix_sorted: "ix_ok i \<Longrightarrow> sorted_wrt (<) (map item_key (ix_items i))"
    and ix_insert_ok: "ix_ok i \<Longrightarrow> \<not> IsNaN s \<Longrightarrow> (f64_key s, m) \<notin> item_key ` set (ix_items i) \<Longrightarrow>
          ix_ok (ix_insert m s i)"
    and ix_insert_items: "ix_ok i \<Longrightarrow> \<not> IsNaN s \<Longrightarrow> (f64_key s, m) \<notin> item_key ` set (ix_items i) \<Longrightarrow>
          mset (ix_items (ix_insert m s i)) = add_mset (m, s) (mset (ix_items i))"
    and ix_delete_ok: "ix_ok i \<Longrightarrow> \<not> IsNaN s \<Longrightarrow> ix_ok (fst (ix_delete m s i))"
    and ix_delete_items: "ix_ok i \<Longrightarrow> \<not> IsNaN s \<Longrightarrow>
          ix_items (fst (ix_delete m s i)) = filter (\<lambda>it. item_key it \<noteq> (f64_key s, m)) (ix_items i)"
begin

text \<open>An index agrees with a map when both hold the same pairs.\<close>

lemma agree_fresh:
  assumes "mset (ix_items i) = mset d" "map_of d m = None"
  shows "(f64_key s, m) \<notin> item_key ` set (ix_items i)"
proof -
  have "set (ix_items i) = set d" using assms(1) by (rule mset_eq_setD)
  with assms(2) show ?thesis by (auto simp: item_key_def map_of_eq_None_iff image_iff)
qed

lemma agree_insert:
  assumes "ix_ok i" "\<not> IsNaN s" "mset (ix_items i) = mset d" "map_of d m = None"
  shows "ix_ok (ix_insert m s i)" "mset (ix_items (ix_insert m s i)) = mset (gput m s d)"
proof -
  note f = agree_fresh [OF assms(3,4), of s]
  show "ix_ok (ix_insert m s i)" by (rule ix_insert_ok [OF assms(1,2) f])
  have "mset (gput m s d) = add_mset (m, s) (mset d)"
    using assms(4) by (induction d) (auto simp: gput_def)
  then show "mset (ix_items (ix_insert m s i)) = mset (gput m s d)"
    using ix_insert_items [OF assms(1,2) f] assms(3) by simp
qed

lemma agree_delete:
  assumes "ix_ok i" "\<not> IsNaN s" "mset (ix_items i) = mset d" "gmap_wf d" "map_of d m = Some s"
  shows "ix_ok (fst (ix_delete m s i))" "mset (ix_items (fst (ix_delete m s i))) = mset (gdel m d)"
proof -
  show "ix_ok (fst (ix_delete m s i))" by (rule ix_delete_ok [OF assms(1,2)])
  have e: "item_key it \<noteq> (f64_key s, m) \<longleftrightarrow> fst it \<noteq> m" if "it \<in> set d" for it
  proof -
    obtain m' s' where it: "it = (m', s')" by (cases it)
    have "map_of d m' = Some s'" using that assms(4) by (simp add: it gmap_wf_lookup)
    with assms(5) show ?thesis by (auto simp: it item_key_def)
  qed
  have "mset (ix_items (fst (ix_delete m s i))) =
      filter_mset (\<lambda>it. item_key it \<noteq> (f64_key s, m)) (mset d)"
    using ix_delete_items [OF assms(1,2), of m] assms(3) by simp
  also have "\<dots> = filter_mset (\<lambda>it. fst it \<noteq> m) (mset d)"
    by (rule filter_mset_cong) (auto simp: e)
  also have "\<dots> = mset (gdel m d)"
    by (simp add: gdel_def AList.delete_eq split_def eq_commute)
  finally show "mset (ix_items (fst (ix_delete m s i))) = mset (gdel m d)" .
qed

text \<open>The index lists the map in the order of its keys.\<close>

lemma agree_sorted:
  assumes "ix_ok i" "mset (ix_items i) = mset d" "gmap_wf d"
  shows "ix_items i = sort_key item_key d"
proof -
  have "inj_on item_key (set d)"
    using assms(3) by (auto simp: inj_on_def item_key_def gmap_wf_lookup)
  moreover have "sorted (map item_key (ix_items i))"
    using ix_sorted [OF assms(1)] by (simp only: strict_sorted_iff)
  ultimately show ?thesis
    using sort_key_inj_key_eq [of d "ix_items i" item_key] assms(2) by simp
qed

end

interpretation slx: ordered_index sl_wf sl_items insert_sl delete_sl
proof unfold_locales
  fix i :: skipList and s m
  show "sl_wf i \<Longrightarrow> sorted_wrt (<) (map item_key (sl_items i))" by (rule sl_items_sorted)
  assume w: "sl_wf i" "\<not> IsNaN s"
  show "(f64_key s, m) \<notin> item_key ` set (sl_items i) \<Longrightarrow> sl_wf (insert_sl m s i)"
    by (rule insert_items(1) [OF w])
  show "(f64_key s, m) \<notin> item_key ` set (sl_items i) \<Longrightarrow>
      mset (sl_items (insert_sl m s i)) = add_mset (m, s) (mset (sl_items i))"
    by (simp add: insert_items(2) [OF w])
  show "sl_wf (fst (delete_sl m s i))" by (rule delete_items(2) [OF w])
  show "sl_items (fst (delete_sl m s i)) = filter (\<lambda>it. item_key it \<noteq> (f64_key s, m)) (sl_items i)"
    by (rule delete_items(3) [OF w])
qed

subsection \<open>The invariant\<close>

definition zset_ok :: "zset \<Rightarrow> bool" where
  "zset_ok z \<longleftrightarrow>
     gmap_wf (zdict z) \<and> sl_wf (zsl z) \<and> mset (sl_items (zsl z)) = mset (zdict z) \<and>
     zbytes z = gsum (\<lambda>m s. memberBytes m) (zdict z)"

lemma zset_not_NaN: "zset_ok z \<Longrightarrow> map_of (zdict z) m = Some s \<Longrightarrow> \<not> IsNaN s"
proof -
  assume z: "zset_ok z" "map_of (zdict z) m = Some s"
  then have "(m, s) \<in> set (sl_items (zsl z))"
    using mset_eq_setD [of "sl_items (zsl z)" "zdict z"] by (auto simp: zset_ok_def dest: map_of_SomeD)
  with z(1) show ?thesis using sl_items_not_NaN [of "zsl z" "(m, s)"] by (simp add: zset_ok_def)
qed

lemma newZSet_ok [simp]: "zset_ok (newZSet rnd)" "zdict (newZSet rnd) = []"
  by (simp_all add: zset_ok_def newZSet_def newSkipList_wf gmap_wf_def)

lemma zset_remove_ok: "zset_ok z \<Longrightarrow> zset_ok (fst (zset_remove m z))"
proof (cases "map_of (zdict z) m")
  case (Some old)
  assume z: "zset_ok z"
  with slx.agree_delete [of "zsl z" old "zdict z" m] zset_not_NaN [OF z Some] Some
  show ?thesis
    by (simp add: zset_remove_def zset_ok_def gsum_gdel gdel_wf gopt_def)
qed (simp add: zset_remove_def)

lemma zset_add_ok:
  assumes "zset_ok z" "\<not> IsNaN s"
  shows "zset_ok (fst (zset_add m s z))"
proof (cases "map_of (zdict z) m")
  case None
  with assms slx.agree_insert [of "zsl z" s "zdict z" m]
  show ?thesis by (simp add: zset_add_def zset_ok_def gsum_gput gput_wf gopt_def)
next
  case (Some old)
  show ?thesis
  proof (cases "f64_eq old s")
    case True
    with Some assms(1) show ?thesis by (simp add: zset_add_def)
  next
    case False
    let ?d = "gdel m (zdict z)"
    note d = slx.agree_delete [of "zsl z" old "zdict z" m]
    have i: "sl_wf (fst (delete_sl m old (zsl z)))"
      "mset (sl_items (fst (delete_sl m old (zsl z)))) = mset ?d" "gmap_wf (zdict z)" "map_of ?d m = None"
      using d assms(1) zset_not_NaN [OF assms(1) Some] Some by (simp_all add: zset_ok_def)
    have "mset (gput m s ?d) = mset (gput m s (zdict z))"
      using i(3) by (intro gmap_mset_eq) simp_all
    with slx.agree_insert [OF i(1) assms(2) i(2,4)] False Some assms(1) i(3)
    show ?thesis by (simp add: zset_add_def zset_ok_def gsum_gput gput_wf gopt_def)
  qed
qed

text \<open>What the operations do to the membership, and what they report.\<close>

lemma zset_add_map:
  "map_of (zdict (fst (zset_add m s z))) =
     (if \<exists>old. map_of (zdict z) m = Some old \<and> f64_eq old s then map_of (zdict z)
      else (map_of (zdict z))(m \<mapsto> s))"
  by (auto simp: zset_add_def split: option.split)

lemma zset_add_result:
  "snd (zset_add m s z) =
     (map_of (zdict z) m = None, \<not> (\<exists>old. map_of (zdict z) m = Some old \<and> f64_eq old s))"
  by (auto simp: zset_add_def split: option.split)

lemma zset_add_nonempty: "zdict (fst (zset_add m s z)) \<noteq> []"
  by (auto simp: zset_add_def split: option.split)

lemma zset_remove_map: "map_of (zdict (fst (zset_remove m z))) = (map_of (zdict z))(m := None)"
  by (auto simp: zset_remove_def split: option.split)

lemma zset_remove_result: "snd (zset_remove m z) \<longleftrightarrow> map_of (zdict z) m \<noteq> None"
  by (auto simp: zset_remove_def split: option.split)

text \<open>The skip list lists the members in the order of their scores, ties by member.\<close>

lemma zset_items: "zset_ok z \<Longrightarrow> sl_items (zsl z) = sort_key item_key (zdict z)"
  by (rule slx.agree_sorted) (simp_all add: zset_ok_def)

lemma zset_len: "zset_ok z \<Longrightarrow> slen (zsl z) = int (length (zdict z))"
  by (simp add: zset_ok_def slen_items) (metis size_mset)

lemma zset_rank:
  assumes "zset_ok z" "map_of (zdict z) m = Some s"
  shows "0 \<le> rank_sl m s (zsl z)" "rank_sl m s (zsl z) < int (length (zdict z))"
    and "sort_key item_key (zdict z) ! nat (rank_sl m s (zsl z)) = (m, s)"
proof -
  let ?it = "sl_items (zsl z)"
  have e: "mset ?it = mset (zdict z)" "sl_wf (zsl z)" "gmap_wf (zdict z)" using assms(1) by (simp_all add: zset_ok_def)
  have "(m, s) \<in> set ?it" using mset_eq_setD [OF e(1)] assms(2) by (auto dest: map_of_SomeD)
  then obtain j where j: "j < length ?it" "?it ! j = (m, s)" by (auto simp: in_set_conv_nth)
  have "mset (map fst ?it) = mset (map fst (zdict z))" using e(1) by simp
  then have "distinct (map fst ?it)" using e(3) unfolding gmap_wf_def by (metis mset_eq_imp_distinct_iff)
  with j e(2) zset_not_NaN [OF assms] have "rank_sl m s (zsl z) = int j" by (intro rank_items(1))
  moreover have "length ?it = length (zdict z)" using e(1) by (metis size_mset)
  ultimately show "0 \<le> rank_sl m s (zsl z)" "rank_sl m s (zsl z) < int (length (zdict z))"
    and "sort_key item_key (zdict z) ! nat (rank_sl m s (zsl z)) = (m, s)"
    using j zset_items [OF assms(1)] by simp_all
qed

end
