(* ===== verification/Strconv.thy ===== *)
theory Strconv
  imports Prelude
begin

text \<open>
  The parts of Go's \<open>strconv\<close> the program relies on: decimal rendering and parsing of
  signed and unsigned 64-bit integers, with the round trip in both directions that the
  integer commands, the protocol headers, the stream ids and the snapshot use.
\<close>

definition digit_char :: "nat \<Rightarrow> char" where
  "digit_char d = char_of (48 + d)"

fun dec :: "nat \<Rightarrow> bytes" where
  "dec n = (if n < 10 then [digit_char n] else dec (n div 10) @ [digit_char (n mod 10)])"

declare dec.simps [simp del]

definition FormatUint :: "nat \<Rightarrow> bytes" where
  "FormatUint n = dec n"

definition FormatInt :: "int \<Rightarrow> bytes" where
  "FormatInt n = (if n < 0 then CHR ''-'' # dec (nat (- n)) else dec (nat n))"

definition is_digit :: "char \<Rightarrow> bool" where
  "is_digit c \<longleftrightarrow> 48 \<le> (of_char c :: nat) \<and> (of_char c :: nat) \<le> 57"

definition digit_val :: "char \<Rightarrow> nat" where
  "digit_val c = of_char c - 48"

text \<open>The accumulation loop of \<open>ParseUint\<close> in base 10; \<^const>\<open>None\<close> is a syntax error.\<close>

fun digits_val :: "nat \<Rightarrow> bytes \<Rightarrow> nat option" where
  "digits_val acc [] = Some acc"
| "digits_val acc (c # cs) =
     (if is_digit c then digits_val (10 * acc + digit_val c) cs else None)"

text \<open>\<^const>\<open>None\<close> stands for both errors, syntax and range: no caller tells them apart.\<close>

definition ParseUint :: "bytes \<Rightarrow> nat option" where
  "ParseUint s =
     (if s = [] then None
      else case digits_val 0 s of
        None \<Rightarrow> None
      | Some n \<Rightarrow> if int n \<le> max_uint64 then Some n else None)"

definition ParseInt :: "bytes \<Rightarrow> int option" where
  "ParseInt s =
     (case s of
        [] \<Rightarrow> None
      | c # cs \<Rightarrow>
          (let neg = (c = CHR ''-'');
               body = (if c = CHR ''-'' \<or> c = CHR ''+'' then cs else s)
           in case ParseUint body of
                None \<Rightarrow> None
              | Some un \<Rightarrow>
                  if \<not> neg \<and> int un > max_int64 then None
                  else if neg \<and> int un > - min_int64 then None
                  else Some (if neg then - int un else int un)))"

subsection \<open>Digits\<close>

lemma of_char_digit_char [simp]: "d < 10 \<Longrightarrow> (of_char (digit_char d) :: nat) = 48 + d"
  by (simp add: digit_char_def)

lemma is_digit_digit_char [simp]: "d < 10 \<Longrightarrow> is_digit (digit_char d)"
  by (simp add: is_digit_def)

lemma digit_val_digit_char [simp]: "d < 10 \<Longrightarrow> digit_val (digit_char d) = d"
  by (simp add: digit_val_def)

lemma not_digit_sign [simp]: "\<not> is_digit (CHR ''-'')" "\<not> is_digit (CHR ''+'')"
  by (simp_all add: is_digit_def)

lemma dec_nonempty [simp]: "dec n \<noteq> []"
  by (subst dec.simps) simp

lemma dec_digits: "\<forall>c \<in> set (dec n). is_digit c"
proof (induction n rule: dec.induct)
  case (1 n)
  then show ?case by (cases "n < 10") (auto simp: dec.simps [of n])
qed

lemma dec_no_sign [simp]: "hd (dec n) \<noteq> CHR ''-''" "hd (dec n) \<noteq> CHR ''+''"
  using dec_digits [of n] dec_nonempty [of n]
  by (metis hd_in_set not_digit_sign)+

lemma digits_val_append:
  "digits_val acc (xs @ ys) =
     (case digits_val acc xs of None \<Rightarrow> None | Some a \<Rightarrow> digits_val a ys)"
  by (induction xs arbitrary: acc) auto

lemma digits_val_dec: "digits_val 0 (dec n) = Some n"
proof (induction n rule: dec.induct)
  case (1 n)
  then show ?case by (cases "n < 10") (auto simp: dec.simps [of n] digits_val_append)
qed

subsection \<open>Round trips\<close>

lemma ParseUint_FormatUint [simp]: "int n \<le> max_uint64 \<Longrightarrow> ParseUint (FormatUint n) = Some n"
  by (simp add: ParseUint_def FormatUint_def digits_val_dec)

lemma ParseInt_FormatInt [simp]:
  assumes "int64_range n"
  shows "ParseInt (FormatInt n) = Some n"
proof (cases "n < 0")
  case True
  with assms show ?thesis
    by (simp add: ParseInt_def FormatInt_def ParseUint_def digits_val_dec int64_range_def Let_def)
next
  case False
  obtain c cs where d: "dec (nat n) = c # cs" by (cases "dec (nat n)") auto
  with dec_no_sign [of "nat n"] have c: "c \<noteq> CHR ''-''" "c \<noteq> CHR ''+''" by auto
  have v: "ParseUint (c # cs) = Some (nat n)"
    using assms False digits_val_dec [of "nat n"] d
    by (simp add: ParseUint_def int64_range_def del: digits_val.simps)
  from assms False c v show ?thesis
    by (simp add: ParseInt_def FormatInt_def d int64_range_def Let_def)
qed

lemma FormatInt_inj: "int64_range m \<Longrightarrow> int64_range n \<Longrightarrow> FormatInt m = FormatInt n \<longleftrightarrow> m = n"
  by (metis ParseInt_FormatInt option.inject)

lemma ParseInt_range: "ParseInt s = Some n \<Longrightarrow> int64_range n"
  by (auto simp: ParseInt_def ParseUint_def int64_range_def Let_def
           split: list.splits option.splits if_splits)

lemma FormatInt_nonempty [simp]: "FormatInt n \<noteq> []"
  by (simp add: FormatInt_def)

text \<open>Decimal text contains neither a line terminator nor a dash after its sign.\<close>

lemma dec_char_range: "c \<in> set (dec n) \<Longrightarrow> 48 \<le> (of_char c :: nat) \<and> (of_char c :: nat) \<le> 57"
  using dec_digits [of n] by (auto simp: is_digit_def)

lemma dec_no_newline: "c \<in> set (dec n) \<Longrightarrow> (of_char c :: nat) < 48 \<Longrightarrow> False"
  using dec_char_range by fastforce

end
