(* ===== verification/StreamValue.thy ===== *)
theory StreamValue
  imports Strconv
begin

text \<open>
  The stream value of \<open>internal/store/stream.go\<close>: entry ids, the log and its consumer groups.
  A pending-entries map holds addresses into the group's list \<open>nacks\<close>, because the same
  \<open>streamNACK\<close> is reached from the group and from its consumer. The lemmas show that ids form
  a linear order with \<open>Next\<close> as successor, that generated ids are larger than every id
  ever added, that the binary search finds the first entry at or after an id, and that ids
  survive printing and parsing.
\<close>

subsection \<open>Ids\<close>

datatype StreamID = StreamID (Ms: "64 word") (Seq: "64 word")

abbreviation zeroStreamID :: StreamID where "zeroStreamID \<equiv> StreamID 0 0"

definition maxStreamID :: StreamID where
  "maxStreamID = StreamID (- 1) (- 1)"

definition Compare :: "StreamID \<Rightarrow> StreamID \<Rightarrow> int" where
  "Compare a b =
     (if Ms a < Ms b then -1 else if Ms a > Ms b then 1
      else if Seq a < Seq b then -1 else if Seq a > Seq b then 1 else 0)"

definition StreamID_String :: "StreamID \<Rightarrow> bytes" where
  "StreamID_String i = FormatUint (unat (Ms i)) @ ''-'' @ FormatUint (unat (Seq i))"

definition Next :: "StreamID \<Rightarrow> StreamID" where
  "Next i = (if Seq i = - 1 then (if Ms i = - 1 then i else StreamID (Ms i + 1) 0)
             else StreamID (Ms i) (Seq i + 1))"

definition Prev :: "StreamID \<Rightarrow> StreamID" where
  "Prev i = (if Seq i = 0 then (if Ms i = 0 then i else StreamID (Ms i - 1) (- 1))
             else StreamID (Ms i) (Seq i - 1))"

text \<open>\<open>strings.Cut\<close> at the first separator.\<close>

definition cut :: "char \<Rightarrow> bytes \<Rightarrow> bytes \<times> bytes \<times> bool" where
  "cut c s =
     (if c \<in> set s then (takeWhile (\<lambda>x. x \<noteq> c) s, tl (dropWhile (\<lambda>x. x \<noteq> c) s), True)
      else (s, [], False))"

definition ParseStreamID :: "bytes \<Rightarrow> 64 word \<Rightarrow> StreamID option" where
  "ParseStreamID s seqDefault =
     (let (ms, seq, hasSeq) = cut CHR ''-'' s
      in case ParseUint ms of
           None \<Rightarrow> None
         | Some msN \<Rightarrow>
             if \<not> hasSeq then Some (StreamID (of_nat msN) seqDefault)
             else case ParseUint seq of
                    None \<Rightarrow> None
                  | Some seqN \<Rightarrow> Some (StreamID (of_nat msN) (of_nat seqN)))"

subsection \<open>Entries, groups and the stream\<close>

record StreamEntry =
  ID :: StreamID
  Fields :: "slice list"

definition StreamEntry_clone :: "StreamEntry \<Rightarrow> StreamEntry" where
  "StreamEntry_clone e = \<lparr>ID = ID e, Fields = map (\<lambda>f. copyBytes (sbytes f)) (Fields e)\<rparr>"

record streamNACK =
  nackID :: StreamID
  nackConsumer :: bytes
  deliveryMs :: int
  deliveryCount :: int

record streamConsumer =
  cname :: bytes
  seenMs :: int
  activeMs :: int
  cpel :: "(StreamID, nat) gomap"

record streamGroup =
  lastDelivered :: StreamID
  entriesRead :: int
  hasEntriesRead :: bool
  nacks :: "streamNACK list"
  gpel :: "(StreamID, nat) gomap"
  consumers :: "(bytes, streamConsumer) gomap"

record stream =
  entries :: "StreamEntry list"
  lastID :: StreamID
  maxDeleted :: StreamID
  added :: "64 word"
  groups :: "(bytes, streamGroup) gomap"

definition newStreamGroup :: "StreamID \<Rightarrow> int \<Rightarrow> bool \<Rightarrow> streamGroup" where
  "newStreamGroup start n has =
     \<lparr>lastDelivered = start, entriesRead = n, hasEntriesRead = has, nacks = [], gpel = [], consumers = []\<rparr>"

text \<open>\<open>consumerFor\<close> returns the group with the consumer in it and whether it was created.\<close>

definition consumerFor :: "bytes \<Rightarrow> int \<Rightarrow> streamGroup \<Rightarrow> streamGroup \<times> bool" where
  "consumerFor name nowMs g =
     (case map_of (consumers g) name of
        None \<Rightarrow> (g\<lparr>consumers := gput name \<lparr>cname = name, seenMs = nowMs, activeMs = nowMs, cpel = []\<rparr> (consumers g)\<rparr>, True)
      | Some c \<Rightarrow> (g\<lparr>consumers := gput name (c\<lparr>seenMs := nowMs\<rparr>) (consumers g)\<rparr>, False))"

definition newStream :: stream where
  "newStream = \<lparr>entries = [], lastID = zeroStreamID, maxDeleted = zeroStreamID, added = 0, groups = []\<rparr>"

definition groupLag :: "stream \<Rightarrow> streamGroup \<Rightarrow> int option" where
  "groupLag st g =
     (case entries st of
        [] \<Rightarrow> Some 0
      | e # es \<Rightarrow>
          if Compare (lastDelivered g) (lastID st) \<ge> 0 then Some 0
          else if (maxDeleted st = zeroStreamID \<or> Compare (maxDeleted st) (ID e) < 0) \<and>
                  Compare (lastDelivered g) (ID e) < 0
          then Some (int (length (entries st)))
          else if hasEntriesRead g \<and>
                  (maxDeleted st = zeroStreamID \<or> Compare (maxDeleted st) (lastDelivered g) < 0) \<and>
                  wrap64 (sint (added st) - entriesRead g) \<ge> 0
          then Some (wrap64 (sint (added st) - entriesRead g))
          else None)"

text \<open>The copy of a group: fresh consumers, and one NACK per pending entry, shared.\<close>

definition clone_consumer :: "bytes \<times> streamConsumer \<Rightarrow> bytes \<times> streamConsumer" where
  "clone_consumer nc = (fst nc, \<lparr>cname = fst nc, seenMs = seenMs (snd nc), activeMs = activeMs (snd nc), cpel = []\<rparr>)"

definition clone_nack :: "streamGroup \<Rightarrow> StreamID \<times> nat \<Rightarrow> streamGroup \<Rightarrow> streamGroup" where
  "clone_nack g ia ng =
     (let nack = nacks g ! snd ia; a = length (nacks ng);
          ng' = ng\<lparr>nacks := nacks ng @ [\<lparr>nackID = fst ia, nackConsumer = nackConsumer nack,
                      deliveryMs = deliveryMs nack, deliveryCount = deliveryCount nack\<rparr>],
                   gpel := gput (fst ia) a (gpel ng)\<rparr>
      in case map_of (consumers ng') (nackConsumer nack) of
           None \<Rightarrow> ng'
         | Some c \<Rightarrow> ng'\<lparr>consumers := gput (nackConsumer nack) (c\<lparr>cpel := gput (fst ia) a (cpel c)\<rparr>) (consumers ng')\<rparr>)"

definition clone_group :: "streamGroup \<Rightarrow> streamGroup" where
  "clone_group g =
     fold (clone_nack g) (gpel g)
       ((newStreamGroup (lastDelivered g) (entriesRead g) (hasEntriesRead g))
          \<lparr>consumers := map clone_consumer (consumers g)\<rparr>)"

definition stream_clone :: "stream \<Rightarrow> stream" where
  "stream_clone st =
     st\<lparr>entries := map StreamEntry_clone (entries st),
        groups := map (\<lambda>(n, g). (n, clone_group g)) (groups st)\<rparr>"

definition nextID :: "int \<Rightarrow> stream \<Rightarrow> StreamID option" where
  "nextID nowMs st =
     (let ms = (if nowMs > 0 then word_of_int nowMs else 0)
      in if ms > Ms (lastID st) then Some (StreamID ms 0)
         else if Seq (lastID st) = - 1
         then if Ms (lastID st) = - 1 then None else Some (StreamID (Ms (lastID st) + 1) 0)
         else Some (StreamID (Ms (lastID st)) (Seq (lastID st) + 1)))"

definition seqForMs :: "64 word \<Rightarrow> stream \<Rightarrow> StreamID option" where
  "seqForMs ms st =
     (if ms > Ms (lastID st) then Some (StreamID ms 0)
      else if ms < Ms (lastID st) then None
      else if Seq (lastID st) = - 1 then None
      else Some (StreamID ms (Seq (lastID st) + 1)))"

text \<open>\<open>sort.Search\<close>: binary search for the first index at which a predicate holds.\<close>

function search :: "(nat \<Rightarrow> bool) \<Rightarrow> nat \<Rightarrow> nat \<Rightarrow> nat" where
  "search f i j =
     (if i < j then let h = (i + j) div 2 in if f h then search f i h else search f (Suc h) j else i)"
  by pat_completeness auto
termination
  by (relation "measure (\<lambda>(f, i, j). j - i)") auto

declare search.simps [simp del]

definition firstIndexAtOrAfter :: "StreamID \<Rightarrow> stream \<Rightarrow> nat" where
  "firstIndexAtOrAfter i st =
     search (\<lambda>k. Compare (ID (entries st ! k)) i \<ge> 0) 0 (length (entries st))"

definition find_entry :: "StreamID \<Rightarrow> stream \<Rightarrow> nat option" where
  "find_entry i st =
     (let k = firstIndexAtOrAfter i st
      in if k < length (entries st) \<and> ID (entries st ! k) = i then Some k else None)"

definition firstID :: "stream \<Rightarrow> StreamID" where
  "firstID st = (case entries st of [] \<Rightarrow> zeroStreamID | e # es \<Rightarrow> ID e)"

definition memorySize :: "stream \<Rightarrow> int" where
  "memorySize st =
     sum_list (map (\<lambda>e. 48 + sum_list (map (\<lambda>f. 24 + scap f) (Fields e))) (entries st)) +
     gsum (\<lambda>name g. 48 + int (length name) + 96 + int (length (gpel g)) * (48 + 48) +
             gsum (\<lambda>cn c. 48 + int (length cn) + 64) (consumers g)) (groups st)"

datatype TrimOptions = TrimNone | TrimMaxLen int | TrimMinID StreamID

definition stream_trim :: "TrimOptions \<Rightarrow> stream \<Rightarrow> stream \<times> int" where
  "stream_trim opt st =
     (let n = length (entries st);
          cut = (case opt of
                   TrimNone \<Rightarrow> 0
                 | TrimMaxLen m \<Rightarrow> if m < 0 \<or> int n \<le> m then 0 else n - nat m
                 | TrimMinID i \<Rightarrow> firstIndexAtOrAfter i st)
      in (st\<lparr>entries := drop cut (entries st)\<rparr>, int cut))"

subsection \<open>The order of ids\<close>

instantiation StreamID :: linorder
begin

definition less_StreamID :: "StreamID \<Rightarrow> StreamID \<Rightarrow> bool" where
  "less_StreamID a b \<longleftrightarrow> Compare a b < 0"

definition less_eq_StreamID :: "StreamID \<Rightarrow> StreamID \<Rightarrow> bool" where
  "less_eq_StreamID a b \<longleftrightarrow> Compare a b \<le> 0"

instance
proof
  fix x y z :: StreamID
  show "x < y \<longleftrightarrow> x \<le> y \<and> \<not> y \<le> x"
    by (auto simp: less_StreamID_def less_eq_StreamID_def Compare_def split: if_splits)
  show "x \<le> x" by (simp add: less_eq_StreamID_def Compare_def)
  show "x \<le> y \<Longrightarrow> y \<le> z \<Longrightarrow> x \<le> z"
    by (auto simp: less_eq_StreamID_def Compare_def split: if_splits)
  show "x \<le> y \<Longrightarrow> y \<le> x \<Longrightarrow> x = y"
    by (auto simp: less_eq_StreamID_def Compare_def intro: StreamID.expand split: if_splits)
  show "x \<le> y \<or> y \<le> x"
    by (auto simp: less_eq_StreamID_def Compare_def split: if_splits)
qed

end

lemma Compare_iff [simp]:
  "Compare a b < 0 \<longleftrightarrow> a < b" "Compare a b \<le> 0 \<longleftrightarrow> a \<le> b"
  "0 \<le> Compare a b \<longleftrightarrow> b \<le> a" "0 < Compare a b \<longleftrightarrow> b < a" "Compare a b = 0 \<longleftrightarrow> a = b"
proof -
  have sym: "Compare b a = - Compare a b" by (auto simp: Compare_def)
  show "Compare a b < 0 \<longleftrightarrow> a < b" "Compare a b \<le> 0 \<longleftrightarrow> a \<le> b"
    "0 \<le> Compare a b \<longleftrightarrow> b \<le> a" "0 < Compare a b \<longleftrightarrow> b < a"
    using sym by (auto simp: less_StreamID_def less_eq_StreamID_def)
  show "Compare a b = 0 \<longleftrightarrow> a = b"
    by (auto simp: Compare_def intro: StreamID.expand split: if_splits)
qed

lemma less_StreamID_iff: "a < b \<longleftrightarrow> Ms a < Ms b \<or> Ms a = Ms b \<and> Seq a < Seq (b :: StreamID)"
  by (auto simp: less_StreamID_def Compare_def)

lemma less_eq_StreamID_iff: "a \<le> b \<longleftrightarrow> Ms a < Ms b \<or> Ms a = Ms b \<and> Seq a \<le> Seq (b :: StreamID)"
  by (auto simp: less_eq_StreamID_def Compare_def)

lemma word_less_Suc: "(w :: 64 word) \<noteq> - 1 \<Longrightarrow> w < w + 1"
proof -
  assume "w \<noteq> - 1"
  then have "1 + w \<noteq> 0" using max_word_wrap [of w] by (auto simp: add.commute)
  then have "unat (1 + w) = Suc (unat w)" by (rule unatSuc)
  then show ?thesis by (simp add: word_less_nat_alt add.commute)
qed

lemma word_pred_less: "(w :: 64 word) \<noteq> 0 \<Longrightarrow> w - 1 < w"
  using word_less_Suc [of "w - 1"] by (cases "w - 1 = - 1") auto

lemma word_le_max [simp]: "(w :: 64 word) \<le> - 1"
  by (rule word_order.extremum)

lemma maxStreamID_top [simp]: "i \<le> maxStreamID"
proof -
  have "w = - 1 \<or> w < - 1" for w :: "64 word" using word_le_max [of w] by (auto simp only: le_less)
  then show ?thesis by (auto simp: less_eq_StreamID_iff maxStreamID_def)
qed

lemma Next_greater: "i \<noteq> maxStreamID \<Longrightarrow> i < Next i"
  by (cases i) (auto simp: less_StreamID_iff Next_def maxStreamID_def word_less_Suc)

lemma Next_least: "i < j \<Longrightarrow> Next i \<le> j"
proof -
  assume ij: "i < j"
  have "Seq i < Seq j \<Longrightarrow> Seq i \<noteq> - 1" using word_order.extremum_strict [of "Seq j"] by auto
  moreover have "w = 0 \<or> 0 < w" for w :: "64 word" using word_gt_0 [of w] by auto
  ultimately show ?thesis
    using ij inc_le [of "Seq i" "Seq j"] inc_le [of "Ms i" "Ms j"] word_order.extremum_strict [of "Ms j"]
    by (auto simp: less_StreamID_iff less_eq_StreamID_iff Next_def le_less)
qed

lemma Next_max [simp]: "Next maxStreamID = maxStreamID"
  by (simp add: Next_def maxStreamID_def)

lemma Prev_Next: "i \<noteq> maxStreamID \<Longrightarrow> Prev (Next i) = i"
  by (cases i) (auto simp: Next_def Prev_def maxStreamID_def dest: max_word_wrap)

lemma Next_Prev: "i \<noteq> zeroStreamID \<Longrightarrow> Next (Prev i) = i"
proof (cases i)
  case (StreamID m q)
  have "w - 1 = - 1 \<Longrightarrow> w = (0 :: 64 word)" for w by simp
  with StreamID show "i \<noteq> zeroStreamID \<Longrightarrow> ?thesis" by (auto simp: Next_def Prev_def)
qed

text \<open>Ids survive printing and parsing.\<close>

lemma unat_le_max: "uint (w :: 64 word) \<le> max_uint64"
  using uint_bounded [of w] by simp

lemma dash_not_dec: "CHR ''-'' \<notin> set (dec n)"
  using dec_digits [of n] not_digit_sign(1) by blast

lemma cut_dash: "CHR ''-'' \<notin> set a \<Longrightarrow> cut CHR ''-'' (a @ ''-'' @ b) = (a, b, True)"
  by (induction a) (auto simp: cut_def)

lemma ParseStreamID_String: "ParseStreamID (StreamID_String i) d = Some i"
proof -
  have "cut CHR ''-'' (StreamID_String i) = (FormatUint (unat (Ms i)), FormatUint (unat (Seq i)), True)"
    unfolding StreamID_String_def by (rule cut_dash) (simp add: FormatUint_def dash_not_dec)
  moreover have "ParseUint (FormatUint (unat w)) = Some (unat w)" for w :: "64 word"
    by (rule ParseUint_FormatUint) (simp add: unat_le_max)
  ultimately show ?thesis by (simp add: ParseStreamID_def)
qed

subsection \<open>Generated ids\<close>

lemma nextID_greater: "nextID ms st = Some i \<Longrightarrow> lastID st < i"
  by (auto simp: nextID_def Let_def less_StreamID_iff word_less_Suc split: if_splits)

lemma nextID_clock: "nextID ms st = Some i \<Longrightarrow> 0 < ms \<Longrightarrow> ms < 2 ^ 64 \<Longrightarrow> Ms (lastID st) < word_of_int ms \<Longrightarrow>
    i = StreamID (word_of_int ms) 0"
  by (auto simp: nextID_def Let_def)

lemma nextID_exhausted: "nextID ms st = None \<longleftrightarrow> lastID st = maxStreamID"
proof -
  have "\<not> w > (- 1 :: 64 word)" for w by (simp add: linorder_not_less)
  then show ?thesis
    by (cases "lastID st") (auto simp: nextID_def Let_def maxStreamID_def)
qed

lemma seqForMs_greater: "seqForMs ms st = Some i \<Longrightarrow> lastID st < i \<and> Ms i = ms"
  by (auto simp: seqForMs_def less_StreamID_iff word_less_Suc split: if_splits)

lemma seqForMs_None: "seqForMs ms st = None \<longleftrightarrow> (\<forall>q. StreamID ms q \<le> lastID st)"
proof
  assume n: "seqForMs ms st = None"
  show "\<forall>q. StreamID ms q \<le> lastID st"
    using n by (auto simp: seqForMs_def less_eq_StreamID_iff split: if_splits)
next
  assume "\<forall>q. StreamID ms q \<le> lastID st"
  then have "StreamID ms (- 1) \<le> lastID st" by blast
  then show "seqForMs ms st = None"
    by (auto simp: seqForMs_def less_eq_StreamID_iff word_order.extremum_unique)
qed

subsection \<open>The search for an id\<close>

lemma search_bounds: "i \<le> j \<Longrightarrow> i \<le> search f i j \<and> search f i j \<le> j"
proof (induction f i j rule: search.induct)
  case (1 f i j)
  show ?case
  proof (cases "i < j")
    case True
    let ?h = "(i + j) div 2"
    have "i \<le> ?h" "?h < j" using True by auto
    with 1 True show ?thesis by (subst (1 2) search.simps) (auto simp: Let_def)
  next
    case False
    with 1 show ?thesis by (subst (1 2) search.simps) auto
  qed
qed

lemma search_least:
  "i \<le> j \<Longrightarrow> (\<forall>a b. i \<le> a \<and> a \<le> b \<and> b < j \<and> f a \<longrightarrow> f b) \<Longrightarrow>
   (\<forall>k. i \<le> k \<and> k < search f i j \<longrightarrow> \<not> f k) \<and> (search f i j < j \<longrightarrow> f (search f i j))"
proof (induction f i j rule: search.induct)
  case (1 f i j)
  show ?case
  proof (cases "i < j")
    case True
    let ?h = "(i + j) div 2"
    have h: "i \<le> ?h" "?h < j" using True by auto
    show ?thesis
    proof (cases "f ?h")
      case f: True
      have s: "search f i j = search f i ?h" using True f by (subst search.simps) (simp add: Let_def)
      have b: "search f i ?h \<le> ?h" using search_bounds [OF h(1)] by blast
      have m: "\<forall>a b. i \<le> a \<and> a \<le> b \<and> b < ?h \<and> f a \<longrightarrow> f b" using 1(4) h(2) by auto
      from 1(1) [OF True refl f h(1) m] s b f show ?thesis by (auto simp: le_less)
    next
      case f: False
      have s: "search f i j = search f (Suc ?h) j" using True f by (subst search.simps) (simp add: Let_def)
      have n: "\<not> f k" if "i \<le> k" "k \<le> ?h" for k using 1(4) that f h(2) by blast
      have "Suc ?h \<le> j" using h(2) by simp
      moreover have "\<forall>a b. Suc ?h \<le> a \<and> a \<le> b \<and> b < j \<and> f a \<longrightarrow> f b" using 1(4) h(1) by (meson Suc_leD le_trans)
      ultimately have "(\<forall>k. Suc ?h \<le> k \<and> k < search f (Suc ?h) j \<longrightarrow> \<not> f k) \<and>
          (search f (Suc ?h) j < j \<longrightarrow> f (search f (Suc ?h) j))"
        by (rule 1(2) [OF True refl f])
      with n s show ?thesis by (metis not_less_eq_eq)
    qed
  next
    case False
    then have "search f i j = i" by (subst search.simps) simp
    with False show ?thesis by auto
  qed
qed

lemma length_takeWhile_unique:
  assumes "\<And>j. j < k \<Longrightarrow> P (xs ! j)" "k < length xs \<Longrightarrow> \<not> P (xs ! k)" "k \<le> length xs"
  shows "length (takeWhile P xs) = k"
  using assms
proof (induction xs arbitrary: k)
  case (Cons x xs)
  show ?case
  proof (cases k)
    case 0
    with Cons.prems(2) show ?thesis by simp
  next
    case (Suc k')
    have "P x" using Cons.prems(1) [of 0] Suc by simp
    moreover have "length (takeWhile P xs) = k'"
      using Cons.prems Suc by (intro Cons.IH) (use Cons.prems(1) [of "Suc _"] in auto)
    ultimately show ?thesis using Suc by simp
  qed
qed simp

text \<open>A pending-entries map is well formed when every id leads to a NACK of that id.\<close>

definition pel_ok :: "streamNACK list \<Rightarrow> (StreamID, nat) gomap \<Rightarrow> bool" where
  "pel_ok ns pel \<longleftrightarrow>
     gmap_wf pel \<and> (\<forall>i a. map_of pel i = Some a \<longrightarrow> a < length ns \<and> nackID (ns ! a) = i)"

definition group_ok :: "streamGroup \<Rightarrow> bool" where
  "group_ok g \<longleftrightarrow>
     pel_ok (nacks g) (gpel g) \<and> gmap_wf (consumers g) \<and>
     (\<forall>n c. map_of (consumers g) n = Some c \<longrightarrow> cname c = n \<and> pel_ok (nacks g) (cpel c))"

text \<open>A stream is well formed when its entries are sorted by id, none is above the last id and its groups
  are well formed.\<close>

definition stream_ok :: "stream \<Rightarrow> bool" where
  "stream_ok st \<longleftrightarrow>
     sorted_wrt (<) (map ID (entries st)) \<and> (\<forall>e \<in> set (entries st). ID e \<le> lastID st) \<and>
     gmap_wf (groups st) \<and> (\<forall>n g. map_of (groups st) n = Some g \<longrightarrow> group_ok g)"

lemma firstIndexAtOrAfter_eq:
  assumes "sorted_wrt (<) (map ID (entries st))"
  shows "firstIndexAtOrAfter i st = length (takeWhile (\<lambda>e. ID e < i) (entries st))"
proof -
  let ?es = "entries st" and ?f = "\<lambda>k. i \<le> ID (entries st ! k)"
  let ?k = "firstIndexAtOrAfter i st"
  have k: "?k = search ?f 0 (length ?es)" by (simp add: firstIndexAtOrAfter_def)
  have m: "\<forall>a b. 0 \<le> a \<and> a \<le> b \<and> b < length ?es \<and> ?f a \<longrightarrow> ?f b"
  proof (intro allI impI)
    fix a b assume ab: "0 \<le> a \<and> a \<le> b \<and> b < length ?es \<and> ?f a"
    then have "ID (?es ! a) \<le> ID (?es ! b)"
      using assms by (cases "a = b") (auto simp: sorted_wrt_iff_nth_less intro: less_imp_le)
    with ab show "?f b" using order_trans by blast
  qed
  from search_least [OF _ m] have l: "\<And>j. j < ?k \<Longrightarrow> ID (?es ! j) < i" "?k < length ?es \<Longrightarrow> \<not> ID (?es ! ?k) < i"
    unfolding k by (auto simp: linorder_not_le)
  have b: "?k \<le> length ?es" unfolding k using search_bounds [of 0 "length ?es" ?f] by simp
  show ?thesis
  proof (rule length_takeWhile_unique [symmetric])
  qed (use l b in auto)
qed

lemma find_entry_eq:
  assumes "sorted_wrt (<) (map ID (entries st))"
  shows "find_entry i st = Some k \<longleftrightarrow> k < length (entries st) \<and> ID (entries st ! k) = i"
proof -
  let ?es = "entries st" and ?n = "length (takeWhile (\<lambda>e. ID e < i) (entries st))"
  have lt: "ID (?es ! a) < ID (?es ! b)" if "a < b" "b < length ?es" for a b
    using assms that by (simp add: sorted_wrt_iff_nth_less)
  have "?n = k" if "k < length ?es" "ID (?es ! k) = i"
    using that lt by (intro length_takeWhile_unique) auto
  then show ?thesis
    by (auto simp: find_entry_def firstIndexAtOrAfter_eq [OF assms] Let_def)
qed

subsection \<open>Trimming\<close>

lemma stream_trim_entries:
  assumes "stream_ok st"
  shows "entries (fst (stream_trim opt st)) =
    (case opt of
       TrimNone \<Rightarrow> entries st
     | TrimMaxLen m \<Rightarrow> if m < 0 then entries st else drop (length (entries st) - nat m) (entries st)
     | TrimMinID i \<Rightarrow> filter (\<lambda>e. i \<le> ID e) (entries st))"
proof (cases opt)
  case (TrimMinID i)
  have s: "sorted_wrt (<) (map ID (entries st))" using assms by (simp add: stream_ok_def)
  have "dropWhile (\<lambda>e. ID e < i) es = filter (\<lambda>e. i \<le> ID e) es" if "sorted_wrt (<) (map ID es)" for es
    using that
  proof (induction es)
    case (Cons e es)
    show ?case
    proof (cases "ID e < i")
      case False
      have "i \<le> ID e'" if "e' \<in> set es" for e' using Cons.prems that False by fastforce
      with False show ?thesis by (auto simp: linorder_not_less intro!: filter_True [symmetric])
    qed (use Cons in auto)
  qed simp
  with s TrimMinID show ?thesis
    by (simp add: stream_trim_def Let_def firstIndexAtOrAfter_eq dropWhile_eq_drop [symmetric])
qed (auto simp: stream_trim_def Let_def)

lemma stream_trim_ok: "stream_ok st \<Longrightarrow> stream_ok (fst (stream_trim opt st))"
  unfolding stream_ok_def stream_trim_def Let_def
  by (auto simp: drop_map [symmetric] sorted_wrt_drop dest: in_set_dropD)

lemma stream_trim_count:
  "stream_ok st \<Longrightarrow> snd (stream_trim opt st) =
     int (length (entries st)) - int (length (entries (fst (stream_trim opt st))))"
proof -
  assume "stream_ok st"
  then have "firstIndexAtOrAfter i st \<le> length (entries st)" for i
    by (simp add: stream_ok_def firstIndexAtOrAfter_eq length_takeWhile_le)
  then show ?thesis
    by (auto simp: stream_trim_def Let_def of_nat_diff split: TrimOptions.split)
qed

subsection \<open>Copies\<close>

lemma pel_ok_append: "pel_ok ns pel \<Longrightarrow> pel_ok (ns @ ns') pel"
  by (auto simp: pel_ok_def nth_append) fastforce

lemma pel_ok_put: "pel_ok ns pel \<Longrightarrow> a < length ns \<Longrightarrow> nackID (ns ! a) = i \<Longrightarrow> pel_ok ns (gput i a pel)"
  by (auto simp: pel_ok_def)

lemma newStreamGroup_ok [simp]: "group_ok (newStreamGroup i n b)"
  by (simp add: group_ok_def newStreamGroup_def pel_ok_def)

lemma newStream_ok [simp]: "stream_ok newStream"
  by (simp add: stream_ok_def newStream_def)

lemma clone_nack_ok: "group_ok ng \<Longrightarrow> group_ok (clone_nack g ia ng)"
proof -
  assume g: "group_ok ng"
  let ?n = "\<lparr>nackID = fst ia, nackConsumer = nackConsumer (nacks g ! snd ia),
    deliveryMs = deliveryMs (nacks g ! snd ia), deliveryCount = deliveryCount (nacks g ! snd ia)\<rparr>"
  have p: "pel_ok (nacks ng @ [?n]) (gput (fst ia) (length (nacks ng)) pel)" if "pel_ok (nacks ng) pel" for pel
    using pel_ok_put [OF pel_ok_append [OF that, of "[?n]"], of "length (nacks ng)" "fst ia"] by (simp add: nth_append)
  have q: "pel_ok (nacks ng @ [?n]) pel" if "pel_ok (nacks ng) pel" for pel by (rule pel_ok_append [OF that])
  show "group_ok (clone_nack g ia ng)"
    using g p q by (auto simp: group_ok_def clone_nack_def Let_def split: option.split)
qed

lemma clone_group_ok: "gmap_wf (consumers g) \<Longrightarrow> group_ok (clone_group g)"
proof -
  assume w: "gmap_wf (consumers g)"
  let ?g = "(newStreamGroup (lastDelivered g) (entriesRead g) (hasEntriesRead g))\<lparr>consumers := map clone_consumer (consumers g)\<rparr>"
  have m: "map_of (map clone_consumer cs) n = map_option (\<lambda>c. snd (clone_consumer (n, c))) (map_of cs n)" for cs n
    by (induction cs) (auto simp: clone_consumer_def)
  have "map fst (map clone_consumer cs) = map fst cs" for cs by (induction cs) (auto simp: clone_consumer_def)
  then have "group_ok ?g"
    using w by (auto simp: group_ok_def newStreamGroup_def pel_ok_def gmap_wf_def m clone_consumer_def simp del: map_map)
  then have "group_ok (fold (clone_nack g) xs ?g)" for xs
    by (induction xs rule: rev_induct) (auto intro: clone_nack_ok)
  then show ?thesis by (simp add: clone_group_def)
qed

lemma stream_clone_ok: "stream_ok st \<Longrightarrow> stream_ok (stream_clone st)"
proof -
  assume s: "stream_ok st"
  have i: "map ID (map StreamEntry_clone es) = map ID es" for es by (simp add: StreamEntry_clone_def)
  have m: "map_of (map (\<lambda>(n, g). (n, clone_group g)) gs) n = map_option clone_group (map_of gs n)" for gs n
    by (induction gs) auto
  have k: "map fst (map (\<lambda>(n, g). (n, clone_group g)) gs) = map fst gs" for gs by (induction gs) auto
  have "gmap_wf (map (\<lambda>(n, g). (n, clone_group g)) (groups st))" using s by (simp only: stream_ok_def gmap_wf_def k)
  moreover have "group_ok (clone_group g)" if "map_of (groups st) n = Some g" for n g
    using s that by (intro clone_group_ok) (auto simp: stream_ok_def group_ok_def)
  ultimately show ?thesis using s
    by (auto simp: stream_ok_def stream_clone_def m i StreamEntry_clone_def simp del: map_map)
qed

end
