(* ===== verification/Entry.thy ===== *)
theory Entry
  imports Deque ZSet StreamValue
begin

text \<open>
  One stored value: the entry of \<open>internal/store/store.go\<close>, its size by
  \<open>internal/store/memory.go\<close> and its maintained size by \<open>internal/store/memtrack.go\<close>, and the
  deep copy of \<open>internal/store/keys.go\<close>. The type tag and the one populated field of the
  struct are one constructor of \<open>value\<close>. The invariant \<open>entry_ok\<close> is the type invariant of
  each value; the lemmas show that the maintained payload of a non-stream value is its
  measured size, which \<open>reseat\<close> restores for every value.
\<close>

subsection \<open>Entries\<close>

datatype kind = kindString | kindList | kindHash | kindSet | kindZSet | kindStream

definition kind_String :: "kind \<Rightarrow> string" where
  "kind_String k =
     (case k of kindString \<Rightarrow> ''string'' | kindList \<Rightarrow> ''list'' | kindHash \<Rightarrow> ''hash''
      | kindSet \<Rightarrow> ''set'' | kindZSet \<Rightarrow> ''zset'' | kindStream \<Rightarrow> ''stream'')"

datatype strOrigin = strWholeValue | strPlainObject | strMutatedBuffer

datatype val =
    VString slice
  | VList deque
  | VHash "(bytes, slice) gomap"
  | VSet "(bytes, unit) gomap"
  | VZSet zset
  | VStream stream

record entry =
  val :: val
  origin :: strOrigin
  expireAt :: "int option"
  atime :: int
  eBytes :: int
  freq :: "32 word"

fun kind_of :: "val \<Rightarrow> kind" where
  "kind_of (VString _) = kindString"
| "kind_of (VList _) = kindList"
| "kind_of (VHash _) = kindHash"
| "kind_of (VSet _) = kindSet"
| "kind_of (VZSet _) = kindZSet"
| "kind_of (VStream _) = kindStream"

text \<open>A struct literal that names only the value leaves every other field zero.\<close>

definition new_entry :: "val \<Rightarrow> entry" where
  "new_entry v = \<lparr>val = v, origin = strWholeValue, expireAt = None, atime = 0, eBytes = 0, freq = 0\<rparr>"

definition expired :: "int \<Rightarrow> entry \<Rightarrow> bool" where
  "expired t e \<longleftrightarrow> (case expireAt e of None \<Rightarrow> False | Some d \<Rightarrow> \<not> t < d)"

subsection \<open>Sizes\<close>

abbreviation memEntryOverhead :: int where "memEntryOverhead \<equiv> 128 + 48"

fun valSize :: "val \<Rightarrow> int" where
  "valSize (VString s) = scap s"
| "valSize (VList d) = sum_list (map (\<lambda>v. memListElem + int (length v)) (dl d))"
| "valSize (VHash d) = gsum (\<lambda>f v. memMapSlot + int (length f) + scap v) d"
| "valSize (VSet d) = gsum (\<lambda>m _. memMapSlot + int (length m)) d"
| "valSize (VZSet z) = gsum (\<lambda>m _. memMapSlot + memSkipNode + 2 * int (length m)) (zdict z)"
| "valSize (VStream st) = memorySize st"

definition entrySize :: "entry \<Rightarrow> int" where
  "entrySize e = valSize (val e)"

definition entryPayload :: "entry \<Rightarrow> int" where
  "entryPayload e =
     (case val e of VString s \<Rightarrow> scap s | VList d \<Rightarrow> dbytes d | VZSet z \<Rightarrow> zbytes z | _ \<Rightarrow> eBytes e)"

definition entryCharge :: "bytes \<Rightarrow> entry \<Rightarrow> int" where
  "entryCharge key e = memEntryOverhead + int (length key) + entryPayload e"

definition reseat :: "entry \<Rightarrow> entry" where
  "reseat e =
     (case val e of
        VString s \<Rightarrow> e
      | VList d \<Rightarrow> e\<lparr>val := VList (d\<lparr>dbytes := sum_list (map (\<lambda>v. memListElem + int (length v)) (dl d))\<rparr>)\<rparr>
      | VZSet z \<Rightarrow> e\<lparr>val := VZSet (z\<lparr>zbytes := gsum (\<lambda>m _. memMapSlot + memSkipNode + 2 * int (length m)) (zdict z)\<rparr>)\<rparr>
      | _ \<Rightarrow> e\<lparr>eBytes := entrySize e\<rparr>)"

subsection \<open>The only writers of hashes and sets\<close>

definition hashPut :: "bytes \<Rightarrow> slice \<Rightarrow> (bytes, slice) gomap \<times> int \<Rightarrow> (bytes, slice) gomap \<times> int" where
  "hashPut field v h =
     (gput field v (fst h),
      (case map_of (fst h) field of
         Some old \<Rightarrow> snd h + (scap v - scap old)
       | None \<Rightarrow> snd h + (memMapSlot + int (length field) + scap v)))"

definition hashDrop :: "bytes \<Rightarrow> (bytes, slice) gomap \<times> int \<Rightarrow> ((bytes, slice) gomap \<times> int) \<times> bool" where
  "hashDrop field h =
     (case map_of (fst h) field of
        None \<Rightarrow> (h, False)
      | Some old \<Rightarrow> ((gdel field (fst h), snd h - (memMapSlot + int (length field) + scap old)), True))"

definition setPut :: "bytes \<Rightarrow> (bytes, unit) gomap \<times> int \<Rightarrow> ((bytes, unit) gomap \<times> int) \<times> bool" where
  "setPut m h =
     (if map_of (fst h) m \<noteq> None then (h, False)
      else ((gput m () (fst h), snd h + (memMapSlot + int (length m))), True))"

definition setDrop :: "bytes \<Rightarrow> (bytes, unit) gomap \<times> int \<Rightarrow> ((bytes, unit) gomap \<times> int) \<times> bool" where
  "setDrop m h =
     (if map_of (fst h) m = None then (h, False)
      else ((gdel m (fst h), snd h - (memMapSlot + int (length m))), True))"

subsection \<open>The deep copy\<close>

definition clone_hash :: "goenv \<Rightarrow> (bytes, slice) gomap \<Rightarrow> (bytes, slice) gomap \<times> int" where
  "clone_hash env d =
     fold (\<lambda>f h. hashPut f (copyBytes (sbytes (the (map_of d f)))) h) (gkeys env d) ([], 0)"

definition clone_set :: "goenv \<Rightarrow> (bytes, unit) gomap \<Rightarrow> (bytes, unit) gomap \<times> int" where
  "clone_set env d = fold (\<lambda>m h. fst (setPut m h)) (gkeys env d) ([], 0)"

definition clone_zset :: "goenv \<Rightarrow> zset \<Rightarrow> zset" where
  "clone_zset env z = fold (\<lambda>(m, s) z'. fst (zset_add m s z')) (sl_items (zsl z)) (newZSet (coins env))"

definition entry_clone :: "goenv \<Rightarrow> entry \<Rightarrow> entry" where
  "entry_clone env e =
     (let ne = (new_entry (val e))\<lparr>origin := origin e, expireAt := expireAt e\<rparr>
      in case val e of
           VString s \<Rightarrow> ne\<lparr>val := VString (copyBytes (sbytes s))\<rparr>
         | VList d \<Rightarrow> ne\<lparr>val := VList (fold rpush (dl d) newDeque)\<rparr>
         | VHash d \<Rightarrow> (let (d', b) = clone_hash env d in ne\<lparr>val := VHash d', eBytes := b\<rparr>)
         | VSet d \<Rightarrow> (let (d', b) = clone_set env d in ne\<lparr>val := VSet d', eBytes := b\<rparr>)
         | VZSet z \<Rightarrow> ne\<lparr>val := VZSet (clone_zset env z)\<rparr>
         | VStream st \<Rightarrow> ne\<lparr>val := VStream (stream_clone st)\<rparr>)"

subsection \<open>The type invariant\<close>

definition hash_ok :: "(bytes, slice) gomap \<times> int \<Rightarrow> bool" where
  "hash_ok h \<longleftrightarrow> gmap_wf (fst h) \<and> snd h = valSize (VHash (fst h))"

definition set_ok :: "(bytes, unit) gomap \<times> int \<Rightarrow> bool" where
  "set_ok h \<longleftrightarrow> gmap_wf (fst h) \<and> snd h = valSize (VSet (fst h))"

definition entry_ok :: "entry \<Rightarrow> bool" where
  "entry_ok e \<longleftrightarrow>
     (case val e of
        VString s \<Rightarrow> True
      | VList d \<Rightarrow> deque_ok d
      | VHash d \<Rightarrow> hash_ok (d, eBytes e)
      | VSet d \<Rightarrow> set_ok (d, eBytes e)
      | VZSet z \<Rightarrow> zset_ok z
      | VStream st \<Rightarrow> stream_ok st)"

text \<open>Every collection that is stored has an element.\<close>

fun val_nonempty :: "val \<Rightarrow> bool" where
  "val_nonempty (VString s) = True"
| "val_nonempty (VList d) = (dl d \<noteq> [])"
| "val_nonempty (VHash d) = (d \<noteq> [])"
| "val_nonempty (VSet d) = (d \<noteq> [])"
| "val_nonempty (VZSet z) = (zdict z \<noteq> [])"
| "val_nonempty (VStream st) = True"

lemma payload_size:
  assumes "entry_ok e" "kind_of (val e) \<noteq> kindStream"
  shows "entryPayload e = entrySize e"
  using assms
  by (cases "val e")
    (auto simp: entryPayload_def entrySize_def entry_ok_def deque_ok_def hash_ok_def set_ok_def
        zset_ok_def memberBytes_def elemBytes_def [abs_def])

lemma reseat_payload: "entryPayload (reseat e) = entrySize e" "entrySize (reseat e) = entrySize e"
  by (cases "val e"; simp add: reseat_def entryPayload_def entrySize_def)+

lemma hashPut_ok: "hash_ok h \<Longrightarrow> hash_ok (hashPut f v h)"
  by (auto simp: hash_ok_def hashPut_def gsum_gput split: option.split)

lemma hashPut_map [simp]: "map_of (fst (hashPut f v h)) = (map_of (fst h))(f \<mapsto> v)"
  by (simp add: hashPut_def)

lemma hashPut_nonempty [simp]: "fst (hashPut f v h) \<noteq> []"
  by (simp add: hashPut_def)

lemma hashDrop_ok: "hash_ok h \<Longrightarrow> hash_ok (fst (hashDrop f h))"
  by (auto simp: hash_ok_def hashDrop_def gsum_gdel split: option.split)

lemma hashDrop_map [simp]:
  "map_of (fst (fst (hashDrop f h))) = (map_of (fst h))(f := None)"
  "snd (hashDrop f h) \<longleftrightarrow> map_of (fst h) f \<noteq> None"
  by (auto simp: hashDrop_def split: option.split)

lemma setPut_ok: "set_ok h \<Longrightarrow> set_ok (fst (setPut m h))"
  by (cases "map_of (fst h) m") (auto simp: set_ok_def setPut_def gsum_gput)

lemma setPut_map [simp]:
  "map_of (fst (fst (setPut m h))) = (map_of (fst h))(m \<mapsto> ())"
  "snd (setPut m h) \<longleftrightarrow> map_of (fst h) m = None"
  by (cases "map_of (fst h) m"; auto simp: setPut_def)+

lemma setPut_nonempty [simp]: "fst (fst (setPut m h)) \<noteq> []"
  by (cases "fst h") (auto simp: setPut_def)

lemma setDrop_ok: "set_ok h \<Longrightarrow> set_ok (fst (setDrop m h))"
  by (cases "map_of (fst h) m") (auto simp: set_ok_def setDrop_def gsum_gdel)

lemma setDrop_map [simp]:
  "map_of (fst (fst (setDrop m h))) = (map_of (fst h))(m := None)"
  "snd (setDrop m h) \<longleftrightarrow> map_of (fst h) m \<noteq> None"
  by (auto simp: setDrop_def)

lemma empty_ok [simp]: "hash_ok ([], 0)" "set_ok ([], 0)"
  by (simp_all add: hash_ok_def set_ok_def)

subsection \<open>The copy equals the original\<close>

lemma fold_hashPut:
  "map_of (fst (fold (\<lambda>f. hashPut f (g f)) ks h)) k = (if k \<in> set ks then Some (g k) else map_of (fst h) k)"
  by (induction ks arbitrary: h) auto

lemma fold_hashPut_ok: "hash_ok h \<Longrightarrow> hash_ok (fold (\<lambda>f. hashPut f (g f)) ks h)"
  by (induction ks arbitrary: h) (auto simp: hashPut_ok)

lemma fold_setPut:
  "map_of (fst (fold (\<lambda>m h. fst (setPut m h)) ks h)) k = (if k \<in> set ks then Some () else map_of (fst h) k)"
  by (induction ks arbitrary: h) auto

lemma fold_setPut_ok: "set_ok h \<Longrightarrow> set_ok (fold (\<lambda>m h. fst (setPut m h)) ks h)"
  by (induction ks arbitrary: h) (auto simp: setPut_ok)

lemma clone_hash_ok:
  assumes "fair_iter env"
  shows "hash_ok (clone_hash env d)"
    and "map_of (fst (clone_hash env d)) f = map_option (\<lambda>v. copyBytes (sbytes v)) (map_of d f)"
  using gkeys_props(1) [OF assms, of d]
  by (auto simp: clone_hash_def fold_hashPut_ok fold_hashPut map_of_eq_None_iff dest: weak_map_of_SomeI)

lemma clone_set_ok:
  assumes "fair_iter env"
  shows "set_ok (clone_set env d)" "map_of (fst (clone_set env d)) = map_of d"
proof -
  show "set_ok (clone_set env d)" by (simp add: clone_set_def fold_setPut_ok)
  show "map_of (fst (clone_set env d)) = map_of d"
  proof
    fix m
    show "map_of (fst (clone_set env d)) m = map_of d m"
      using gkeys_props(1) [OF assms, of d] map_of_eq_None_iff [of d m]
      by (cases "map_of d m") (simp_all add: clone_set_def fold_setPut)
  qed
qed

lemma fold_zset_add:
  assumes "zset_ok z" "\<forall>(m, s) \<in> set its. \<not> IsNaN s"
  shows "zset_ok (fold (\<lambda>(m, s) z. fst (zset_add m s z)) its z)"
  using assms by (induction its arbitrary: z) (auto simp: zset_add_ok)

lemma fold_zset_add_map:
  assumes "distinct (map fst its)" "\<forall>m \<in> fst ` set its. map_of (zdict z) m = None"
  shows "map_of (zdict (fold (\<lambda>(m, s) z. fst (zset_add m s z)) its z)) = map_of (zdict z) ++ map_of its"
  using assms
proof (induction its arbitrary: z)
  case (Cons ms its)
  obtain m s where ms: "ms = (m, s)" by (cases ms)
  have z: "map_of (zdict (fst (zset_add m s z))) = (map_of (zdict z))(m \<mapsto> s)"
    using Cons.prems ms by (simp add: zset_add_map)
  have "map_of (zdict (fold (\<lambda>(m, s) z. fst (zset_add m s z)) its (fst (zset_add m s z)))) =
      (map_of (zdict z))(m \<mapsto> s) ++ map_of its"
  proof (subst Cons.IH)
    show "distinct (map fst its)" using Cons.prems(1) by simp
    show "\<forall>m' \<in> fst ` set its. map_of (zdict (fst (zset_add m s z))) m' = None"
      using Cons.prems ms by (auto simp: z)
  qed (simp add: z)
  moreover have "m \<notin> dom (map_of its)" using Cons.prems(1) ms by (simp add: dom_map_of_conv_image_fst)
  then have "(map_of (zdict z))(m \<mapsto> s) ++ map_of its = (map_of (zdict z) ++ map_of its)(m \<mapsto> s)"
    by (simp add: map_add_upd_left)
  ultimately show ?case by (simp add: ms map_add_def fun_eq_iff)
qed simp

lemma clone_zset_ok:
  assumes "zset_ok z"
  shows "zset_ok (clone_zset env z)" "map_of (zdict (clone_zset env z)) = map_of (zdict z)"
proof -
  let ?it = "sl_items (zsl z)"
  have e: "mset ?it = mset (zdict z)" "sl_wf (zsl z)" "gmap_wf (zdict z)" using assms by (simp_all add: zset_ok_def)
  show "zset_ok (clone_zset env z)"
    unfolding clone_zset_def using sl_items_not_NaN [OF e(2)] by (intro fold_zset_add) fastforce+
  have "mset (map fst ?it) = mset (map fst (zdict z))" using e(1) by simp
  then have d: "distinct (map fst ?it)" using e(3) unfolding gmap_wf_def by (metis mset_eq_imp_distinct_iff)
  have "map_of ?it = map_of (zdict z)"
    using d e(3) mset_eq_setD [OF e(1)] unfolding gmap_wf_def by (intro map_of_inject_set [THEN iffD2]) auto
  then show "map_of (zdict (clone_zset env z)) = map_of (zdict z)"
    unfolding clone_zset_def using d by (subst fold_zset_add_map) simp_all
qed

lemma fold_rpush: "dl (fold rpush vs d) = dl d @ vs" "deque_ok (fold rpush vs d) = deque_ok d"
  by (induction vs arbitrary: d) auto

lemma entry_clone_ok: "entry_ok e \<Longrightarrow> fair_iter env \<Longrightarrow> entry_ok (entry_clone env e)"
  using clone_hash_ok(1) [of env] clone_set_ok(1) [of env]
  by (cases "val e") (simp_all add: entry_clone_def Let_def entry_ok_def fold_rpush stream_clone_ok clone_zset_ok split_def)

end
