(* ===== verification/Store.thy ===== *)
theory Store
  imports Entry Lfu
begin

text \<open>
  The sharded keyspace of \<open>internal/store/store.go\<close> with the byte accounting of
  \<open>internal/store/memtrack.go\<close>. A call runs while its shards are locked, so it is one state
  transformer; \<open>write_key\<close> is the preamble and epilogue that every single-key write shares
  (lock, \<open>charge\<close>, body, \<open>settle\<close>, unlock), \<open>tracked\<close> the one of multi-key writes and
  \<open>read_key\<close> the one of reads. The callback on removed keys is the list of its calls. The
  locale \<open>key_writer\<close> states what a single-key write promises and proves once what follows:
  no other key changes, the keyspace stays well formed and the accounting stays exact.
\<close>

subsection \<open>Types\<close>

datatype error =
    ErrNotInteger | ErrWrongType | ErrOverflow | ErrNotFloat | ErrHashNotInteger | ErrHashNotFloat
  | ErrNaN | ErrScoreNaN | ErrOffset | ErrStringTooLong | ErrNoSuchKey | ErrIndexOutOfRange
  | ErrSameObject | ErrNotString

type_synonym 'a res = "error + 'a"

datatype EvictionPolicy =
    PolicyNoEviction | PolicyAllKeysLRU | PolicyAllKeysLFU | PolicyAllKeysRandom
  | PolicyVolatileLRU | PolicyVolatileLFU | PolicyVolatileRandom | PolicyVolatileTTL

datatype accessTracking = trackNothing | trackAccessTime | trackFrequency

datatype EncodingParam =
    HashMaxListpackEntries | HashMaxListpackValue | ListMaxListpackSize | SetMaxIntsetEntries
  | SetMaxListpackEntries | SetMaxListpackValue | ZSetMaxListpackEntries | ZSetMaxListpackValue
  | HLLSparseMaxBytes

fun encodingDefaults :: "EncodingParam \<Rightarrow> int" where
  "encodingDefaults HashMaxListpackEntries = 512"
| "encodingDefaults HashMaxListpackValue = 64"
| "encodingDefaults ListMaxListpackSize = -2"
| "encodingDefaults SetMaxIntsetEntries = 512"
| "encodingDefaults SetMaxListpackEntries = 128"
| "encodingDefaults SetMaxListpackValue = 64"
| "encodingDefaults ZSetMaxListpackEntries = 128"
| "encodingDefaults ZSetMaxListpackValue = 64"
| "encodingDefaults HLLSparseMaxBytes = 3000"

record shard =
  sdata :: "(bytes, entry) gomap"
  smem :: int
  svolatile :: int

record store =
  shards :: "shard list"
  smask :: "64 word"
  maxKeys :: int
  evicted :: int
  memTrack :: bool
  mem :: int
  maxMemory :: int
  policy :: EvictionPolicy
  policySet :: bool
  evictSamples :: int
  lfuLogFactor :: int
  lfuDecayTime :: int
  access :: accessTracking
  activeExpire :: bool
  encoding :: "EncodingParam \<Rightarrow> int"
  keyspaceHits :: int
  keyspaceMisses :: int

text \<open>A call of the removal callback: the key and whether it was evicted.\<close>

type_synonym event = "bytes \<times> bool"

subsection \<open>Construction and shard selection\<close>

function pow2_from :: "int \<Rightarrow> int \<Rightarrow> int" where
  "pow2_from n p = (if 0 < p \<and> p < n then pow2_from n (2 * p) else p)"
  by pat_completeness auto
termination
  by (relation "measure (\<lambda>(n, p). nat (n - p))") auto

declare pow2_from.simps [simp del]

definition nextPow2 :: "int \<Rightarrow> int" where
  "nextPow2 n = (if n < 1 then 1 else pow2_from n 1)"

definition New :: "int \<Rightarrow> store" where
  "New numShards =
     (let n = nextPow2 numShards
      in \<lparr>shards = replicate (nat n) \<lparr>sdata = [], smem = 0, svolatile = 0\<rparr>, smask = word_of_int (n - 1),
          maxKeys = 0, evicted = 0, memTrack = False, mem = 0, maxMemory = 0,
          policy = PolicyNoEviction, policySet = False, evictSamples = 16, lfuLogFactor = 10,
          lfuDecayTime = 1, access = trackNothing, activeExpire = True,
          encoding = encodingDefaults, keyspaceHits = 0, keyspaceMisses = 0\<rparr>)"

definition fnv1a :: "bytes \<Rightarrow> 64 word" where
  "fnv1a key = foldl (\<lambda>h c. (h XOR of_char c) * 1099511628211) 14695981039346656037 key"

definition shardIndex :: "store \<Rightarrow> bytes \<Rightarrow> nat" where
  "shardIndex st key = unat (fnv1a key AND smask st)"

definition getShard :: "store \<Rightarrow> bytes \<Rightarrow> shard" where
  "getShard st key = shards st ! shardIndex st key"

text \<open>The distinct shard indexes of some keys, ascending: the order in which shards are locked.\<close>

fun add_index :: "nat list \<Rightarrow> nat \<Rightarrow> nat list" where
  "add_index idx i = (if i \<in> set idx then idx else idx @ [i])"

definition shardIndexes :: "store \<Rightarrow> bytes list \<Rightarrow> nat list" where
  "shardIndexes st keys = sort (foldl (\<lambda>idx k. add_index idx (shardIndex st k)) [] keys)"

text \<open>A slot of the keyspace, and the keyspace with one slot replaced.\<close>

definition get_slot :: "store \<Rightarrow> bytes \<Rightarrow> entry option" where
  "get_slot st key = map_of (sdata (getShard st key)) key"

definition upd_shard :: "nat \<Rightarrow> (shard \<Rightarrow> shard) \<Rightarrow> store \<Rightarrow> store" where
  "upd_shard i f st = st\<lparr>shards := (shards st)[i := f (shards st ! i)]\<rparr>"

definition put_slot :: "bytes \<Rightarrow> entry option \<Rightarrow> store \<Rightarrow> store" where
  "put_slot key slot st =
     upd_shard (shardIndex st key) (\<lambda>sh. sh\<lparr>sdata := gset key slot (sdata sh)\<rparr>) st"

definition liveSlot :: "int \<Rightarrow> entry option \<Rightarrow> entry option" where
  "liveSlot t slot = (case slot of None \<Rightarrow> None | Some e \<Rightarrow> if expired t e then None else Some e)"

definition liveEntry :: "store \<Rightarrow> bytes \<Rightarrow> int \<Rightarrow> entry option" where
  "liveEntry st key t = liveSlot t (get_slot st key)"

subsection \<open>Access tracking\<close>

definition touch :: "goenv \<Rightarrow> store \<Rightarrow> entry \<Rightarrow> entry" where
  "touch env st e =
     (case access st of
        trackNothing \<Rightarrow> e
      | trackAccessTime \<Rightarrow> e\<lparr>atime := wrap64 (now env)\<rparr>
      | trackFrequency \<Rightarrow>
          e\<lparr>freq := lfuAccess (draw env) (freq e) (lfuMinute (now env)) (lfuDecayTime st) (lfuLogFactor st)\<rparr>)"

subsection \<open>Byte accounting\<close>

record keyCost =
  kcBytes :: int
  kcVolatile :: bool
  kcPresent :: bool

abbreviation noCost :: keyCost where
  "noCost \<equiv> \<lparr>kcBytes = 0, kcVolatile = False, kcPresent = False\<rparr>"

definition chargeOf :: "store \<Rightarrow> bytes \<Rightarrow> keyCost" where
  "chargeOf st key =
     (case get_slot st key of
        None \<Rightarrow> noCost
      | Some e \<Rightarrow> \<lparr>kcBytes = entryCharge key e, kcVolatile = (expireAt e \<noteq> None), kcPresent = True\<rparr>)"

definition charge :: "store \<Rightarrow> bytes \<Rightarrow> keyCost" where
  "charge st key = (if \<not> memTrack st then noCost else chargeOf st key)"

definition countVolatile :: "keyCost \<Rightarrow> int" where
  "countVolatile c = (if kcPresent c \<and> kcVolatile c then 1 else 0)"

definition settle :: "bytes \<Rightarrow> keyCost \<Rightarrow> store \<Rightarrow> store" where
  "settle key before st =
     (if \<not> memTrack st then st
      else
        let after = chargeOf st key; d = kcBytes after - kcBytes before
        in (upd_shard (shardIndex st key)
              (\<lambda>sh. sh\<lparr>smem := smem sh + d,
                       svolatile := svolatile sh + (countVolatile after - countVolatile before)\<rparr>) st)
             \<lparr>mem := mem st + d\<rparr>)"

definition uncharge :: "bytes \<Rightarrow> entry \<Rightarrow> store \<Rightarrow> store" where
  "uncharge key e st =
     (if \<not> memTrack st then st
      else
        let d = entryCharge key e
        in (upd_shard (shardIndex st key)
              (\<lambda>sh. sh\<lparr>smem := smem sh - d,
                       svolatile := (if expireAt e \<noteq> None then svolatile sh - 1 else svolatile sh)\<rparr>) st)
             \<lparr>mem := mem st - d\<rparr>)"

definition trackedKeys :: "bytes list \<Rightarrow> (store \<Rightarrow> 'r \<times> store) \<Rightarrow> store \<Rightarrow> 'r \<times> store" where
  "trackedKeys keys body st =
     (if \<not> memTrack st then body st
      else
        let before = map (chargeOf st) keys; (r, st') = body st
        in (r, fold (\<lambda>(k, c). settle k c) (zip keys before) st'))"

subsection \<open>The shapes of an operation\<close>

definition write_key :: "bytes \<Rightarrow> (entry option \<Rightarrow> entry option \<times> 'r) \<Rightarrow> store \<Rightarrow> 'r \<times> store" where
  "write_key key body st =
     (let charged = charge st key;
          (slot, r) = body (get_slot st key)
      in (r, settle key charged (put_slot key slot st)))"

definition readEntry :: "bytes \<Rightarrow> int \<Rightarrow> store \<Rightarrow> entry option \<times> store" where
  "readEntry key t st =
     (case liveEntry st key t of
        None \<Rightarrow> (None, st\<lparr>keyspaceMisses := keyspaceMisses st + 1\<rparr>)
      | Some e \<Rightarrow> (Some e, st\<lparr>keyspaceHits := keyspaceHits st + 1\<rparr>))"

text \<open>A read: the result for a missing key, or a body that may record the access.\<close>

definition read_key :: "goenv \<Rightarrow> bytes \<Rightarrow> 'r \<Rightarrow> (entry \<Rightarrow> entry \<times> 'r) \<Rightarrow> store \<Rightarrow> 'r \<times> store" where
  "read_key env key missing body st =
     (case readEntry key (now env) st of
        (None, st') \<Rightarrow> (missing, st')
      | (Some e, st') \<Rightarrow> (let (e', r) = body e in (r, put_slot key (Some e') st')))"

subsection \<open>Well-formed keyspaces\<close>

definition store_wf :: "store \<Rightarrow> bool" where
  "store_wf st \<longleftrightarrow>
     (\<exists>n. length (shards st) = 2 ^ n \<and> unat (smask st) = 2 ^ n - 1) \<and>
     (\<forall>i < length (shards st). gmap_wf (sdata (shards st ! i)) \<and>
        (\<forall>k. map_of (sdata (shards st ! i)) k \<noteq> None \<longrightarrow> shardIndex st k = i))"

lemma shardIndex_bound: "store_wf st \<Longrightarrow> shardIndex st k < length (shards st)"
proof -
  assume "store_wf st"
  then obtain n where n: "length (shards st) = 2 ^ n" "unat (smask st) = 2 ^ n - 1"
    by (auto simp: store_wf_def)
  have "fnv1a k AND smask st \<le> smask st" by (simp add: word_and_le1)
  then have "unat (fnv1a k AND smask st) \<le> unat (smask st)" by (simp add: word_le_nat_alt)
  moreover have "0 < (2 :: nat) ^ n" by simp
  ultimately show ?thesis unfolding shardIndex_def n by linarith
qed

lemma upd_shard_simps [simp]:
  "smask (upd_shard i f st) = smask st" "length (shards (upd_shard i f st)) = length (shards st)"
  "memTrack (upd_shard i f st) = memTrack st" "mem (upd_shard i f st) = mem st"
  "access (upd_shard i f st) = access st"
  "shardIndex (upd_shard i f st) k = shardIndex st k"
  by (simp_all add: upd_shard_def shardIndex_def)

lemma shards_upd_shard: "i < length (shards st) \<Longrightarrow>
    shards (upd_shard i f st) ! j = (if j = i then f (shards st ! i) else shards st ! j)"
  by (simp add: upd_shard_def nth_list_update)

lemma put_slot_simps [simp]:
  "smask (put_slot k v st) = smask st" "length (shards (put_slot k v st)) = length (shards st)"
  "memTrack (put_slot k v st) = memTrack st" "mem (put_slot k v st) = mem st"
  "access (put_slot k v st) = access st" "shardIndex (put_slot k v st) k' = shardIndex st k'"
  by (simp_all add: put_slot_def)

lemma shards_put_slot: "store_wf st \<Longrightarrow> shards (put_slot k v st) ! j =
    (if j = shardIndex st k then (shards st ! j)\<lparr>sdata := gset k v (sdata (shards st ! j))\<rparr> else shards st ! j)"
  by (simp add: put_slot_def shards_upd_shard shardIndex_bound)

lemma get_put_slot: "store_wf st \<Longrightarrow> get_slot (put_slot k v st) k' = (if k' = k then v else get_slot st k')"
  by (auto simp: get_slot_def getShard_def shards_put_slot)

lemma wf_gmap: "store_wf st \<Longrightarrow> i < length (shards st) \<Longrightarrow> gmap_wf (sdata (shards st ! i))"
  unfolding store_wf_def by blast

lemma wf_index:
  "store_wf st \<Longrightarrow> i < length (shards st) \<Longrightarrow> map_of (sdata (shards st ! i)) k \<noteq> None \<Longrightarrow> shardIndex st k = i"
  unfolding store_wf_def by blast

lemma put_slot_wf: "store_wf st \<Longrightarrow> store_wf (put_slot k v st)"
proof -
  assume w: "store_wf st"
  have g: "\<exists>n. length (shards (put_slot k v st)) = 2 ^ n \<and> unat (smask (put_slot k v st)) = 2 ^ n - 1"
    using w unfolding store_wf_def put_slot_simps by blast
  have "gmap_wf (sdata (shards (put_slot k v st) ! i)) \<and>
    (map_of (sdata (shards (put_slot k v st) ! i)) k' \<noteq> None \<longrightarrow> shardIndex (put_slot k v st) k' = i)"
    if i: "i < length (shards st)" for i k'
  proof (cases "i = shardIndex st k")
    case True
    have "shardIndex st k' = i" if "k' \<noteq> k" "map_of (sdata (shards st ! i)) k' \<noteq> None"
      using wf_index [OF w i that(2)] .
    then show ?thesis using True wf_gmap [OF w i]
      unfolding shards_put_slot [OF w] put_slot_simps by (cases "k' = k") auto
  next
    case False
    then show ?thesis using wf_gmap [OF w i] wf_index [OF w i, of k']
      unfolding shards_put_slot [OF w] put_slot_simps by presburger
  qed
  with g show ?thesis unfolding store_wf_def put_slot_simps(2) by blast
qed

text \<open>\<open>data_only keys st st'\<close>: from \<open>st\<close> to \<open>st'\<close> only the slots of the keys have changed.\<close>

definition data_only :: "bytes list \<Rightarrow> store \<Rightarrow> store \<Rightarrow> bool" where
  "data_only keys st st' \<longleftrightarrow>
     st'\<lparr>shards := []\<rparr> = st\<lparr>shards := []\<rparr> \<and> length (shards st') = length (shards st) \<and>
     (\<forall>i < length (shards st). smem (shards st' ! i) = smem (shards st ! i) \<and>
        svolatile (shards st' ! i) = svolatile (shards st ! i)) \<and>
     store_wf st' \<and> (\<forall>k. k \<notin> set keys \<longrightarrow> get_slot st' k = get_slot st k)"

lemma data_only_refl: "store_wf st \<Longrightarrow> data_only ks st st"
  by (simp add: data_only_def)

lemma data_only_put: "store_wf st \<Longrightarrow> k \<in> set ks \<Longrightarrow> data_only ks st (put_slot k v st)"
  by (auto simp: data_only_def put_slot_wf get_put_slot shards_put_slot) (simp add: put_slot_def upd_shard_def)

lemma data_only_trans:
  "data_only ks st st' \<Longrightarrow> data_only ks st' st'' \<Longrightarrow> data_only ks st st''"
  by (simp add: data_only_def)

lemma data_only_simps:
  assumes "data_only ks st st'"
  shows "smask st' = smask st" "memTrack st' = memTrack st" "mem st' = mem st" "access st' = access st"
    "shardIndex st' k = shardIndex st k"
proof -
  have e: "st'\<lparr>shards := []\<rparr> = st\<lparr>shards := []\<rparr>" using assms by (simp add: data_only_def)
  show "smask st' = smask st" "memTrack st' = memTrack st" "mem st' = mem st" "access st' = access st"
    using arg_cong [OF e, of smask] arg_cong [OF e, of memTrack] arg_cong [OF e, of mem] arg_cong [OF e, of access]
    by simp_all
  then show "shardIndex st' k = shardIndex st k" by (simp add: shardIndex_def)
qed

subsection \<open>Exact accounting\<close>

definition entryVolatile :: "bytes \<Rightarrow> entry \<Rightarrow> int" where
  "entryVolatile k e = (if expireAt e \<noteq> None then 1 else 0)"

definition mem_inv :: "store \<Rightarrow> bool" where
  "mem_inv st \<longleftrightarrow>
     mem st = sum_list (map smem (shards st)) \<and>
     (memTrack st \<longrightarrow>
       (\<forall>i < length (shards st). smem (shards st ! i) = gsum entryCharge (sdata (shards st ! i)) \<and>
          svolatile (shards st ! i) = gsum entryVolatile (sdata (shards st ! i))))"

lemma chargeOf_simps:
  "kcBytes (chargeOf st k) = gopt entryCharge k (get_slot st k)"
  "countVolatile (chargeOf st k) = gopt entryVolatile k (get_slot st k)"
  by (auto simp: chargeOf_def countVolatile_def gopt_def entryVolatile_def split: option.split)

lemma settle_slots [simp]: "get_slot (settle k c st) k' = get_slot st k'"
proof (cases "shardIndex st k < length (shards st)")
  case True
  then show ?thesis
    by (auto simp: settle_def Let_def get_slot_def getShard_def shardIndex_def upd_shard_def nth_list_update)
next
  case False
  then show ?thesis
    by (simp add: settle_def Let_def get_slot_def getShard_def shardIndex_def upd_shard_def list_update_beyond)
qed

lemma settle_simps [simp]:
  "smask (settle k c st) = smask st" "memTrack (settle k c st) = memTrack st"
  "length (shards (settle k c st)) = length (shards st)" "access (settle k c st) = access st"
  "shardIndex (settle k c st) k' = shardIndex st k'"
  by (simp_all add: settle_def Let_def shardIndex_def upd_shard_def)

lemma chargeOf_settle [simp]: "chargeOf (settle k c st) k' = chargeOf st k'"
  by (simp add: chargeOf_def)

lemma settle_shard:
  assumes "store_wf st" "memTrack st" "i < length (shards st)"
  shows "sdata (shards (settle k c st) ! i) = sdata (shards st ! i)"
    and "smem (shards (settle k c st) ! i) = smem (shards st ! i) +
           (if i = shardIndex st k then gopt entryCharge k (get_slot st k) - kcBytes c else 0)"
    and "svolatile (shards (settle k c st) ! i) = svolatile (shards st ! i) +
           (if i = shardIndex st k then gopt entryVolatile k (get_slot st k) - countVolatile c else 0)"
  using assms shardIndex_bound [OF assms(1), of k]
  by (simp_all add: settle_def Let_def upd_shard_def nth_list_update chargeOf_simps)

lemma settle_wf:
  assumes "store_wf st"
  shows "store_wf (settle k c st)"
proof (cases "memTrack st")
  case True
  with assms settle_shard(1) [OF assms True] show ?thesis by (simp add: store_wf_def)
next
  case False
  with assms show ?thesis by (simp add: settle_def)
qed

lemma settle_mem: "memTrack st \<Longrightarrow> mem (settle k c st) = mem st + (gopt entryCharge k (get_slot st k) - kcBytes c)"
  by (simp add: settle_def Let_def chargeOf_simps)

text \<open>The keys that hash to one shard.\<close>

definition at_shard :: "store \<Rightarrow> nat \<Rightarrow> bytes list \<Rightarrow> bytes set" where
  "at_shard st i ks = {k \<in> set ks. shardIndex st k = i}"

lemma fold_settle:
  fixes c :: "bytes \<Rightarrow> keyCost"
  assumes "store_wf st" "memTrack st" "distinct ks"
  defines "S \<equiv> fold (\<lambda>(k, c). settle k c) (map (\<lambda>k. (k, c k)) ks) st"
  shows "store_wf S" "memTrack S" "smask S = smask st" "length (shards S) = length (shards st)"
    "get_slot S k' = get_slot st k'" "access S = access st"
    and "mem S = mem st + (\<Sum>k \<in> set ks. gopt entryCharge k (get_slot st k) - kcBytes (c k))"
    and "i < length (shards st) \<Longrightarrow> sdata (shards S ! i) = sdata (shards st ! i)"
    and "i < length (shards st) \<Longrightarrow> smem (shards S ! i) = smem (shards st ! i) +
           (\<Sum>k \<in> at_shard st i ks. gopt entryCharge k (get_slot st k) - kcBytes (c k))"
    and "i < length (shards st) \<Longrightarrow> svolatile (shards S ! i) = svolatile (shards st ! i) +
           (\<Sum>k \<in> at_shard st i ks. gopt entryVolatile k (get_slot st k) - countVolatile (c k))"
proof -
  have "store_wf S \<and> memTrack S \<and> smask S = smask st \<and> length (shards S) = length (shards st) \<and>
      (\<forall>k'. get_slot S k' = get_slot st k') \<and> access S = access st \<and>
      mem S = mem st + (\<Sum>k \<in> set ks. gopt entryCharge k (get_slot st k) - kcBytes (c k)) \<and>
      (\<forall>i < length (shards st). sdata (shards S ! i) = sdata (shards st ! i) \<and>
         smem (shards S ! i) = smem (shards st ! i) +
           (\<Sum>k \<in> at_shard st i ks. gopt entryCharge k (get_slot st k) - kcBytes (c k)) \<and>
         svolatile (shards S ! i) = svolatile (shards st ! i) +
           (\<Sum>k \<in> at_shard st i ks. gopt entryVolatile k (get_slot st k) - countVolatile (c k)))"
    unfolding S_def using assms(1-3)
  proof (induction ks arbitrary: st)
    case Nil
    then show ?case by (simp add: at_shard_def)
  next
    case (Cons k ks)
    let ?T = "settle k (c k) st"
    have T: "store_wf ?T" "memTrack ?T" "distinct ks" using Cons.prems by (simp_all add: settle_wf)
    have a: "at_shard ?T i ks = at_shard st i ks" for i by (simp add: at_shard_def)
    have b: "at_shard st i (k # ks) = (if shardIndex st k = i then insert k (at_shard st i ks) else at_shard st i ks)" for i
      by (auto simp: at_shard_def)
    have n: "k \<notin> at_shard st i ks" "finite (at_shard st i ks)" for i using Cons.prems(3) by (auto simp: at_shard_def)
    note sh = settle_shard [OF Cons.prems(1,2), of _ k "c k"]
    have x: "(\<Sum>k' \<in> at_shard st i (k # ks). g k') =
        (if shardIndex st k = i then g k else 0) + (\<Sum>k' \<in> at_shard st i ks. g k')" for i and g :: "bytes \<Rightarrow> int"
      using n [of i] by (simp add: b)
    have y: "(\<Sum>k' \<in> set (k # ks). g k') = g k + (\<Sum>k' \<in> set ks. g k')" for g :: "bytes \<Rightarrow> int"
      using Cons.prems(3) by simp
    note IH = Cons.IH [OF T, unfolded a settle_slots settle_simps]
    have F: "fold (\<lambda>(k, c). settle k c) (map (\<lambda>k. (k, c k)) (k # ks)) st =
        fold (\<lambda>(k, c). settle k c) (map (\<lambda>k. (k, c k)) ks) ?T" by simp
    show ?case
      unfolding F x y using IH sh settle_mem [OF Cons.prems(2), of k "c k"] by simp
  qed
  then show "store_wf S" "memTrack S" "smask S = smask st" "length (shards S) = length (shards st)"
    "get_slot S k' = get_slot st k'" "access S = access st"
    "mem S = mem st + (\<Sum>k \<in> set ks. gopt entryCharge k (get_slot st k) - kcBytes (c k))"
    "i < length (shards st) \<Longrightarrow> sdata (shards S ! i) = sdata (shards st ! i)"
    "i < length (shards st) \<Longrightarrow> smem (shards S ! i) = smem (shards st ! i) +
           (\<Sum>k \<in> at_shard st i ks. gopt entryCharge k (get_slot st k) - kcBytes (c k))"
    "i < length (shards st) \<Longrightarrow> svolatile (shards S ! i) = svolatile (shards st ! i) +
           (\<Sum>k \<in> at_shard st i ks. gopt entryVolatile k (get_slot st k) - countVolatile (c k))"
    by blast+
qed

lemma gsum_as_sum:
  assumes "gmap_wf m" "finite K" "fst ` set m \<subseteq> K"
  shows "gsum f m = (\<Sum>k \<in> K. gopt f k (map_of m k))"
  using assms
proof (induction m arbitrary: K)
  case Nil
  then show ?case by simp
next
  case (Cons kv m)
  obtain k v where kv: "kv = (k, v)" by (cases kv)
  have k: "k \<in> K" "map_of m k = None" and m: "gmap_wf m" "fst ` set m \<subseteq> K - {k}"
    using Cons.prems kv by (auto simp: map_of_eq_None_iff)
  have "(\<Sum>k' \<in> K. gopt f k' (map_of (kv # m) k')) = f k v + (\<Sum>k' \<in> K - {k}. gopt f k' (map_of (kv # m) k'))"
    using Cons.prems(2) k(1) by (simp add: sum.remove [of K k] kv)
  also have "(\<Sum>k' \<in> K - {k}. gopt f k' (map_of (kv # m) k')) = (\<Sum>k' \<in> K - {k}. gopt f k' (map_of m k'))"
    by (rule sum.cong) (auto simp: kv)
  also have "\<dots> = gsum f m" using Cons.IH [OF m(1) _ m(2)] Cons.prems(2) by simp
  finally show ?case by (simp add: kv)
qed

lemma gsum_diff:
  assumes "gmap_wf m" "gmap_wf m'" "finite K" "\<And>k. k \<notin> K \<Longrightarrow> map_of m' k = map_of m k"
  shows "gsum f m' = gsum f m + (\<Sum>k \<in> K. gopt f k (map_of m' k) - gopt f k (map_of m k))"
proof -
  let ?D = "fst ` set m \<union> fst ` set m' \<union> K"
  have "gsum f m' - gsum f m = (\<Sum>k \<in> ?D. gopt f k (map_of m' k) - gopt f k (map_of m k))"
  proof -
    have "gsum f m = (\<Sum>k \<in> ?D. gopt f k (map_of m k))" "gsum f m' = (\<Sum>k \<in> ?D. gopt f k (map_of m' k))"
      by (rule gsum_as_sum; use assms in auto)+
    then show ?thesis by (simp add: sum_subtractf)
  qed
  also have "\<dots> = (\<Sum>k \<in> K. gopt f k (map_of m' k) - gopt f k (map_of m k))"
    using assms by (intro sum.mono_neutral_right) auto
  finally show ?thesis by simp
qed

lemma slot_shard: "shardIndex st k = i \<Longrightarrow> map_of (sdata (shards st ! i)) k = get_slot st k"
  by (simp add: get_slot_def getShard_def)

lemma slot_other_shard:
  "store_wf st \<Longrightarrow> i < length (shards st) \<Longrightarrow> shardIndex st k \<noteq> i \<Longrightarrow> map_of (sdata (shards st ! i)) k = None"
  using wf_index by blast

lemma shard_gsum_change:
  assumes "store_wf st" "store_wf st'" "length (shards st') = length (shards st)" "smask st' = smask st"
    and "\<And>k. k \<notin> set ks \<Longrightarrow> get_slot st' k = get_slot st k" and i: "i < length (shards st)"
  shows "gsum f (sdata (shards st' ! i)) = gsum f (sdata (shards st ! i)) +
     (\<Sum>k \<in> at_shard st i ks. gopt f k (get_slot st' k) - gopt f k (get_slot st k))"
proof -
  have idx: "shardIndex st' k = shardIndex st k" for k by (simp add: shardIndex_def assms(4))
  have "map_of (sdata (shards st' ! i)) k = map_of (sdata (shards st ! i)) k" if "k \<notin> at_shard st i ks" for k
  proof (cases "shardIndex st k = i")
    case True
    with that have "k \<notin> set ks" by (simp add: at_shard_def)
    with True show ?thesis using assms(5) idx by (simp add: slot_shard)
  next
    case False
    then show ?thesis
      using slot_other_shard [OF assms(1) i] slot_other_shard [OF assms(2), of i k] i assms(3) idx by simp
  qed
  moreover have "finite (at_shard st i ks)" by (simp add: at_shard_def)
  moreover have "gmap_wf (sdata (shards st ! i))" "gmap_wf (sdata (shards st' ! i))"
    using wf_gmap [OF assms(1) i] wf_gmap [OF assms(2), of i] i assms(3) by simp_all
  ultimately have "gsum f (sdata (shards st' ! i)) = gsum f (sdata (shards st ! i)) +
     (\<Sum>k \<in> at_shard st i ks. gopt f k (map_of (sdata (shards st' ! i)) k) - gopt f k (map_of (sdata (shards st ! i)) k))"
    by (intro gsum_diff)
  also have "(\<Sum>k \<in> at_shard st i ks. gopt f k (map_of (sdata (shards st' ! i)) k) - gopt f k (map_of (sdata (shards st ! i)) k)) =
     (\<Sum>k \<in> at_shard st i ks. gopt f k (get_slot st' k) - gopt f k (get_slot st k))"
    by (rule sum.cong) (auto simp: at_shard_def slot_shard idx)
  finally show ?thesis .
qed

lemma sum_at_shards:
  assumes "store_wf st"
  shows "(\<Sum>i < length (shards st). \<Sum>k \<in> at_shard st i ks. g k) = (\<Sum>k \<in> set ks. (g k :: int))"
proof -
  have "shardIndex st ` set ks \<subseteq> {..<length (shards st)}"
    using shardIndex_bound [OF assms] by auto
  then show ?thesis
    unfolding at_shard_def by (intro sum.group) auto
qed

lemma mem_sum: "sum_list (map smem (shards st)) = (\<Sum>i < length (shards st). smem (shards st ! i))"
  by (simp add: sum_list_sum_nth atLeast0LessThan)

lemma zip_map_self: "zip ks (map f ks) = map (\<lambda>k. (k, f k)) ks"
  by (induction ks) auto

lemma trackedKeys_unfold:
  "trackedKeys keys body st =
     (fst (body st), if memTrack st then fold (\<lambda>(k, c). settle k c) (map (\<lambda>k. (k, chargeOf st k)) keys) (snd (body st))
                     else snd (body st))"
  by (simp add: trackedKeys_def Let_def zip_map_self split_def)

lemma data_onlyD:
  assumes "data_only ks st st'"
  shows "store_wf st'" "length (shards st') = length (shards st)"
    "k \<notin> set ks \<Longrightarrow> get_slot st' k = get_slot st k"
    "i < length (shards st) \<Longrightarrow> smem (shards st' ! i) = smem (shards st ! i)"
    "i < length (shards st) \<Longrightarrow> svolatile (shards st' ! i) = svolatile (shards st ! i)"
  using assms unfolding data_only_def by blast+

text \<open>Everything but the shards and the total is configuration and counters.\<close>

definition rest :: "store \<Rightarrow> store" where
  "rest st = st\<lparr>shards := [], mem := 0\<rparr>"

lemma settle_rest [simp]: "rest (settle k c st) = rest st"
  by (simp add: rest_def settle_def Let_def upd_shard_def)

lemma fold_settle_rest: "rest (fold (\<lambda>(k, c). settle k c) kcs st) = rest st"
  by (induction kcs arbitrary: st) auto

lemma restD:
  assumes "rest st = rest st'"
  shows "smask st = smask st'" "memTrack st = memTrack st'" "access st = access st'"
    "keyspaceHits st = keyspaceHits st'" "keyspaceMisses st = keyspaceMisses st'" "maxKeys st = maxKeys st'"
    "encoding st = encoding st'" "lfuDecayTime st = lfuDecayTime st'" "lfuLogFactor st = lfuLogFactor st'"
  using arg_cong [OF assms, of smask] arg_cong [OF assms, of memTrack] arg_cong [OF assms, of access]
    arg_cong [OF assms, of keyspaceHits] arg_cong [OF assms, of keyspaceMisses] arg_cong [OF assms, of maxKeys]
    arg_cong [OF assms, of encoding] arg_cong [OF assms, of lfuDecayTime] arg_cong [OF assms, of lfuLogFactor]
  by (simp_all add: rest_def)

lemma data_only_rest: "data_only ks st st' \<Longrightarrow> rest st' = rest st"
proof -
  assume "data_only ks st st'"
  then have "(st'\<lparr>shards := []\<rparr>)\<lparr>mem := 0\<rparr> = (st\<lparr>shards := []\<rparr>)\<lparr>mem := 0\<rparr>" by (simp add: data_only_def)
  then show ?thesis by (simp add: rest_def)
qed

lemma trackedKeys_inv:
  assumes wf: "store_wf st" and inv: "mem_inv st" and d: "distinct keys"
    and body: "data_only keys st (snd (body st))"
  defines "S \<equiv> snd (trackedKeys keys body st)"
  shows "store_wf S" "mem_inv S" "get_slot S k = get_slot (snd (body st)) k" "rest S = rest st"
proof -
  let ?T = "snd (body st)"
  note D = data_onlyD [OF body] and E = data_only_simps [OF body]
  have R: "rest ?T = rest st" by (rule data_only_rest [OF body])
  have "store_wf S \<and> mem_inv S \<and> (\<forall>k. get_slot S k = get_slot ?T k) \<and> rest S = rest st"
  proof (cases "memTrack st")
    case False
    have "sum_list (map smem (shards ?T)) = sum_list (map smem (shards st))"
      unfolding mem_sum using D(2,4) by simp
    then have "mem_inv ?T" using inv False E by (simp add: mem_inv_def)
    with False D(1) R show ?thesis by (simp add: S_def trackedKeys_unfold)
  next
    case True
    then have T: "memTrack ?T" using E by simp
    let ?c = "chargeOf st"
    have S: "S = fold (\<lambda>(k, c). settle k c) (map (\<lambda>k. (k, ?c k)) keys) ?T"
      using True by (simp add: S_def trackedKeys_unfold)
    note F = fold_settle [OF D(1) T d, where c = ?c, folded S]
    have at: "at_shard ?T i keys = at_shard st i keys" for i using E(5) by (simp add: at_shard_def)
    have m: "smem (shards S ! i) = gsum entryCharge (sdata (shards S ! i))"
      "svolatile (shards S ! i) = gsum entryVolatile (sdata (shards S ! i))" if i: "i < length (shards st)" for i
      using inv True i D(2,4,5) F(8-10) [of i] shard_gsum_change [OF wf D(1,2) E(1) D(3) i]
      unfolding mem_inv_def by (simp_all add: at chargeOf_simps)
    have "mem S = (\<Sum>i < length (shards st). smem (shards st ! i)) +
        (\<Sum>k \<in> set keys. gopt entryCharge k (get_slot ?T k) - kcBytes (?c k))"
      using F(7) E(3) inv by (simp add: mem_inv_def mem_sum)
    also have "\<dots> = (\<Sum>i < length (shards S). smem (shards S ! i))"
      unfolding sum_at_shards [OF D(1), symmetric] using F(4,9) D(2,4)
      by (simp add: sum.distrib)
    finally have "mem S = sum_list (map smem (shards S))" by (simp add: mem_sum)
    with m F(4) D(2) have "mem_inv S" by (simp add: mem_inv_def)
    moreover have "rest S = rest st" unfolding S fold_settle_rest R ..
    ultimately show ?thesis using F(1,5) by simp
  qed
  then show "store_wf S" "mem_inv S" "get_slot S k = get_slot ?T k" "rest S = rest st" by auto
qed

text \<open>Settling a key twice counts a change twice; it is harmless when the key is listed once, or
  when the write leaves what the keys cost.\<close>

definition settles :: "bytes list \<Rightarrow> store \<Rightarrow> store \<Rightarrow> bool" where
  "settles keys st st' \<longleftrightarrow> distinct keys \<or> (\<forall>k \<in> set keys. chargeOf st' k = chargeOf st k)"

lemma settle_unchanged: "store_wf st \<Longrightarrow> chargeOf st k = c \<Longrightarrow> settle k c st = st"
  by (auto simp: settle_def Let_def upd_shard_def)

lemma fold_settle_unchanged:
  "\<forall>k \<in> set keys. chargeOf st k = c k \<Longrightarrow> store_wf st \<Longrightarrow> fold (\<lambda>(k, c). settle k c) (map (\<lambda>k. (k, c k)) keys) st = st"
  by (induction keys) (auto simp: settle_unchanged)

lemma trackedKeys_mem:
  assumes wf: "store_wf st" and inv: "mem_inv st" and body: "data_only keys st (snd (body st))"
    and s: "settles keys st (snd (body st))"
  shows "mem_inv (snd (trackedKeys keys body st))"
proof (cases "distinct keys")
  case False
  with s have u: "\<forall>k \<in> set keys. chargeOf (snd (body st)) k = chargeOf st k" by (auto simp: settles_def)
  have "snd (trackedKeys keys body st) = snd (body st)" "snd (trackedKeys (remdups keys) body st) = snd (body st)"
    using fold_settle_unchanged [OF _ data_onlyD(1) [OF body]] u by (simp_all add: trackedKeys_unfold)
  moreover have "data_only (remdups keys) st (snd (body st))" using body by (simp add: data_only_def)
  ultimately show ?thesis using trackedKeys_inv(2) [OF wf inv, of "remdups keys" body] by simp
qed (use trackedKeys_inv(2) [of st keys body] wf inv body in simp)

lemma fold_settle_keeps:
  "store_wf st \<Longrightarrow> store_wf (fold (\<lambda>(k, c). settle k c) kcs st)"
  "get_slot (fold (\<lambda>(k, c). settle k c) kcs st) k = get_slot st k"
  by (induction kcs arbitrary: st) (auto simp: settle_wf)

lemma trackedKeys_keeps:
  assumes "data_only keys st (snd (body st))"
  shows "store_wf (snd (trackedKeys keys body st))"
    "get_slot (snd (trackedKeys keys body st)) k = get_slot (snd (body st)) k"
    "rest (snd (trackedKeys keys body st)) = rest st"
  using data_onlyD(1) [OF assms] data_only_rest [OF assms]
  by (simp_all add: trackedKeys_unfold fold_settle_keeps fold_settle_rest)

lemma trackedKeys_fst: "fst (trackedKeys keys body st) = fst (body st)"
  by (simp add: trackedKeys_unfold)

lemma write_key_tracked:
  "write_key key body st =
     trackedKeys [key] (\<lambda>st. (snd (body (get_slot st key)), put_slot key (fst (body (get_slot st key))) st)) st"
  by (simp add: write_key_def trackedKeys_unfold Let_def split_def charge_def) (simp add: settle_def)

lemma write_key_props:
  assumes "store_wf st"
  shows "fst (write_key key body st) = snd (body (get_slot st key))"
    and "get_slot (snd (write_key key body st)) k =
           (if k = key then fst (body (get_slot st key)) else get_slot st k)"
    and "rest (snd (write_key key body st)) = rest st"
    and "store_wf (snd (write_key key body st))"
proof -
  have p: "rest (put_slot key v st) = rest st" for v by (rule data_only_rest [OF data_only_put [OF assms, of key "[key]"]]) simp
  show "fst (write_key key body st) = snd (body (get_slot st key))"
    "get_slot (snd (write_key key body st)) k =
           (if k = key then fst (body (get_slot st key)) else get_slot st k)"
    "rest (snd (write_key key body st)) = rest st" "store_wf (snd (write_key key body st))"
    by (simp_all add: write_key_def Let_def split_def get_put_slot assms settle_wf put_slot_wf p)
qed

lemma write_key_mem: "store_wf st \<Longrightarrow> mem_inv st \<Longrightarrow> mem_inv (snd (write_key key body st))"
  unfolding write_key_tracked by (rule trackedKeys_inv(2)) (simp_all add: data_only_put)

subsection \<open>The invariant of a store\<close>

text \<open>A slot is empty or holds a well-formed value, and no collection in it is empty.\<close>

definition slot_ok :: "entry option \<Rightarrow> bool" where
  "slot_ok slot \<longleftrightarrow> (\<forall>e. slot = Some e \<longrightarrow> entry_ok e \<and> val_nonempty (val e))"

definition store_inv :: "store \<Rightarrow> bool" where
  "store_inv st \<longleftrightarrow> store_wf st \<and> mem_inv st \<and> (\<forall>k. slot_ok (get_slot st k))"

lemma slot_ok_simps [simp]:
  "slot_ok None" "slot_ok (Some e) \<longleftrightarrow> entry_ok e \<and> val_nonempty (val e)"
  by (simp_all add: slot_ok_def)

lemma store_invD: "store_inv st \<Longrightarrow> store_wf st" "store_inv st \<Longrightarrow> mem_inv st" "store_inv st \<Longrightarrow> slot_ok (get_slot st k)"
  by (simp_all add: store_inv_def)

text \<open>A single-key write: what it returns, what it leaves under its key, and that it changes nothing else.\<close>

locale slot_writer =
  fixes op :: "store \<Rightarrow> 'r \<times> store" and key :: bytes
    and body :: "store \<Rightarrow> entry option \<Rightarrow> entry option \<times> 'r"
  assumes op_eq: "store_wf st \<Longrightarrow> op st = write_key key (body st) st"
begin

lemma result: "store_wf st \<Longrightarrow> fst (op st) = snd (body st (get_slot st key))"
  by (simp add: op_eq write_key_def Let_def split_def)

lemma slot: "store_wf st \<Longrightarrow> get_slot (snd (op st)) key = fst (body st (get_slot st key))"
  by (simp add: op_eq write_key_props)

lemma frame: "store_wf st \<Longrightarrow> k \<noteq> key \<Longrightarrow> get_slot (snd (op st)) k = get_slot st k"
  by (simp add: op_eq write_key_props)

lemma rest_same: "store_wf st \<Longrightarrow> rest (snd (op st)) = rest st"
  by (simp add: op_eq write_key_props)

end

text \<open>Under a condition on its arguments the body keeps the slot well formed, and so the operation the store.\<close>

locale key_writer_if = slot_writer op key body
  for op :: "store \<Rightarrow> 'r \<times> store" and key :: bytes
    and body :: "store \<Rightarrow> entry option \<Rightarrow> entry option \<times> 'r" +
  fixes pre :: bool
  assumes body_ok_if: "pre \<Longrightarrow> slot_ok slot \<Longrightarrow> slot_ok (fst (body st slot))"
begin

lemma inv_if: "pre \<Longrightarrow> store_inv st \<Longrightarrow> store_inv (snd (op st))"
  using body_ok_if by (simp add: store_inv_def op_eq write_key_props write_key_mem)

end

locale key_writer = slot_writer op key body
  for op :: "store \<Rightarrow> 'r \<times> store" and key :: bytes
    and body :: "store \<Rightarrow> entry option \<Rightarrow> entry option \<times> 'r" +
  assumes body_ok: "slot_ok slot \<Longrightarrow> slot_ok (fst (body st slot))"

sublocale key_writer \<subseteq> always: key_writer_if op key body True
  by unfold_locales (rule body_ok)

context key_writer
begin

lemma inv: "store_inv st \<Longrightarrow> store_inv (snd (op st))"
  by (rule always.inv_if [OF TrueI])

end

text \<open>A multi-key write: only the named keys change.\<close>

locale keys_writer =
  fixes op :: "store \<Rightarrow> 'r \<times> store" and keys :: "bytes list" and body :: "store \<Rightarrow> 'r \<times> store"
    and pre :: bool
  assumes op_eq: "store_wf st \<Longrightarrow> op st = trackedKeys keys body st"
    and body_data: "pre \<Longrightarrow> store_inv st \<Longrightarrow> data_only keys st (snd (body st))"
    and body_ok: "pre \<Longrightarrow> store_inv st \<Longrightarrow> slot_ok (get_slot (snd (body st)) k)"
begin

lemma result: "store_wf st \<Longrightarrow> fst (op st) = fst (body st)"
  by (simp add: op_eq trackedKeys_fst)

lemma slot: "store_inv st \<Longrightarrow> pre \<Longrightarrow> get_slot (snd (op st)) k = get_slot (snd (body st)) k"
  using trackedKeys_keeps(2) [of keys st body] body_data [of st] by (simp add: op_eq store_invD)

lemma frame: "store_inv st \<Longrightarrow> pre \<Longrightarrow> k \<notin> set keys \<Longrightarrow> get_slot (snd (op st)) k = get_slot st k"
  using data_onlyD(3) [of keys st "snd (body st)" k] body_data [of st] by (simp add: slot)

lemma rest_same: "store_inv st \<Longrightarrow> pre \<Longrightarrow> rest (snd (op st)) = rest st"
  using trackedKeys_keeps(3) [of keys st body] body_data [of st] by (simp add: op_eq store_invD)

lemma inv_settles:
  assumes "store_inv st" pre "settles keys st (snd (body st))"
  shows "store_inv (snd (op st))"
  using trackedKeys_mem [of st keys body] trackedKeys_keeps(1) [of keys st body] body_data [of st] body_ok [of st] assms
  by (simp add: store_inv_def [of "snd (op st)"] slot) (simp add: op_eq store_invD)

lemma inv: "store_inv st \<Longrightarrow> pre \<Longrightarrow> distinct keys \<Longrightarrow> store_inv (snd (op st))"
  by (rule inv_settles) (simp_all add: settles_def)

end

subsection \<open>Reads\<close>

text \<open>A read may record an access and nothing else.\<close>

definition same_value :: "entry \<Rightarrow> entry \<Rightarrow> bool" where
  "same_value e e' \<longleftrightarrow> e' = e\<lparr>atime := atime e', freq := freq e'\<rparr>"

lemma same_valueD:
  assumes "same_value e e'"
  shows "val e' = val e" "expireAt e' = expireAt e" "origin e' = origin e" "eBytes e' = eBytes e"
proof -
  have "e' = e\<lparr>atime := atime e', freq := freq e'\<rparr>" using assms by (simp add: same_value_def)
  then show "val e' = val e" "expireAt e' = expireAt e" "origin e' = origin e" "eBytes e' = eBytes e"
    by (metis entry.select_convs entry.update_convs entry.surjective)+
qed

lemma same_value_refl [simp]: "same_value e e"
  by (simp add: same_value_def)

lemma same_value_touch [simp]: "same_value e (touch env st e)"
  by (simp add: same_value_def touch_def split: accessTracking.split)

lemma touch_simps [simp]:
  "val (touch env st e) = val e" "expireAt (touch env st e) = expireAt e" "origin (touch env st e) = origin e"
  "eBytes (touch env st e) = eBytes e"
  by (simp_all add: touch_def split: accessTracking.split)

lemma same_value_props:
  assumes "same_value e e'"
  shows "entry_ok e' = entry_ok e" "entryCharge k e' = entryCharge k e" "entryVolatile k e' = entryVolatile k e"
    "expired t e' = expired t e"
  using same_valueD [OF assms]
  by (simp_all add: entry_ok_def entryCharge_def entryPayload_def entryVolatile_def expired_def split: val.split)

lemma entry_ok_touch [simp]: "entry_ok (touch env st e) = entry_ok e"
  by (rule same_value_props) simp

lemma put_same_inv:
  assumes "store_inv st" "get_slot st k = Some e" "same_value e e'"
  shows "store_inv (put_slot k (Some e') st)"
proof -
  let ?T = "put_slot k (Some e') st"
  note w = store_invD(1) [OF assms(1)]
  have d: "data_only [k] st ?T" using w by (intro data_only_put) simp_all
  note D = data_onlyD [OF d] and E = data_only_simps [OF d]
  have z: "gopt f k' (get_slot ?T k') = gopt f k' (get_slot st k')"
    if "f = entryCharge \<or> f = entryVolatile" for f k'
    using that assms(2) same_value_props(2,3) [OF assms(3)] by (auto simp: get_put_slot [OF w])
  have s: "gsum f (sdata (shards ?T ! i)) = gsum f (sdata (shards st ! i))"
    if "f = entryCharge \<or> f = entryVolatile" "i < length (shards st)" for f i
    using shard_gsum_change [OF w D(1,2) E(1) D(3) that(2), where f = f and ks = "[k]"] z [OF that(1)] by simp
  have "sum_list (map smem (shards ?T)) = sum_list (map smem (shards st))"
    unfolding mem_sum using D(2,4) by simp
  then have "mem_inv ?T"
    using store_invD(2) [OF assms(1)] D(2,4,5) E s unfolding mem_inv_def by simp
  moreover have "slot_ok (get_slot ?T k')" for k'
    using store_invD(3) [OF assms(1), of k'] assms(2) same_value_props(1) [OF assms(3)] same_valueD(1) [OF assms(3)]
    by (auto simp: get_put_slot [OF w])
  ultimately show ?thesis using D(1) by (simp add: store_inv_def)
qed

lemma store_inv_cong:
  assumes "shards st' = shards st" "smask st' = smask st" "memTrack st' = memTrack st" "mem st' = mem st"
  shows "store_inv st' = store_inv st" "store_wf st' = store_wf st" "get_slot st' k = get_slot st k"
  by (simp_all add: store_inv_def store_wf_def mem_inv_def get_slot_def getShard_def shardIndex_def assms)

lemma counters_simps [simp]:
  "store_inv (st\<lparr>keyspaceHits := n\<rparr>) = store_inv st" "store_inv (st\<lparr>keyspaceMisses := n\<rparr>) = store_inv st"
  "store_wf (st\<lparr>keyspaceHits := n\<rparr>) = store_wf st" "store_wf (st\<lparr>keyspaceMisses := n\<rparr>) = store_wf st"
  "get_slot (st\<lparr>keyspaceHits := n\<rparr>) k = get_slot st k" "get_slot (st\<lparr>keyspaceMisses := n\<rparr>) k = get_slot st k"
  by (rule store_inv_cong; simp)+

lemma read_key_unfold:
  "read_key env key missing body st =
     (case liveEntry st key (now env) of
        None \<Rightarrow> (missing, st\<lparr>keyspaceMisses := keyspaceMisses st + 1\<rparr>)
      | Some e \<Rightarrow> (snd (body e), put_slot key (Some (fst (body e))) (st\<lparr>keyspaceHits := keyspaceHits st + 1\<rparr>)))"
  by (simp add: read_key_def readEntry_def Let_def split_def split: option.split)

lemma liveEntry_Some: "liveEntry st key t = Some e \<Longrightarrow> get_slot st key = Some e \<and> \<not> expired t e"
  by (auto simp: liveEntry_def liveSlot_def split: option.splits if_splits)

lemma put_slot_hits [simp]:
  "keyspaceHits (put_slot k v st) = keyspaceHits st" "keyspaceMisses (put_slot k v st) = keyspaceMisses st"
  by (simp_all add: put_slot_def upd_shard_def)

locale key_reader =
  fixes op :: "goenv \<Rightarrow> store \<Rightarrow> 'r \<times> store" and key :: bytes and missing :: 'r
    and body :: "goenv \<Rightarrow> store \<Rightarrow> entry \<Rightarrow> entry \<times> 'r"
  assumes op_eq: "op env st = read_key env key missing (body env st) st"
    and body_same: "same_value e (fst (body env st e))"
begin

lemma result:
  "fst (op env st) = (case liveEntry st key (now env) of None \<Rightarrow> missing | Some e \<Rightarrow> snd (body env st e))"
  by (simp add: op_eq read_key_unfold split: option.split)

lemma counters:
  "keyspaceHits (snd (op env st)) = keyspaceHits st + (if liveEntry st key (now env) = None then 0 else 1)"
  "keyspaceMisses (snd (op env st)) = keyspaceMisses st + (if liveEntry st key (now env) = None then 1 else 0)"
  by (simp_all add: op_eq read_key_unfold split: option.split)

lemma inv: "store_inv st \<Longrightarrow> store_inv (snd (op env st))"
proof (cases "liveEntry st key (now env)")
  case None
  then show "store_inv st \<Longrightarrow> ?thesis" by (simp add: op_eq read_key_unfold)
next
  case (Some e)
  let ?T = "st\<lparr>keyspaceHits := keyspaceHits st + 1\<rparr>"
  assume "store_inv st"
  then have "store_inv ?T" by simp
  moreover have "get_slot ?T key = Some e" using liveEntry_Some [OF Some] by simp
  ultimately show ?thesis using put_same_inv [OF _ _ body_same] Some by (simp add: op_eq read_key_unfold)
qed

lemma values_same:
  assumes "store_wf st"
  shows "rel_option same_value (get_slot st k) (get_slot (snd (op env st)) k)"
proof (cases "liveEntry st key (now env)")
  case None
  then show ?thesis by (simp add: op_eq read_key_unfold option.rel_refl)
next
  case (Some e)
  let ?T = "st\<lparr>keyspaceHits := keyspaceHits st + 1\<rparr>"
  have "store_wf ?T" using assms by simp
  with Some liveEntry_Some [OF Some] body_same show ?thesis
    by (simp add: op_eq read_key_unfold get_put_slot option.rel_refl)
qed

end

end
