(* ===== verification/Keyspace.thy ===== *)
theory Keyspace
  imports Store
begin

text \<open>
  The operations of \<open>internal/store/store.go\<close> on keys of any type, the expiry sweep and the
  exact recomputation of \<open>internal/store/memtrack.go\<close>. A loop over the shards locks one shard
  at a time and is \<open>each_shard\<close>; the locale \<open>shard_pass\<close> states what such a pass promises of one
  shard and lifts it to the store. A call of the removal callback is an element of the event list.
\<close>

subsection \<open>Single keys\<close>

definition Del :: "goenv \<Rightarrow> bytes \<Rightarrow> store \<Rightarrow> (bool \<times> event list) \<times> store" where
  "Del env key st =
     (case get_slot st key of
        None \<Rightarrow> ((False, []), st)
      | Some e \<Rightarrow>
          let st' = uncharge key e (put_slot key None st)
          in if expired (now env) e then ((False, [(key, False)]), st') else ((True, []), st'))"

definition dropIfExpired :: "goenv \<Rightarrow> bytes \<Rightarrow> store \<Rightarrow> event list \<times> store" where
  "dropIfExpired env key st =
     (case get_slot st key of
        Some e \<Rightarrow> if expired (now env) e then ([(key, False)], uncharge key e (put_slot key None st)) else ([], st)
      | None \<Rightarrow> ([], st))"

definition Exists :: "goenv \<Rightarrow> bytes \<Rightarrow> store \<Rightarrow> bool \<times> store" where
  "Exists env key = read_key env key False (\<lambda>e. (e, True))"

definition Type :: "goenv \<Rightarrow> bytes \<Rightarrow> store \<Rightarrow> (string \<times> bool) \<times> store" where
  "Type env key = read_key env key (''none'', False) (\<lambda>e. (e, (kind_String (kind_of (val e)), True)))"

text \<open>\<open>Expire\<close> writes the deadline without \<open>charge\<close> and \<open>settle\<close>.\<close>

definition Expire :: "goenv \<Rightarrow> bytes \<Rightarrow> int \<Rightarrow> store \<Rightarrow> bool \<times> store" where
  "Expire env key ttl st =
     (case liveEntry st key (now env) of
        None \<Rightarrow> (False, st)
      | Some e \<Rightarrow> (True, put_slot key (Some (e\<lparr>expireAt := Some (now env + ttl)\<rparr>)) st))"

text \<open>The difference of two instants is a duration, which saturates.\<close>

definition time_Sub :: "int \<Rightarrow> int \<Rightarrow> int" where
  "time_Sub t u = max (- (2 ^ 63)) (min (2 ^ 63 - 1) (t - u))"

definition UnixMilli :: "int \<Rightarrow> int" where
  "UnixMilli t = t div 1000000"

definition TTL :: "goenv \<Rightarrow> bytes \<Rightarrow> store \<Rightarrow> (int \<times> bool \<times> bool) \<times> store" where
  "TTL env key = read_key env key (0, False, False)
     (\<lambda>e. (e, case expireAt e of None \<Rightarrow> (0, False, True) | Some d \<Rightarrow> (time_Sub d (now env), True, True)))"

definition TTLMillis :: "goenv \<Rightarrow> bytes \<Rightarrow> store \<Rightarrow> (int \<times> bool \<times> bool) \<times> store" where
  "TTLMillis env key = read_key env key (0, False, False)
     (\<lambda>e. (e, case expireAt e of None \<Rightarrow> (0, False, True)
             | Some d \<Rightarrow> (UnixMilli d - UnixMilli (now env), True, True)))"

definition GetString :: "goenv \<Rightarrow> bytes \<Rightarrow> store \<Rightarrow> (bytes option res \<times> event list) \<times> store" where
  "GetString env key st =
     (case get_slot st key of
        None \<Rightarrow> ((Inr None, []), st\<lparr>keyspaceMisses := keyspaceMisses st + 1\<rparr>)
      | Some e \<Rightarrow>
          if expired (now env) e then
            let (ev, st') = dropIfExpired env key (st\<lparr>keyspaceMisses := keyspaceMisses st + 1\<rparr>)
            in ((Inr None, ev), st')
          else
            let st' = st\<lparr>keyspaceHits := keyspaceHits st + 1\<rparr>
            in case val e of
                 VString v \<Rightarrow> ((Inr (Some (sbytes v)), []), put_slot key (Some (touch env st e)) st')
               | _ \<Rightarrow> ((Inl ErrWrongType, []), st'))"

definition Get :: "goenv \<Rightarrow> bytes \<Rightarrow> store \<Rightarrow> (bytes option \<times> event list) \<times> store" where
  "Get env key st =
     (let ((r, ev), st') = GetString env key st
      in (((case r of Inl _ \<Rightarrow> None | Inr v \<Rightarrow> v), ev), st'))"

subsection \<open>The whole keyspace\<close>

definition shard_keys :: "goenv \<Rightarrow> shard \<Rightarrow> bytes list" where
  "shard_keys env sh =
     filter (\<lambda>k. liveSlot (now env) (map_of (sdata sh) k) \<noteq> None) (gkeys env (sdata sh))"

definition Len :: "goenv \<Rightarrow> store \<Rightarrow> int" where
  "Len env st = fold (\<lambda>sh total. total + int (length (shard_keys env sh))) (shards st) 0"

definition Keys :: "goenv \<Rightarrow> store \<Rightarrow> bytes list" where
  "Keys env st = fold (\<lambda>sh keys. keys @ shard_keys env sh) (shards st) []"

definition approxLen :: "store \<Rightarrow> int" where
  "approxLen st = fold (\<lambda>sh total. total + int (length (sdata sh))) (shards st) 0"

text \<open>The loop of \<open>Scan\<close> over the remaining shards: the keys and how many shards it has read.\<close>

fun scan_loop :: "goenv \<Rightarrow> int \<Rightarrow> shard list \<Rightarrow> bytes list \<Rightarrow> bytes list \<times> int" where
  "scan_loop env cnt [] keys = (keys, 0)"
| "scan_loop env cnt (sh # shs) keys =
     (let keys' = keys @ shard_keys env sh
      in if int (length keys') \<ge> cnt then (keys', 1)
         else (let (ks, n) = scan_loop env cnt shs keys' in (ks, n + 1)))"

definition Scan :: "goenv \<Rightarrow> 64 word \<Rightarrow> int \<Rightarrow> store \<Rightarrow> bytes list \<times> 64 word" where
  "Scan env cursor cnt st =
     (let c = (if cnt \<le> 0 then 10 else cnt); idx = sint cursor
      in if idx < 0 \<or> idx \<ge> int (length (shards st)) then ([], 0)
         else
           let (keys, n) = scan_loop env c (drop (nat idx) (shards st)) []
           in if idx + n \<ge> int (length (shards st)) then (keys, 0) else (keys, word_of_int (idx + n)))"

text \<open>A pass over the shards, one locked at a time: each may change and may yield keys, and the
  total follows the change of the shard's own count.\<close>

definition at_index :: "(shard \<Rightarrow> 'a list \<times> shard) \<Rightarrow> nat \<Rightarrow> store \<Rightarrow> 'a list \<times> store" where
  "at_index f i st =
     (let sh = shards st ! i; (out, sh') = f sh
      in (out, st\<lparr>shards := (shards st)[i := sh'], mem := mem st + (smem sh' - smem sh)\<rparr>))"

definition each_shard :: "(shard \<Rightarrow> 'a list \<times> shard) \<Rightarrow> store \<Rightarrow> 'a list \<times> store" where
  "each_shard f st =
     fold (\<lambda>i (out, st'). let (o', st'') = at_index f i st' in (out @ o', st'')) [0..<length (shards st)] ([], st)"

definition flush_shard :: "shard \<Rightarrow> unit list \<times> shard" where
  "flush_shard sh = ([], \<lparr>sdata = [], smem = 0, svolatile = 0\<rparr>)"

definition FlushAll :: "store \<Rightarrow> store" where
  "FlushAll st = snd (each_shard flush_shard st)"

text \<open>One entry of the sweep: the map of the shard, the bytes and volatile keys counted so far and the
  keys removed so far.\<close>

definition maintain_entry :: "int \<Rightarrow> bool \<Rightarrow> bool \<Rightarrow> bytes \<Rightarrow>
    (bytes, entry) gomap \<times> int \<times> int \<times> bytes list \<Rightarrow> (bytes, entry) gomap \<times> int \<times> int \<times> bytes list" where
  "maintain_entry t expire tracking k acc =
     (let (data, total, vol, removed) = acc
      in case map_of data k of
           None \<Rightarrow> acc
         | Some e \<Rightarrow>
             if expire \<and> expired t e then (gdel k data, total, vol, removed @ [k])
             else if \<not> tracking then acc
             else
               let e' = (case val e of VStream s \<Rightarrow> e\<lparr>eBytes := memorySize s\<rparr> | _ \<Rightarrow> e)
               in (gput k e' data, total + entryCharge k e',
                   (if expireAt e' \<noteq> None then vol + 1 else vol), removed))"

definition maintain_shard :: "goenv \<Rightarrow> bool \<Rightarrow> bool \<Rightarrow> shard \<Rightarrow> bytes list \<times> shard" where
  "maintain_shard env expire tracking sh =
     (let (data, total, vol, removed) =
        fold (maintain_entry (now env) expire tracking) (gkeys env (sdata sh)) (sdata sh, 0, 0, [])
      in (removed, if tracking then \<lparr>sdata = data, smem = total, svolatile = vol\<rparr> else sh\<lparr>sdata := data\<rparr>))"

definition maintain :: "goenv \<Rightarrow> bool \<Rightarrow> store \<Rightarrow> event list \<times> store" where
  "maintain env expire st =
     (let (removed, st') = each_shard (maintain_shard env expire (memTrack st)) st
      in (map (\<lambda>k. (k, False)) removed, st'))"

definition sweep :: "goenv \<Rightarrow> store \<Rightarrow> event list \<times> store" where
  "sweep env st = maintain env True st"

definition SetActiveExpire :: "bool \<Rightarrow> store \<Rightarrow> store" where
  "SetActiveExpire on st = st\<lparr>activeExpire := on\<rparr>"

definition ResetKeyspaceStats :: "store \<Rightarrow> store" where
  "ResetKeyspaceStats st = st\<lparr>keyspaceHits := 0, keyspaceMisses := 0\<rparr>"

subsection \<open>Recomputing the accounting\<close>

definition exactMemory :: "store \<Rightarrow> int" where
  "exactMemory st =
     fold (\<lambda>sh total. total + gsum (\<lambda>k e. memEntryOverhead + int (length k) + entrySize e) (sdata sh)) (shards st) 0"

definition recompute_entry :: "bytes \<Rightarrow> (bytes, entry) gomap \<times> int \<times> int \<Rightarrow> (bytes, entry) gomap \<times> int \<times> int" where
  "recompute_entry k acc =
     (let (data, total, vol) = acc
      in case map_of data k of
           None \<Rightarrow> acc
         | Some e \<Rightarrow>
             let e' = reseat e
             in (gput k e' data, total + (memEntryOverhead + int (length k) + entryPayload e'),
                 (if expireAt e' \<noteq> None then vol + 1 else vol)))"

definition recompute_shard :: "goenv \<Rightarrow> shard \<Rightarrow> unit list \<times> shard" where
  "recompute_shard env sh =
     (let (data, total, vol) = fold recompute_entry (gkeys env (sdata sh)) (sdata sh, 0, 0)
      in ([], \<lparr>sdata = data, smem = total, svolatile = vol\<rparr>))"

definition RecomputeMemory :: "goenv \<Rightarrow> store \<Rightarrow> store" where
  "RecomputeMemory env st = snd (each_shard (recompute_shard env) st)"

definition TrackMemory :: "goenv \<Rightarrow> store \<Rightarrow> store" where
  "TrackMemory env st = (if memTrack st then st else RecomputeMemory env (st\<lparr>memTrack := True\<rparr>))"

definition UsedMemory :: "goenv \<Rightarrow> store \<Rightarrow> int \<times> store" where
  "UsedMemory env st = (let st' = (if \<not> memTrack st then TrackMemory env st else st) in (mem st', st'))"

subsection \<open>Deletion\<close>

lemma uncharge_settle:
  assumes "store_wf st" "get_slot st key = Some e"
  shows "uncharge key e (put_slot key None st) = settle key (charge st key) (put_slot key None st)"
  by (simp add: uncharge_def settle_def charge_def chargeOf_def get_put_slot assms countVolatile_def Let_def)
   
lemma write_key_same:
  assumes "store_wf st"
  shows "settle key (charge st key) (put_slot key (get_slot st key) st) = st"
proof -
  have "put_slot key (get_slot st key) st = st"
    using wf_gmap [OF assms shardIndex_bound [OF assms, of key]]
    by (simp add: put_slot_def upd_shard_def get_slot_def getShard_def gset_same)
  then show ?thesis by (simp add: settle_def charge_def Let_def upd_shard_def)
qed

interpretation del: key_writer "Del env key" key
  "\<lambda>st slot. (None, case slot of None \<Rightarrow> (False, []) | Some e \<Rightarrow> if expired (now env) e then (False, [(key, False)]) else (True, []))"
  for env key
proof unfold_locales
  fix st assume w: "store_wf st"
  show "Del env key st = write_key key (\<lambda>slot. (None, case slot of None \<Rightarrow> (False, []) | Some e \<Rightarrow> if expired (now env) e then (False, [(key, False)]) else (True, []))) st"
    using write_key_same [OF w, of key] by (cases "get_slot st key") (simp_all add: Del_def write_key_def Let_def uncharge_settle [OF w])
qed simp

interpretation drop: key_writer "dropIfExpired env key" key
  "\<lambda>st slot. (liveSlot (now env) slot, case slot of Some e \<Rightarrow> if expired (now env) e then [(key, False)] else [] | None \<Rightarrow> [])"
  for env key
proof unfold_locales
  fix st assume w: "store_wf st"
  show "dropIfExpired env key st = write_key key (\<lambda>slot. (liveSlot (now env) slot, case slot of Some e \<Rightarrow> if expired (now env) e then [(key, False)] else [] | None \<Rightarrow> [])) st"
    using write_key_same [OF w, of key] by (cases "get_slot st key") (simp_all add: dropIfExpired_def write_key_def Let_def uncharge_settle [OF w] liveSlot_def)
qed (auto simp: liveSlot_def split: option.split)

subsection \<open>Reads\<close>

interpretation exists: key_reader "\<lambda>env. Exists env key" key False "\<lambda>env st e. (e, True)" for key
  by unfold_locales (simp_all add: Exists_def)

interpretation type: key_reader "\<lambda>env. Type env key" key "(''none'', False)"
  "\<lambda>env st e. (e, (kind_String (kind_of (val e)), True))" for key
  by unfold_locales (simp_all add: Type_def)

interpretation ttl: key_reader "\<lambda>env. TTL env key" key "(0, False, False)"
  "\<lambda>env st e. (e, case expireAt e of None \<Rightarrow> (0, False, True) | Some d \<Rightarrow> (time_Sub d (now env), True, True))" for key
  by unfold_locales (simp_all add: TTL_def)

interpretation ttlms: key_reader "\<lambda>env. TTLMillis env key" key "(0, False, False)"
  "\<lambda>env st e. (e, case expireAt e of None \<Rightarrow> (0, False, True)
             | Some d \<Rightarrow> (UnixMilli d - UnixMilli (now env), True, True))" for key
  by unfold_locales (simp_all add: TTLMillis_def)

lemma liveEntry_None: "liveEntry st key t = None \<longleftrightarrow> (\<forall>e. get_slot st key = Some e \<longrightarrow> expired t e)"
  by (auto simp: liveEntry_def liveSlot_def split: option.split)

lemma GetString_result:
  "fst (fst (GetString env key st)) =
     (case liveEntry st key (now env) of
        None \<Rightarrow> Inr None
      | Some e \<Rightarrow> (case val e of VString v \<Rightarrow> Inr (Some (sbytes v)) | _ \<Rightarrow> Inl ErrWrongType))"
  by (simp add: GetString_def liveEntry_def liveSlot_def Let_def split_def split: option.split val.split)

lemma GetString_inv:
  assumes "store_inv st"
  shows "store_inv (snd (GetString env key st))"
proof (cases "get_slot st key")
  case (Some e)
  have "store_inv (snd (dropIfExpired env key (st\<lparr>keyspaceMisses := n\<rparr>)))" for n
    using assms by (intro drop.inv) simp
  moreover have "store_inv (put_slot key (Some (touch env st e)) (st\<lparr>keyspaceHits := n\<rparr>))" for n
    using assms Some by (intro put_same_inv [where e = e]) simp_all
  ultimately show ?thesis using assms Some by (simp add: GetString_def Let_def split_def split: val.split)
qed (use assms in \<open>simp add: GetString_def\<close>)

text \<open>A read never shows an expired value and removes it: afterwards the slot of the key is live.\<close>

lemma GetString_slot:
  assumes "store_inv st"
  shows "rel_option same_value (liveSlot (now env) (get_slot st key)) (get_slot (snd (GetString env key st)) key)"
    and "k \<noteq> key \<Longrightarrow> get_slot (snd (GetString env key st)) k = get_slot st k"
  using store_invD(1) [OF assms]
  by (simp_all add: GetString_def Let_def split_def drop.slot drop.frame get_put_slot liveSlot_def
      option.rel_refl split: option.split val.split)

subsection \<open>Passes over the shards\<close>

lemma each_shard_upto:
  assumes "n \<le> length (shards st)"
  shows "fold (\<lambda>i (out, st'). let (o', st'') = at_index f i st' in (out @ o', st'')) [0..<n] ([], st) =
    (concat (map (\<lambda>sh. fst (f sh)) (take n (shards st))),
     st\<lparr>shards := map (\<lambda>sh. snd (f sh)) (take n (shards st)) @ drop n (shards st),
        mem := mem st + sum_list (map (\<lambda>sh. smem (snd (f sh)) - smem sh) (take n (shards st)))\<rparr>)"
  using assms
proof (induction n)
  case (Suc n)
  let ?S = "shards st"
  have n: "n < length ?S" using Suc.prems by simp
  then have d: "drop n ?S = ?S ! n # drop (Suc n) ?S" and t: "take (Suc n) ?S = take n ?S @ [?S ! n]"
    by (simp_all add: Cons_nth_drop_Suc take_Suc_conv_app_nth)
  then have at: "(map (\<lambda>sh. snd (f sh)) (take n ?S) @ drop n ?S) ! n = ?S ! n" using n by (simp add: nth_append)
  have up: "(map (\<lambda>sh. snd (f sh)) (take n ?S) @ drop n ?S)[n := v] = map (\<lambda>sh. snd (f sh)) (take n ?S) @ v # drop (Suc n) ?S" for v
    using n unfolding d by (simp add: list_update_append)
  show ?case using Suc by (simp add: at_index_def Let_def split_def at up t add.assoc)
qed simp

definition after_pass :: "(shard \<Rightarrow> 'a list \<times> shard) \<Rightarrow> store \<Rightarrow> store" where
  "after_pass f st =
     st\<lparr>shards := map (\<lambda>sh. snd (f sh)) (shards st),
        mem := mem st + sum_list (map (\<lambda>sh. smem (snd (f sh)) - smem sh) (shards st))\<rparr>"

lemma each_shard_eq: "each_shard f st = (concat (map (\<lambda>sh. fst (f sh)) (shards st)), after_pass f st)"
  unfolding each_shard_def after_pass_def using each_shard_upto [of "length (shards st)" st f] by simp

lemma after_pass_simps [simp]:
  "length (shards (after_pass f st)) = length (shards st)" "smask (after_pass f st) = smask st"
  "memTrack (after_pass f st) = memTrack st" "shardIndex (after_pass f st) k = shardIndex st k"
  "i < length (shards st) \<Longrightarrow> shards (after_pass f st) ! i = snd (f (shards st ! i))"
  by (simp_all add: after_pass_def shardIndex_def)

lemma after_pass_slot: "store_wf st \<Longrightarrow> get_slot (after_pass f st) k = map_of (sdata (snd (f (getShard st k)))) k"
  by (simp add: get_slot_def getShard_def shardIndex_bound)

lemma after_pass_rest: "rest (after_pass f st) = rest st"
  by (simp add: after_pass_def rest_def)

text \<open>The total is the sum of the shards' counts, whatever is counted.\<close>

definition totals_ok :: "store \<Rightarrow> bool" where
  "totals_ok st \<longleftrightarrow> mem st = sum_list (map smem (shards st))"

lemma after_pass_totals: "totals_ok st \<Longrightarrow> totals_ok (after_pass f st)"
  by (simp add: totals_ok_def after_pass_def comp_def sum_list_subtractf)

definition shard_counted :: "shard \<Rightarrow> bool" where
  "shard_counted sh \<longleftrightarrow> smem sh = gsum entryCharge (sdata sh) \<and> svolatile sh = gsum entryVolatile (sdata sh)"

lemma mem_inv_iff: "mem_inv st \<longleftrightarrow> totals_ok st \<and> (memTrack st \<longrightarrow> (\<forall>i < length (shards st). shard_counted (shards st ! i)))"
  by (auto simp: mem_inv_def totals_ok_def shard_counted_def)

locale shard_pass =
  fixes f :: "shard \<Rightarrow> 'a list \<times> shard" and tracking fair :: bool
  assumes pass_wf: "fair \<Longrightarrow> gmap_wf (sdata sh) \<Longrightarrow> gmap_wf (sdata (snd (f sh)))"
    and pass_dom: "fair \<Longrightarrow> gmap_wf (sdata sh) \<Longrightarrow> map_of (sdata (snd (f sh))) k \<noteq> None \<Longrightarrow> map_of (sdata sh) k \<noteq> None"
    and pass_ok: "fair \<Longrightarrow> gmap_wf (sdata sh) \<Longrightarrow> slot_ok (map_of (sdata sh) k) \<Longrightarrow> slot_ok (map_of (sdata (snd (f sh))) k)"
    and pass_counted: "fair \<Longrightarrow> gmap_wf (sdata sh) \<Longrightarrow> tracking \<Longrightarrow> shard_counted (snd (f sh))"
begin

lemma wf: "fair \<Longrightarrow> store_wf st \<Longrightarrow> store_wf (after_pass f st)"
proof -
  assume fair and w: "store_wf st"
  have g: "\<exists>n. length (shards st) = 2 ^ n \<and> unat (smask st) = 2 ^ n - 1" using w unfolding store_wf_def by blast
  show ?thesis
    using g pass_wf [OF \<open>fair\<close>] pass_dom [OF \<open>fair\<close>] wf_gmap [OF w] wf_index [OF w]
    unfolding store_wf_def after_pass_simps by simp
qed

lemma counted: "fair \<Longrightarrow> store_wf st \<Longrightarrow> totals_ok st \<Longrightarrow> (memTrack st \<Longrightarrow> tracking) \<Longrightarrow> mem_inv (after_pass f st)"
  by (simp add: mem_inv_iff after_pass_totals pass_counted wf_gmap)

lemma inv:
  assumes fair "store_wf st" "totals_ok st" "\<And>k. slot_ok (get_slot st k)" "memTrack st \<Longrightarrow> tracking"
  shows "store_inv (after_pass f st)"
proof -
  have "slot_ok (get_slot (after_pass f st) k)" for k
    using assms(4) [of k] pass_ok [OF assms(1), of "getShard st k" k] wf_gmap [OF assms(2) shardIndex_bound [OF assms(2)], of k]
    by (simp add: after_pass_slot assms(2)) (simp add: get_slot_def getShard_def)
  then show ?thesis using assms by (simp add: store_inv_def wf counted)
qed

text \<open>One locked shard of the pass, the step that other calls may come between.\<close>

lemma at_index_wf: "fair \<Longrightarrow> store_wf st \<Longrightarrow> i < length (shards st) \<Longrightarrow> store_wf (snd (at_index f i st))"
proof -
  assume fair and w: "store_wf st" and i: "i < length (shards st)"
  let ?S = "snd (at_index f i st)"
  have s: "smask ?S = smask st" "length (shards ?S) = length (shards st)" "\<And>k. shardIndex ?S k = shardIndex st k"
    "\<And>j. shards ?S ! j = (if j = i then snd (f (shards st ! i)) else shards st ! j)"
    using i by (simp_all add: at_index_def Let_def split_def shardIndex_def nth_list_update)
  have g: "\<exists>n. length (shards st) = 2 ^ n \<and> unat (smask st) = 2 ^ n - 1" using w unfolding store_wf_def by blast
  show "store_wf ?S"
    using g pass_wf [OF \<open>fair\<close>] pass_dom [OF \<open>fair\<close>] wf_gmap [OF w] wf_index [OF w] unfolding store_wf_def s by simp
qed

end

subsubsection \<open>What the passes do to a shard\<close>

lemma gsum_keys:
  assumes "gmap_wf m" "distinct ks" "fst ` set m \<subseteq> set ks"
  shows "gsum f m = sum_list (map (\<lambda>k. gopt f k (map_of m k)) ks)"
  using gsum_as_sum [OF assms(1) finite_set assms(3), of f] assms(2)
  by (simp add: sum_list_distinct_conv_sum_set)

definition refresh :: "bool \<Rightarrow> entry \<Rightarrow> entry" where
  "refresh tracking e =
     (if tracking then case val e of VStream s \<Rightarrow> e\<lparr>eBytes := memorySize s\<rparr> | _ \<Rightarrow> e else e)"

definition maintain_slot :: "int \<Rightarrow> bool \<Rightarrow> bool \<Rightarrow> entry option \<Rightarrow> entry option" where
  "maintain_slot t expire tracking slot =
     map_option (refresh tracking) (if expire then liveSlot t slot else slot)"

lemma expireAt_refresh [simp]: "expireAt (refresh tr e) = expireAt e"
  by (simp add: refresh_def split: val.split)

lemma slot_ok_maintain: "slot_ok slot \<Longrightarrow> slot_ok (maintain_slot t ex tr slot)"
  by (cases slot) (auto simp: maintain_slot_def liveSlot_def refresh_def entry_ok_def split: val.split)

text \<open>A loop over the keys of a map in which each step replaces the slot of its own key and adds to an
  accumulator what it saw there.\<close>

lemma fold_slots:
  assumes "\<And>k d a. gmap_wf d \<Longrightarrow> step k (d, a) = (D k d, A k (map_of d k) a)"
    and "\<And>k d. gmap_wf d \<Longrightarrow> gmap_wf (D k d) \<and> map_of (D k d) = (map_of d)(k := new k (map_of d k))"
    and "gmap_wf data" "distinct ks"
  shows "\<exists>data'. fold step ks (data, a) = (data', fold (\<lambda>k. A k (map_of data k)) ks a) \<and> gmap_wf data' \<and>
    (\<forall>k. map_of data' k = (if k \<in> set ks then new k (map_of data k) else map_of data k))"
  using assms(3,4)
proof (induction ks arbitrary: data a)
  case (Cons b ks)
  let ?d = "D b data"
  have d: "gmap_wf ?d" "map_of ?d = (map_of data)(b := new b (map_of data b))" using assms(2) Cons.prems by blast+
  have "fold (\<lambda>k. A k (map_of ?d k)) ks x = fold (\<lambda>k. A k (map_of data k)) ks x" for x
    using Cons.prems by (intro fold_cong) (auto simp: d)
  with Cons.IH [OF d(1), of "A b (map_of data b) a"] Cons.prems show ?case
    by (auto simp: assms(1) d(2))
qed simp

lemma fold_add: "fold (\<lambda>k x. x + f k) ks x = (x :: int) + sum_list (map f ks)"
  by (induction ks arbitrary: x) auto

definition maintain_acc :: "int \<Rightarrow> bool \<Rightarrow> bool \<Rightarrow> bytes \<Rightarrow> entry option \<Rightarrow> int \<times> int \<times> bytes list \<Rightarrow> int \<times> int \<times> bytes list" where
  "maintain_acc t ex tr k slot acc =
     (let slot' = maintain_slot t ex tr slot; (tot, vol, removed) = acc
      in (if tr then tot + gopt entryCharge k slot' else tot,
          if tr then vol + gopt entryVolatile k slot' else vol,
          if slot \<noteq> None \<and> slot' = None then removed @ [k] else removed))"

lemma maintain_entry_eq:
  "gmap_wf data \<Longrightarrow> maintain_entry t ex tr k (data, acc) =
     (if tr \<or> maintain_slot t ex tr (map_of data k) = None then gset k (maintain_slot t ex tr (map_of data k)) data else data,
      maintain_acc t ex tr k (map_of data k) acc)"
proof (cases "map_of data k")
  case None
  then have "gdel k data = data" by (simp add: map_of_eq_None_iff)
  with None show ?thesis
    by (cases acc) (simp add: maintain_entry_def maintain_acc_def maintain_slot_def liveSlot_def gset_simps Let_def)
next
  case (Some e)
  then show ?thesis
    by (cases acc) (auto simp: maintain_entry_def maintain_acc_def maintain_slot_def liveSlot_def refresh_def gset_simps
        entryVolatile_def Let_def split: val.split)
qed

lemma fold_maintain_acc:
  "fold (\<lambda>k. maintain_acc t ex tr k (slot k)) ks (tot, vol, removed) =
    (if tr then tot + sum_list (map (\<lambda>k. gopt entryCharge k (maintain_slot t ex tr (slot k))) ks) else tot,
     if tr then vol + sum_list (map (\<lambda>k. gopt entryVolatile k (maintain_slot t ex tr (slot k))) ks) else vol,
     removed @ filter (\<lambda>k. slot k \<noteq> None \<and> maintain_slot t ex tr (slot k) = None) ks)"
  by (induction ks arbitrary: tot vol removed) (auto simp: maintain_acc_def Let_def)

lemma maintain_shard_props:
  fixes ex tr :: bool
  assumes w: "gmap_wf (sdata sh)" and fair: "fair_iter env"
  defines "sh' \<equiv> snd (maintain_shard env ex tr sh)"
  shows "gmap_wf (sdata sh')"
    and "map_of (sdata sh') k = maintain_slot (now env) ex tr (map_of (sdata sh) k)"
    and "tr \<Longrightarrow> shard_counted sh'"
    and "\<not> tr \<Longrightarrow> smem sh' = smem sh"
    and "fst (maintain_shard env ex tr sh) =
      filter (\<lambda>k. map_of (sdata sh) k \<noteq> None \<and> maintain_slot (now env) ex tr (map_of (sdata sh) k) = None) (gkeys env (sdata sh))"
proof -
  let ?ks = "gkeys env (sdata sh)" and ?new = "maintain_slot (now env) ex tr"
  let ?D = "\<lambda>k d. if tr \<or> ?new (map_of d k) = None then gset k (?new (map_of d k)) d else d"
  have k: "set ?ks = fst ` set (sdata sh)" "distinct ?ks" using gkeys_props [OF fair] w by simp_all
  have "gmap_wf (?D k d) \<and> map_of (?D k d) = (map_of d)(k := ?new (map_of d k))" if "gmap_wf d" for k d
    using that by (cases "map_of d k") (auto simp: maintain_slot_def liveSlot_def refresh_def fun_upd_idem)
  from fold_slots [of "maintain_entry (now env) ex tr" ?D "maintain_acc (now env) ex tr" "\<lambda>k. ?new", OF maintain_entry_eq this w k(2)]
  obtain d where d: "fold (maintain_entry (now env) ex tr) ?ks (sdata sh, 0, 0, []) =
      (d, fold (\<lambda>k. maintain_acc (now env) ex tr k (map_of (sdata sh) k)) ?ks (0, 0, []))" "gmap_wf d"
    "\<And>k. map_of d k = (if k \<in> set ?ks then ?new (map_of (sdata sh) k) else map_of (sdata sh) k)"
    by blast
  have m: "map_of d k = ?new (map_of (sdata sh) k)" for k
    using d(3) [of k] k(1) by (auto simp: map_of_eq_None_iff [symmetric] maintain_slot_def liveSlot_def split: if_splits)
  have f: "fst ` set d \<subseteq> set ?ks"
  proof -
    have "dom (map_of d) \<subseteq> dom (map_of (sdata sh))"
      using m by (auto simp: dom_def maintain_slot_def liveSlot_def split: if_splits option.splits)
    then show ?thesis by (simp add: k(1) dom_map_of_conv_image_fst)
  qed
  note e = gsum_keys [OF d(2) k(2) f]
  have r: "maintain_shard env ex tr sh =
    (filter (\<lambda>k. map_of (sdata sh) k \<noteq> None \<and> ?new (map_of (sdata sh) k) = None) ?ks,
     if tr then \<lparr>sdata = d, smem = sum_list (map (\<lambda>k. gopt entryCharge k (?new (map_of (sdata sh) k))) ?ks),
       svolatile = sum_list (map (\<lambda>k. gopt entryVolatile k (?new (map_of (sdata sh) k))) ?ks)\<rparr> else sh\<lparr>sdata := d\<rparr>)"
    unfolding maintain_shard_def d(1) fold_maintain_acc by simp
  show "gmap_wf (sdata sh')" "map_of (sdata sh') k = ?new (map_of (sdata sh) k)"
    "tr \<Longrightarrow> shard_counted sh'" "\<not> tr \<Longrightarrow> smem sh' = smem sh"
    "fst (maintain_shard env ex tr sh) = filter (\<lambda>k. map_of (sdata sh) k \<noteq> None \<and> ?new (map_of (sdata sh) k) = None) ?ks"
    unfolding sh'_def r using d(2) by (simp_all add: m shard_counted_def e)
qed

text \<open>The recomputation of one shard.\<close>

definition recompute_acc :: "bytes \<Rightarrow> entry option \<Rightarrow> int \<times> int \<Rightarrow> int \<times> int" where
  "recompute_acc k slot acc =
     (let slot' = map_option reseat slot
      in (fst acc + gopt entryCharge k slot', snd acc + gopt entryVolatile k slot'))"

lemma recompute_entry_eq:
  "gmap_wf data \<Longrightarrow> recompute_entry k (data, acc) =
     (gset k (map_option reseat (map_of data k)) data, recompute_acc k (map_of data k) acc)"
proof (cases "map_of data k")
  case None
  then have "gdel k data = data" by (simp add: map_of_eq_None_iff)
  with None show ?thesis by (cases acc) (simp add: recompute_entry_def recompute_acc_def gset_simps)
next
  case (Some e)
  then show ?thesis
    by (cases acc) (simp add: recompute_entry_def recompute_acc_def gset_simps Let_def entryCharge_def entryVolatile_def)
qed

lemma fold_recompute_acc:
  "fold (\<lambda>k. recompute_acc k (slot k)) ks (tot, vol) =
    (tot + sum_list (map (\<lambda>k. gopt entryCharge k (map_option reseat (slot k))) ks),
     vol + sum_list (map (\<lambda>k. gopt entryVolatile k (map_option reseat (slot k))) ks))"
  by (induction ks arbitrary: tot vol) (auto simp: recompute_acc_def Let_def)

lemma recompute_shard_props:
  assumes w: "gmap_wf (sdata sh)" and fair: "fair_iter env"
  defines "sh' \<equiv> snd (recompute_shard env sh)"
  shows "gmap_wf (sdata sh')" "map_of (sdata sh') k = map_option reseat (map_of (sdata sh) k)" "shard_counted sh'"
proof -
  let ?ks = "gkeys env (sdata sh)" and ?new = "map_option reseat"
  have k: "set ?ks = fst ` set (sdata sh)" "distinct ?ks" using gkeys_props [OF fair] w by simp_all
  have "gmap_wf (gset k (?new (map_of d k)) d) \<and> map_of (gset k (?new (map_of d k)) d) = (map_of d)(k := ?new (map_of d k))"
    if "gmap_wf d" for k d using that by simp
  from fold_slots [of recompute_entry "\<lambda>k d. gset k (?new (map_of d k)) d" recompute_acc "\<lambda>k. ?new", OF recompute_entry_eq this w k(2)]
  obtain d where d: "fold recompute_entry ?ks (sdata sh, 0, 0) =
      (d, fold (\<lambda>k. recompute_acc k (map_of (sdata sh) k)) ?ks (0, 0))" "gmap_wf d"
    "\<And>k. map_of d k = (if k \<in> set ?ks then ?new (map_of (sdata sh) k) else map_of (sdata sh) k)"
    by blast
  have m: "map_of d k = ?new (map_of (sdata sh) k)" for k
    using d(3) [of k] k(1) by (auto simp: map_of_eq_None_iff [symmetric] split: if_splits)
  then have "dom (map_of d) \<subseteq> dom (map_of (sdata sh))" by (auto simp: dom_def)
  then have f: "fst ` set d \<subseteq> set ?ks" by (simp add: k(1) dom_map_of_conv_image_fst)
  have r: "recompute_shard env sh =
    ([], \<lparr>sdata = d, smem = sum_list (map (\<lambda>k. gopt entryCharge k (?new (map_of (sdata sh) k))) ?ks),
       svolatile = sum_list (map (\<lambda>k. gopt entryVolatile k (?new (map_of (sdata sh) k))) ?ks)\<rparr>)"
    unfolding recompute_shard_def d(1) fold_recompute_acc by simp
  show "gmap_wf (sdata sh')" "map_of (sdata sh') k = ?new (map_of (sdata sh) k)" "shard_counted sh'"
    unfolding sh'_def r using d(2) by (simp_all add: m shard_counted_def gsum_keys [OF d(2) k(2) f])
qed

lemma reseat_ok: "slot_ok slot \<Longrightarrow> slot_ok (map_option reseat slot)"
proof (cases slot)
  case (Some e)
  then show "slot_ok slot \<Longrightarrow> ?thesis"
    by (cases "val e") (auto simp: reseat_def entry_ok_def deque_ok_def zset_ok_def hash_ok_def set_ok_def entrySize_def
        elemBytes_def [abs_def] memberBytes_def)
qed simp

interpretation flush: shard_pass flush_shard True True
  by unfold_locales (simp_all add: flush_shard_def shard_counted_def)

interpretation maintain: shard_pass "maintain_shard env ex tr" tr "fair_iter env" for env ex tr
proof unfold_locales
  fix sh :: shard and k
  assume a: "fair_iter env" "gmap_wf (sdata sh)"
  note p = maintain_shard_props [OF a(2,1)]
  show "gmap_wf (sdata (snd (maintain_shard env ex tr sh)))" "tr \<Longrightarrow> shard_counted (snd (maintain_shard env ex tr sh))"
    using p by blast+
  show "map_of (sdata (snd (maintain_shard env ex tr sh))) k \<noteq> None \<Longrightarrow> map_of (sdata sh) k \<noteq> None"
    by (auto simp: p maintain_slot_def liveSlot_def split: if_splits option.splits)
  show "slot_ok (map_of (sdata sh) k) \<Longrightarrow> slot_ok (map_of (sdata (snd (maintain_shard env ex tr sh))) k)"
    by (simp add: p slot_ok_maintain)
qed

interpretation recompute: shard_pass "recompute_shard env" True "fair_iter env" for env
  by unfold_locales (simp_all add: recompute_shard_props reseat_ok)

subsection \<open>What the passes do to the store\<close>

lemma totals_inv: "store_inv st \<Longrightarrow> totals_ok st"
  by (simp add: store_inv_def mem_inv_iff)

lemma FlushAll_props:
  assumes "store_inv st"
  shows "store_inv (FlushAll st)" "get_slot (FlushAll st) k = None" "mem (FlushAll st) = 0" "rest (FlushAll st) = rest st"
proof -
  have e: "FlushAll st = after_pass flush_shard st" by (simp add: FlushAll_def each_shard_eq)
  show "store_inv (FlushAll st)" unfolding e
    using assms by (intro flush.inv) (simp_all add: store_invD totals_inv)
  show "get_slot (FlushAll st) k = None" "rest (FlushAll st) = rest st" unfolding e
    using store_invD(1) [OF assms] by (simp_all add: after_pass_slot after_pass_rest flush_shard_def)
  show "mem (FlushAll st) = 0" using after_pass_totals [OF totals_inv [OF assms], of flush_shard]
    by (simp add: e totals_ok_def) (simp add: after_pass_def flush_shard_def comp_def)
qed

lemma maintain_pass: "snd (maintain env ex st) = after_pass (maintain_shard env ex (memTrack st)) st"
  by (simp add: maintain_def each_shard_eq split_def)

lemma maintain_slots:
  assumes "store_wf st" "fair_iter env"
  shows "get_slot (snd (maintain env ex st)) k = maintain_slot (now env) ex (memTrack st) (get_slot st k)"
  using maintain_shard_props(2) [OF wf_gmap [OF assms(1) shardIndex_bound [OF assms(1)]] assms(2)]
  by (simp add: maintain_pass after_pass_slot assms(1)) (simp add: getShard_def get_slot_def)

lemma maintain_inv: "store_inv st \<Longrightarrow> fair_iter env \<Longrightarrow> store_inv (snd (maintain env ex st))"
  unfolding maintain_pass by (intro maintain.inv) (simp_all add: store_invD totals_inv)

text \<open>The pass needs no exact accounting to start from: it restores it.\<close>

lemma maintain_heals:
  assumes "store_wf st" "totals_ok st" "\<And>k. slot_ok (get_slot st k)" "fair_iter env"
  shows "store_inv (snd (maintain env ex st))"
  unfolding maintain_pass using assms by (intro maintain.inv)

lemma RecomputeMemory_slots:
  assumes "store_wf st" "fair_iter env"
  shows "get_slot (RecomputeMemory env st) k = map_option reseat (get_slot st k)"
  using recompute_shard_props(2) [OF wf_gmap [OF assms(1) shardIndex_bound [OF assms(1)]] assms(2)]
  by (simp add: RecomputeMemory_def each_shard_eq after_pass_slot assms(1)) (simp add: getShard_def get_slot_def)

lemma RecomputeMemory_inv:
  assumes "store_wf st" "totals_ok st" "\<And>k. slot_ok (get_slot st k)" "fair_iter env"
  shows "store_inv (RecomputeMemory env st)" "rest (RecomputeMemory env st) = rest st"
  using assms by (simp_all add: RecomputeMemory_def each_shard_eq recompute.inv after_pass_rest)

subsection \<open>The maintained total is the measured one\<close>

definition measured :: "entry \<Rightarrow> bool" where
  "measured e \<longleftrightarrow> entryPayload e = entrySize e"

lemma fold_shards: "fold (\<lambda>sh tot. tot + f sh) shs n = (n :: int) + sum_list (map f shs)"
  by (induction shs arbitrary: n) auto

lemma shard_slot:
  assumes "store_wf st" "sh \<in> set (shards st)" "(k, e) \<in> set (sdata sh)"
  shows "get_slot st k = Some e"
proof -
  obtain i where i: "i < length (shards st)" "sh = shards st ! i" using assms(2) by (auto simp: in_set_conv_nth)
  then have "map_of (sdata (shards st ! i)) k = Some e" using assms wf_gmap [OF assms(1)] by (simp add: gmap_wf_lookup)
  moreover from this have "shardIndex st k = i" using wf_index [OF assms(1) i(1)] by simp
  ultimately show ?thesis by (simp add: get_slot_def getShard_def)
qed

lemma mem_exact:
  assumes "store_wf st" "mem_inv st" "memTrack st" "\<And>k e. get_slot st k = Some e \<Longrightarrow> measured e"
  shows "mem st = exactMemory st"
proof -
  have "smem sh = gsum (\<lambda>k e. memEntryOverhead + int (length k) + entrySize e) (sdata sh)"
    if sh: "sh \<in> set (shards st)" for sh
  proof -
    have "smem sh = gsum entryCharge (sdata sh)"
      using assms(2,3) sh by (auto simp: mem_inv_def in_set_conv_nth)
    moreover have "measured e" if "(k, e) \<in> set (sdata sh)" for k e
      using assms(4) [OF shard_slot [OF assms(1) sh that]] .
    ultimately show ?thesis by (auto simp: entryCharge_def measured_def intro!: gsum_cong)
  qed
  then have "map smem (shards st) = map (\<lambda>sh. gsum (\<lambda>k e. memEntryOverhead + int (length k) + entrySize e) (sdata sh)) (shards st)"
    by simp
  then have "sum_list (map smem (shards st)) = exactMemory st" by (simp only: exactMemory_def fold_shards add_0)
  then show ?thesis using assms(2) by (simp add: mem_inv_def)
qed

lemma store_measured:
  "store_inv st \<Longrightarrow> get_slot st k = Some e \<Longrightarrow> kind_of (val e) \<noteq> kindStream \<Longrightarrow> measured e"
  using store_invD(3) [of st k] by (simp add: measured_def payload_size)

lemma exactMemory_cong:
  assumes "store_wf st" "store_wf st'" "length (shards st') = length (shards st)" "smask st' = smask st"
    and slots: "\<And>k. rel_option (\<lambda>e e'. entrySize e' = entrySize e) (get_slot st k) (get_slot st' k)"
  shows "exactMemory st' = exactMemory st"
proof -
  let ?F = "\<lambda>k e. memEntryOverhead + int (length k) + entrySize e"
  have "gsum ?F (sdata (shards st' ! i)) = gsum ?F (sdata (shards st ! i))" if i: "i < length (shards st)" for i
  proof -
    let ?m = "sdata (shards st ! i)" and ?m' = "sdata (shards st' ! i)"
    have w: "gmap_wf ?m" "gmap_wf ?m'" using wf_gmap assms(1-3) i by simp_all
    have "gopt ?F k (map_of ?m' k) = gopt ?F k (map_of ?m k)" for k
    proof (cases "shardIndex st k = i")
      case True
      then have "map_of ?m k = get_slot st k" "map_of ?m' k = get_slot st' k"
        by (simp_all add: get_slot_def getShard_def shardIndex_def assms(4))
      then show ?thesis using slots [of k] by (auto simp: gopt_def split: option.split)
    next
      case False
      moreover have "shardIndex st' k = shardIndex st k" by (simp add: shardIndex_def assms(4))
      ultimately show ?thesis using slot_other_shard assms(1-3) i by simp
    qed
    moreover have "finite (fst ` set ?m \<union> fst ` set ?m')" by simp
    ultimately show ?thesis
      using gsum_as_sum [OF w(1), of "fst ` set ?m \<union> fst ` set ?m'" ?F] gsum_as_sum [OF w(2), of "fst ` set ?m \<union> fst ` set ?m'" ?F]
      by simp
  qed
  then have "map (\<lambda>sh. gsum ?F (sdata sh)) (shards st') = map (\<lambda>sh. gsum ?F (sdata sh)) (shards st)"
    using assms(3) by (intro nth_equalityI) simp_all
  then show ?thesis by (simp add: exactMemory_def fold_shards)
qed

lemma RecomputeMemory_exact:
  assumes "store_wf st" "totals_ok st" "\<And>k. slot_ok (get_slot st k)" "fair_iter env" "memTrack st"
  shows "mem (RecomputeMemory env st) = exactMemory st"
proof -
  let ?R = "RecomputeMemory env st"
  note i = RecomputeMemory_inv [OF assms(1-4)] and s = RecomputeMemory_slots [OF assms(1,4)]
  have "memTrack ?R" using restD(2) [OF i(2)] assms(5) by simp
  then have "mem ?R = exactMemory ?R"
    using i(1) by (intro mem_exact) (auto simp: store_invD s measured_def reseat_payload)
  also have "\<dots> = exactMemory st"
    using assms(1) store_invD(1) [OF i(1)]
  proof (rule exactMemory_cong)
    show "length (shards ?R) = length (shards st)" "smask ?R = smask st" by (simp_all add: RecomputeMemory_def each_shard_eq)
    show "rel_option (\<lambda>e e'. entrySize e' = entrySize e) (get_slot st k) (get_slot ?R k)" for k
      by (simp add: s option.rel_map reseat_payload option.rel_refl)
  qed
  finally show ?thesis .
qed

lemma measured_refresh: "kind_of (val (refresh True e)) = kindStream \<Longrightarrow> measured (refresh True e)"
  by (cases "val e") (simp_all add: measured_def refresh_def entryPayload_def entrySize_def)

lemma maintain_exact:
  assumes "store_wf st" "totals_ok st" "\<And>k. slot_ok (get_slot st k)" "fair_iter env" "memTrack st"
  shows "mem (snd (maintain env ex st)) = exactMemory (snd (maintain env ex st))"
proof -
  let ?R = "snd (maintain env ex st)"
  have i: "store_inv ?R" using maintain_heals [OF assms(1-4)] .
  have "measured e" if e: "get_slot ?R k = Some e" for k e
  proof (cases "kind_of (val e) = kindStream")
    case True
    obtain e0 where "e = refresh True e0"
      using e assms(5) unfolding maintain_slots [OF assms(1,4)] maintain_slot_def map_option_eq_Some by auto
    with True show ?thesis using measured_refresh by simp
  qed (use store_measured [OF i e] in simp)
  then show ?thesis using i assms(5) by (intro mem_exact) (simp_all add: store_invD maintain_pass)
qed

lemma UsedMemory_exact:
  assumes "store_inv st" "fair_iter env" "\<not> memTrack st"
  shows "fst (UsedMemory env st) = exactMemory st" "store_inv (snd (UsedMemory env st))"
proof -
  let ?T = "st\<lparr>memTrack := True\<rparr>"
  have t: "store_wf ?T" "totals_ok ?T" "\<And>k. slot_ok (get_slot ?T k)" "exactMemory ?T = exactMemory st"
    using assms(1) totals_inv [OF assms(1)]
    by (simp_all add: store_inv_def store_wf_def totals_ok_def get_slot_def getShard_def shardIndex_def exactMemory_def)
  show "fst (UsedMemory env st) = exactMemory st" "store_inv (snd (UsedMemory env st))"
    using RecomputeMemory_exact [OF t(1-3) assms(2)] RecomputeMemory_inv [OF t(1-3) assms(2)] assms(3)
    by (simp_all add: UsedMemory_def TrackMemory_def Let_def t)
qed

subsection \<open>Listing and scanning\<close>

lemma shard_keys_live:
  assumes "store_wf st" "fair_iter env" "i < length (shards st)"
  shows "set (shard_keys env (shards st ! i)) = {k. shardIndex st k = i \<and> liveEntry st k (now env) \<noteq> None}"
    and "distinct (shard_keys env (shards st ! i))"
proof -
  let ?m = "sdata (shards st ! i)"
  have "k \<in> set (gkeys env ?m) \<longleftrightarrow> map_of ?m k \<noteq> None" for k
    using gkeys_props(1) [OF assms(2), of ?m] by (simp add: map_of_eq_None_iff)
  then have "k \<in> set (shard_keys env (shards st ! i)) \<longleftrightarrow> liveSlot (now env) (map_of ?m k) \<noteq> None" for k
    by (auto simp: shard_keys_def liveSlot_def split: option.splits)
  moreover have "shardIndex st k = i \<Longrightarrow> map_of ?m k = get_slot st k" for k by (simp add: slot_shard)
  moreover have "shardIndex st k \<noteq> i \<Longrightarrow> map_of ?m k = None" for k using slot_other_shard [OF assms(1,3)] .
  ultimately have "k \<in> set (shard_keys env (shards st ! i)) \<longleftrightarrow> shardIndex st k = i \<and> liveEntry st k (now env) \<noteq> None" for k
    by (cases "shardIndex st k = i") (simp_all add: liveEntry_def liveSlot_def)
  then show "set (shard_keys env (shards st ! i)) = {k. shardIndex st k = i \<and> liveEntry st k (now env) \<noteq> None}" by blast
  show "distinct (shard_keys env (shards st ! i))"
    using gkeys_props(2) [OF assms(2) wf_gmap [OF assms(1,3)]] by (simp add: shard_keys_def)
qed

lemma fold_append: "fold (\<lambda>x acc. acc @ f x) xs acc = acc @ concat (map f xs)"
  by (induction xs arbitrary: acc) auto

lemma distinct_concat_nth:
  assumes "\<And>i. i < length xss \<Longrightarrow> distinct (xss ! i)"
    and "\<And>i j. i < length xss \<Longrightarrow> j < length xss \<Longrightarrow> i \<noteq> j \<Longrightarrow> set (xss ! i) \<inter> set (xss ! j) = {}"
  shows "distinct (concat xss)"
  using assms
proof (induction xss)
  case (Cons xs xss)
  have "distinct (concat xss)" using Cons.prems(1) [of "Suc i" for i] Cons.prems(2) [of "Suc i" "Suc j" for i j]
    by (intro Cons.IH) simp_all
  moreover have "set xs \<inter> set ys = {}" if "ys \<in> set xss" for ys
    using that Cons.prems(2) [of 0 "Suc j" for j] by (force simp: in_set_conv_nth)
  ultimately show ?case using Cons.prems(1) [of 0] by auto
qed simp

lemma length_concat_int: "int (length (concat (map f xs))) = sum_list (map (\<lambda>x. int (length (f x))) xs)"
  by (induction xs) simp_all

lemma Keys_live:
  assumes "store_wf st" "fair_iter env"
  shows "set (Keys env st) = {k. liveEntry st k (now env) \<noteq> None}" "distinct (Keys env st)"
    "Len env st = int (length (Keys env st))"
proof -
  have k: "Keys env st = concat (map (shard_keys env) (shards st))" by (simp add: Keys_def fold_append)
  have "x \<in> set (Keys env st) \<longleftrightarrow> (\<exists>i < length (shards st). x \<in> set (shard_keys env (shards st ! i)))" for x
    by (simp add: k) (metis in_set_conv_nth)
  also have "(\<exists>i < length (shards st). x \<in> set (shard_keys env (shards st ! i))) \<longleftrightarrow> liveEntry st x (now env) \<noteq> None" for x
    using shard_keys_live(1) [OF assms] shardIndex_bound [OF assms(1), of x] by blast
  finally show "set (Keys env st) = {k. liveEntry st k (now env) \<noteq> None}" by blast
  show "distinct (Keys env st)" unfolding k
    using shard_keys_live [OF assms] by (intro distinct_concat_nth) auto
  show "Len env st = int (length (Keys env st))"
    unfolding k Len_def fold_shards length_concat_int by simp
qed

lemma scan_loop_eq:
  "\<exists>m. scan_loop env c shs keys = (keys @ concat (map (shard_keys env) (take m shs)), int m) \<and>
     m \<le> length shs \<and> (shs \<noteq> [] \<longrightarrow> 1 \<le> m)"
proof (induction shs arbitrary: keys)
  case (Cons sh shs)
  let ?keys = "keys @ shard_keys env sh"
  obtain m where m: "scan_loop env c shs ?keys = (?keys @ concat (map (shard_keys env) (take m shs)), int m)" "m \<le> length shs"
    using Cons.IH [of ?keys] by blast
  show ?case
  proof (cases "int (length ?keys) \<ge> c")
    case True
    then show ?thesis by (intro exI [of _ 1]) simp
  next
    case False
    then show ?thesis using m by (intro exI [of _ "Suc m"]) simp
  qed
qed simp

lemma sint_small: "0 \<le> n \<Longrightarrow> n < 2 ^ 63 \<Longrightarrow> sint (word_of_int n :: 64 word) = n"
  by (simp add: signed_of_int signed_take_bit_int_eq_self)

lemma Scan_page:
  assumes "sint cursor = int idx" "idx < length (shards st)" "length (shards st) < 2 ^ 63"
  obtains m where "1 \<le> m" "idx + m \<le> length (shards st)"
    "fst (Scan env cursor cnt st) = concat (map (shard_keys env) (take m (drop idx (shards st))))"
    "snd (Scan env cursor cnt st) = (if idx + m = length (shards st) then 0 else word_of_int (int (idx + m)))"
    "sint (word_of_int (int (idx + m)) :: 64 word) = int (idx + m)"
proof -
  let ?c = "if cnt \<le> 0 then 10 else cnt"
  obtain m where m: "scan_loop env ?c (drop idx (shards st)) [] =
      (concat (map (shard_keys env) (take m (drop idx (shards st)))), int m)" "m \<le> length (shards st) - idx" "1 \<le> m"
    using scan_loop_eq [of env ?c "drop idx (shards st)" "[]"] assms(2) by auto
  have "sint (word_of_int (int (idx + m)) :: 64 word) = int (idx + m)"
    using m(2) assms(2,3) by (intro sint_small) simp_all
  moreover have c: "int (length (shards st)) \<le> int idx + int m \<longleftrightarrow> idx + m = length (shards st)"
    using m(2) assms(2) by linarith
  have "Scan env cursor cnt st = (concat (map (shard_keys env) (take m (drop idx (shards st)))),
      if idx + m = length (shards st) then 0 else word_of_int (int (idx + m)))"
    using m assms(1,2) c by (simp add: Scan_def Let_def)
  ultimately show ?thesis using that [of m] m assms(2) by simp
qed

text \<open>An iteration: page after page from a cursor, each on the store as it is then, for at most
  \<open>n\<close> pages.\<close>

fun scan_run :: "nat \<Rightarrow> (nat \<Rightarrow> goenv \<times> store) \<Rightarrow> int \<Rightarrow> 64 word \<Rightarrow> bytes list \<times> 64 word" where
  "scan_run 0 sts cnt cursor = ([], cursor)"
| "scan_run (Suc n) sts cnt cursor =
     (let (ks, next) = Scan (fst (sts 0)) cursor cnt (snd (sts 0))
      in if next = 0 then (ks, 0)
         else let (ks', next') = scan_run n (\<lambda>i. sts (Suc i)) cnt next in (ks @ ks', next'))"

lemma scan_run_complete:
  assumes "\<And>i. fair_iter (fst (sts i)) \<and> store_wf (snd (sts i)) \<and> length (shards (snd (sts i))) = N \<and>
      shardIndex (snd (sts i)) k = j \<and> liveEntry (snd (sts i)) k (now (fst (sts i))) \<noteq> None"
    and "N < 2 ^ 63" "sint cursor = int idx" "idx < N" "N \<le> idx + n"
  shows "(idx \<le> j \<longrightarrow> k \<in> set (fst (scan_run n sts cnt cursor))) \<and> snd (scan_run n sts cnt cursor) = 0"
  using assms(1,3-)
proof (induction n arbitrary: sts cursor idx)
  case (Suc n)
  let ?env = "fst (sts 0)" and ?st = "snd (sts 0)"
  note s0 = Suc.prems(1) [of 0]
  obtain m where m: "1 \<le> m" "idx + m \<le> N"
    "fst (Scan ?env cursor cnt ?st) = concat (map (shard_keys ?env) (take m (drop idx (shards ?st))))"
    "snd (Scan ?env cursor cnt ?st) = (if idx + m = N then 0 else word_of_int (int (idx + m)))"
    "sint (word_of_int (int (idx + m)) :: 64 word) = int (idx + m)"
    using Scan_page [of cursor idx ?st ?env cnt] Suc.prems(2,3) s0 assms(2) by metis
  have jN: "j < N" using shardIndex_bound [of ?st k] s0 by simp
  have here: "k \<in> set (fst (Scan ?env cursor cnt ?st))" if "idx \<le> j" "j < idx + m"
  proof -
    have "k \<in> set (shard_keys ?env (shards ?st ! j))"
      using shard_keys_live(1) [of ?st ?env j] s0 jN by simp
    moreover have "take m (drop idx (shards ?st)) ! (j - idx) = shards ?st ! j" "j - idx < length (take m (drop idx (shards ?st)))"
      using that jN s0 by (simp_all, linarith+)
    then have "shards ?st ! j \<in> set (take m (drop idx (shards ?st)))" by (metis nth_mem)
    ultimately show ?thesis by (auto simp: m(3))
  qed
  show ?case
  proof (cases "idx + m = N")
    case True
    then show ?thesis using here jN by (simp add: m(4) split_def)
  next
    case False
    let ?c = "word_of_int (int (idx + m)) :: 64 word"
    have "?c \<noteq> 0" using m(1,5) by auto
    moreover have "(idx + m \<le> j \<longrightarrow> k \<in> set (fst (scan_run n (\<lambda>i. sts (Suc i)) cnt ?c))) \<and>
        snd (scan_run n (\<lambda>i. sts (Suc i)) cnt ?c) = 0"
      using Suc.prems(4) m False by (intro Suc.IH [OF Suc.prems(1)]) simp_all
    ultimately show ?thesis using here False by (auto simp: m(4) Let_def split_def)
  qed
qed simp

end
