(* ===== verification/StringOps.thy ===== *)
theory StringOps
  imports Keyspace
begin

text \<open>
  The string operations of \<open>internal/store/store.go\<close>, \<open>strings.go\<close> and \<open>moreops.go\<close>, with the
  expiry and renaming of \<open>moreops.go\<close>. The body of each single-key write is a function of the slot
  it finds; the interpretations of \<open>key_writer\<close> and \<open>key_reader\<close> give each operation its frame, its
  effect on its own slot and the invariant.
\<close>

subsection \<open>Writing a whole string\<close>

abbreviation maxStringLen :: int where "maxStringLen \<equiv> 536870912"

text \<open>The entry a string write leaves: the one found is overwritten in place when it holds a string.\<close>

definition putOwnedString :: "goenv \<Rightarrow> store \<Rightarrow> slice \<Rightarrow> strOrigin \<Rightarrow> int option \<Rightarrow> entry option \<Rightarrow> entry option" where
  "putOwnedString env st v org deadline slot =
     (let fresh = touch env st ((new_entry (VString v))\<lparr>origin := org, expireAt := deadline\<rparr>)
      in Some (case slot of
           None \<Rightarrow> fresh
         | Some e \<Rightarrow>
             (case val e of
                VString _ \<Rightarrow>
                  touch env st (e\<lparr>val := VString v, expireAt := deadline, origin := org, eBytes := 0, atime := 0, freq := 0\<rparr>)
              | _ \<Rightarrow> fresh)))"

definition putString :: "goenv \<Rightarrow> store \<Rightarrow> bytes \<Rightarrow> int option \<Rightarrow> entry option \<Rightarrow> entry option" where
  "putString env st v deadline slot = putOwnedString env st (copyBytes v) strWholeValue deadline slot"

definition set_body :: "goenv \<Rightarrow> bytes \<Rightarrow> int \<Rightarrow> store \<Rightarrow> entry option \<Rightarrow> entry option \<times> unit" where
  "set_body env v ttl st slot = (putString env st v (if ttl > 0 then Some (now env + ttl) else None) slot, ())"

definition Set :: "goenv \<Rightarrow> bytes \<Rightarrow> bytes \<Rightarrow> int \<Rightarrow> store \<Rightarrow> unit \<times> store" where
  "Set env key v ttl st = write_key key (set_body env v ttl st) st"

definition setDeadline_body :: "goenv \<Rightarrow> bytes \<Rightarrow> int option \<Rightarrow> store \<Rightarrow> entry option \<Rightarrow> entry option \<times> unit" where
  "setDeadline_body env v deadline st slot = (putString env st v deadline slot, ())"

definition SetDeadline :: "goenv \<Rightarrow> bytes \<Rightarrow> bytes \<Rightarrow> int option \<Rightarrow> store \<Rightarrow> unit \<times> store" where
  "SetDeadline env key v deadline st = write_key key (setDeadline_body env v deadline st) st"

definition incr_overflows :: "int \<Rightarrow> int \<Rightarrow> bool" where
  "incr_overflows n delta \<longleftrightarrow>
     (delta > 0 \<and> n > 2 ^ 63 - 1 - delta) \<or> (delta < 0 \<and> n < - (2 ^ 63) - delta)"

definition incr_body :: "goenv \<Rightarrow> int \<Rightarrow> store \<Rightarrow> entry option \<Rightarrow> entry option \<times> int res" where
  "incr_body env delta st slot =
     (let live = liveSlot (now env) slot;
          add = (\<lambda>n deadline.
            if incr_overflows n delta then (slot, Inl ErrOverflow)
            else
              (putOwnedString env st (grown (alloc env) (FormatInt (n + delta))) strWholeValue deadline slot,
               Inr (n + delta)))
      in case live of
           None \<Rightarrow> add 0 None
         | Some e \<Rightarrow>
             (case val e of
                VString s \<Rightarrow>
                  (case ParseInt (sbytes s) of None \<Rightarrow> (slot, Inl ErrNotInteger) | Some n \<Rightarrow> add n (expireAt e))
              | _ \<Rightarrow> (slot, Inl ErrWrongType)))"

definition Incr :: "goenv \<Rightarrow> bytes \<Rightarrow> int \<Rightarrow> store \<Rightarrow> int res \<times> store" where
  "Incr env key delta st = write_key key (incr_body env delta st) st"

record SetOptions =
  NX :: bool
  XX :: bool
  oGet :: bool
  KeepTTL :: bool
  HasDeadline :: bool
  Deadline :: "int option"

definition setOptions_body :: "goenv \<Rightarrow> bytes \<Rightarrow> SetOptions \<Rightarrow> store \<Rightarrow> entry option \<Rightarrow>
    entry option \<times> (bytes option \<times> bool) res" where
  "setOptions_body env v opts st slot =
     (let e = liveSlot (now env) slot;
          finish = (\<lambda>old.
            if (NX opts \<and> e \<noteq> None) \<or> (XX opts \<and> e = None) then (slot, Inr (old, False))
            else
              let deadline = (if HasDeadline opts then Deadline opts
                              else case e of Some e' \<Rightarrow> if KeepTTL opts then expireAt e' else None | None \<Rightarrow> None)
              in (putString env st v deadline slot, Inr (old, True)))
      in case e of
           None \<Rightarrow> finish None
         | Some e' \<Rightarrow>
             if oGet opts then
               (case val e' of VString s \<Rightarrow> finish (Some (sbytes s)) | _ \<Rightarrow> (slot, Inl ErrWrongType))
             else finish None)"

definition SetWithOptions :: "goenv \<Rightarrow> bytes \<Rightarrow> bytes \<Rightarrow> SetOptions \<Rightarrow> store \<Rightarrow> (bytes option \<times> bool) res \<times> store" where
  "SetWithOptions env key v opts st = write_key key (setOptions_body env v opts st) st"

definition setNX_body :: "goenv \<Rightarrow> bytes \<Rightarrow> store \<Rightarrow> entry option \<Rightarrow> entry option \<times> bool" where
  "setNX_body env v st slot =
     (case liveSlot (now env) slot of
        Some _ \<Rightarrow> (slot, False)
      | None \<Rightarrow> (Some (touch env st (new_entry (VString (copyBytes v)))), True))"

definition SetNX :: "goenv \<Rightarrow> bytes \<Rightarrow> bytes \<Rightarrow> store \<Rightarrow> bool \<times> store" where
  "SetNX env key v st = write_key key (setNX_body env v st) st"

definition mSetNX_body :: "goenv \<Rightarrow> (bytes \<times> bytes) list \<Rightarrow> store \<Rightarrow> bool \<times> store" where
  "mSetNX_body env pairs st =
     (if \<exists>key \<in> set (map fst pairs). liveEntry st key (now env) \<noteq> None then (False, st)
      else (True, fold (\<lambda>(key, v) st'. put_slot key (Some (touch env st (new_entry (VString (copyBytes v))))) st') pairs st))"

definition MSetNX :: "goenv \<Rightarrow> (bytes \<times> bytes) list \<Rightarrow> store \<Rightarrow> bool \<times> store" where
  "MSetNX env pairs st = trackedKeys (map fst pairs) (mSetNX_body env pairs) st"

definition getSet_body :: "goenv \<Rightarrow> bytes \<Rightarrow> store \<Rightarrow> entry option \<Rightarrow> entry option \<times> bytes option res" where
  "getSet_body env v st slot =
     (case liveSlot (now env) slot of
        Some e \<Rightarrow>
          (case val e of
             VString s \<Rightarrow> (putString env st v None slot, Inr (Some (sbytes s)))
           | _ \<Rightarrow> (slot, Inl ErrWrongType))
      | None \<Rightarrow> (putString env st v None slot, Inr None))"

definition GetSet :: "goenv \<Rightarrow> bytes \<Rightarrow> bytes \<Rightarrow> store \<Rightarrow> bytes option res \<times> store" where
  "GetSet env key v st = write_key key (getSet_body env v st) st"

definition getDel_body :: "goenv \<Rightarrow> store \<Rightarrow> entry option \<Rightarrow> entry option \<times> bytes option res" where
  "getDel_body env st slot =
     (case liveSlot (now env) slot of
        None \<Rightarrow> (slot, Inr None)
      | Some e \<Rightarrow>
          (case val e of VString s \<Rightarrow> (None, Inr (Some (sbytes s))) | _ \<Rightarrow> (slot, Inl ErrWrongType)))"

definition GetDel :: "goenv \<Rightarrow> bytes \<Rightarrow> store \<Rightarrow> bytes option res \<times> store" where
  "GetDel env key st = write_key key (getDel_body env st) st"

subsection \<open>Editing a string\<close>

definition append_body :: "goenv \<Rightarrow> bytes \<Rightarrow> store \<Rightarrow> entry option \<Rightarrow> entry option \<times> int res" where
  "append_body env suffix st slot =
     (let store = (\<lambda>base deadline org.
            let nv = copyBytes (base @ suffix)
            in (Some (touch env st ((new_entry (VString nv))\<lparr>origin := org, expireAt := deadline\<rparr>)),
                Inr (int (length (sbytes nv)))))
      in case liveSlot (now env) slot of
           None \<Rightarrow> store [] None strWholeValue
         | Some e \<Rightarrow>
             (case val e of
                VString s \<Rightarrow> store (sbytes s) (expireAt e) strMutatedBuffer
              | _ \<Rightarrow> (slot, Inl ErrWrongType)))"

definition Append :: "goenv \<Rightarrow> bytes \<Rightarrow> bytes \<Rightarrow> store \<Rightarrow> int res \<times> store" where
  "Append env key suffix st = write_key key (append_body env suffix st) st"

text \<open>A buffer of \<open>n\<close> zero bytes, the base copied to its front, then the value at the offset.\<close>

definition overwrite :: "nat \<Rightarrow> bytes \<Rightarrow> bytes \<Rightarrow> bytes" where
  "overwrite offset v buf = take offset buf @ v @ drop (offset + length v) buf"

definition setRange_body :: "goenv \<Rightarrow> nat \<Rightarrow> bytes \<Rightarrow> store \<Rightarrow> entry option \<Rightarrow> entry option \<times> int res" where
  "setRange_body env offset v st slot =
     (let store = (\<lambda>base deadline.
            if length v = 0 then (slot, Inr (int (length base)))
            else
              let n = max (length base) (offset + length v);
                  nv = overwrite offset v (overwrite 0 base (replicate n (CHR 0x00)))
              in (Some (touch env st ((new_entry (VString (copyBytes nv)))\<lparr>origin := strMutatedBuffer, expireAt := deadline\<rparr>)),
                  Inr (int n)))
      in case liveSlot (now env) slot of
           None \<Rightarrow> store [] None
         | Some e \<Rightarrow> (case val e of VString s \<Rightarrow> store (sbytes s) (expireAt e) | _ \<Rightarrow> (slot, Inl ErrWrongType)))"

definition SetRange :: "goenv \<Rightarrow> bytes \<Rightarrow> int \<Rightarrow> bytes \<Rightarrow> store \<Rightarrow> int res \<times> store" where
  "SetRange env key offset v st =
     (if offset < 0 then (Inl ErrOffset, st)
      else if offset > maxStringLen \<or> int (length v) > maxStringLen - offset then (Inl ErrStringTooLong, st)
      else write_key key (setRange_body env (nat offset) v st) st)"

subsection \<open>Reading a string\<close>

definition getRange_of :: "int \<Rightarrow> int \<Rightarrow> bytes \<Rightarrow> bytes" where
  "getRange_of start stop s =
     (let n = int (length s);
          start1 = max (if start < 0 then start + n else start) 0;
          stop1 = max (if stop < 0 then stop + n else stop) 0;
          stop2 = (if stop1 \<ge> n then n - 1 else stop1)
      in if start1 > stop2 \<or> n = 0 then [] else take (nat (stop2 + 1 - start1)) (drop (nat start1) s))"

definition getRange_body :: "int \<Rightarrow> int \<Rightarrow> goenv \<Rightarrow> store \<Rightarrow> entry \<Rightarrow> entry \<times> bytes res" where
  "getRange_body start stop env st e =
     (case val e of
        VString s \<Rightarrow> (touch env st e, Inr (getRange_of start stop (sbytes s)))
      | _ \<Rightarrow> (e, Inl ErrWrongType))"

definition GetRange :: "goenv \<Rightarrow> bytes \<Rightarrow> int \<Rightarrow> int \<Rightarrow> store \<Rightarrow> bytes res \<times> store" where
  "GetRange env key start stop st = read_key env key (Inr []) (getRange_body start stop env st) st"

definition strLen_body :: "goenv \<Rightarrow> store \<Rightarrow> entry \<Rightarrow> entry \<times> int res" where
  "strLen_body env st e =
     (e, case val e of VString s \<Rightarrow> Inr (int (length (sbytes s))) | _ \<Rightarrow> Inl ErrWrongType)"

definition StrLen :: "goenv \<Rightarrow> bytes \<Rightarrow> store \<Rightarrow> int res \<times> store" where
  "StrLen env key st = read_key env key (Inr 0) (strLen_body env st) st"

definition getEx_body :: "goenv \<Rightarrow> int option \<Rightarrow> bool \<Rightarrow> store \<Rightarrow> entry option \<Rightarrow>
    entry option \<times> (bytes \<times> bool) option res" where
  "getEx_body env deadline apply_it st slot =
     (case liveSlot (now env) slot of
        None \<Rightarrow> (slot, Inr None)
      | Some e \<Rightarrow>
          (case val e of
             VString s \<Rightarrow>
               (let changed = (apply_it \<and> expireAt e \<noteq> deadline);
                    e' = (if changed then e\<lparr>expireAt := deadline\<rparr> else e)
                in (Some (touch env st e'), Inr (Some (sbytes s, changed))))
           | _ \<Rightarrow> (slot, Inl ErrWrongType)))"

definition GetEx :: "goenv \<Rightarrow> bytes \<Rightarrow> int option \<Rightarrow> bool \<Rightarrow> store \<Rightarrow> (bytes \<times> bool) option res \<times> store" where
  "GetEx env key deadline apply_it st = write_key key (getEx_body env deadline apply_it st) st"

subsection \<open>Persisting and renaming\<close>

definition persist_body :: "goenv \<Rightarrow> store \<Rightarrow> entry option \<Rightarrow> entry option \<times> bool" where
  "persist_body env st slot =
     (case liveSlot (now env) slot of
        None \<Rightarrow> (slot, False)
      | Some e \<Rightarrow> if expireAt e = None then (slot, False) else (Some (e\<lparr>expireAt := None\<rparr>), True))"

definition Persist :: "goenv \<Rightarrow> bytes \<Rightarrow> store \<Rightarrow> bool \<times> store" where
  "Persist env key st = write_key key (persist_body env st) st"

definition rename_body :: "goenv \<Rightarrow> bytes \<Rightarrow> bytes \<Rightarrow> store \<Rightarrow> bool \<times> store" where
  "rename_body env src dst st =
     (case liveEntry st src (now env) of
        None \<Rightarrow> (False, st)
      | Some e \<Rightarrow> (True, put_slot dst (Some e) (put_slot src None st)))"

definition Rename :: "goenv \<Rightarrow> bytes \<Rightarrow> bytes \<Rightarrow> store \<Rightarrow> bool \<times> store" where
  "Rename env src dst st = trackedKeys [src, dst] (rename_body env src dst) st"

subsection \<open>Well-formedness\<close>

text \<open>An overwrite in place leaves the entry that a fresh one would be.\<close>

lemma putOwnedString_fresh:
  "putOwnedString env st v org deadline slot =
     Some (touch env st ((new_entry (VString v))\<lparr>origin := org, expireAt := deadline\<rparr>))"
proof -
  have "e\<lparr>val := VString v, expireAt := deadline, origin := org, eBytes := 0, atime := 0, freq := 0\<rparr> =
      (new_entry (VString v))\<lparr>origin := org, expireAt := deadline\<rparr>" for e :: entry
    by (simp add: new_entry_def)
  then show ?thesis by (simp add: putOwnedString_def Let_def split: option.split val.split)
qed

lemma live_ok: "store_inv st \<Longrightarrow> liveEntry st k t = Some e \<Longrightarrow> entry_ok e \<and> val_nonempty (val e)"
  using store_invD(3) [of st k] by (auto dest: liveEntry_Some)

lemma liveSlot_SomeD: "liveSlot t slot = Some e \<Longrightarrow> slot = Some e \<and> \<not> expired t e"
  by (auto simp: liveSlot_def split: option.splits if_splits)

lemma liveSlot_simps [simp]: "liveSlot t None = None" "\<not> expired t e \<Longrightarrow> liveSlot t (Some e) = Some e"
  "expired t e \<Longrightarrow> liveSlot t (Some e) = None"
  by (simp_all add: liveSlot_def)

lemma string_ok [simp]: "val e = VString v \<Longrightarrow> entry_ok e"
  by (simp add: entry_ok_def)

lemma new_entry_simps [simp]:
  "val (new_entry v) = v" "expireAt (new_entry v) = None" "eBytes (new_entry v) = 0" "origin (new_entry v) = strWholeValue"
  by (simp_all add: new_entry_def)

lemma slot_ok_putString [simp]: "slot_ok (putOwnedString env st v org d slot)" "slot_ok (putString env st w d slot)"
  by (simp_all add: putString_def putOwnedString_fresh)

lemmas string_bodies = set_body_def setDeadline_body_def incr_body_def setOptions_body_def setNX_body_def
  getSet_body_def getDel_body_def append_body_def setRange_body_def getEx_body_def persist_body_def

lemma string_bodies_ok:
  assumes "slot_ok slot"
  shows "slot_ok (fst (incr_body env n st slot))" "slot_ok (fst (setOptions_body env v opts st slot))"
    "slot_ok (fst (setNX_body env v st slot))" "slot_ok (fst (getSet_body env v st slot))"
    "slot_ok (fst (getDel_body env st slot))" "slot_ok (fst (append_body env v st slot))"
    "slot_ok (fst (setRange_body env off v st slot))" "slot_ok (fst (getEx_body env d a st slot))"
    "slot_ok (fst (persist_body env st slot))"
  using assms
  by (auto simp: string_bodies Let_def entry_ok_def dest!: liveSlot_SomeD split: option.split val.split)

interpretation set: key_writer "Set env key v ttl" key "set_body env v ttl" for env key v ttl
  by unfold_locales (simp_all add: Set_def set_body_def)

interpretation setdl: key_writer "SetDeadline env key v d" key "setDeadline_body env v d" for env key v d
  by unfold_locales (simp_all add: SetDeadline_def setDeadline_body_def)

interpretation incr: key_writer "Incr env key n" key "incr_body env n" for env key n
  by unfold_locales (simp_all add: Incr_def string_bodies_ok)

interpretation setopt: key_writer "SetWithOptions env key v opts" key "setOptions_body env v opts" for env key v opts
  by unfold_locales (simp_all add: SetWithOptions_def string_bodies_ok)

interpretation setnx: key_writer "SetNX env key v" key "setNX_body env v" for env key v
  by unfold_locales (simp_all add: SetNX_def string_bodies_ok)

interpretation getset: key_writer "GetSet env key v" key "getSet_body env v" for env key v
  by unfold_locales (simp_all add: GetSet_def string_bodies_ok)

interpretation getdel: key_writer "GetDel env key" key "getDel_body env" for env key
  by unfold_locales (simp_all add: GetDel_def string_bodies_ok)

interpretation appnd: key_writer "Append env key v" key "append_body env v" for env key v
  by unfold_locales (simp_all add: Append_def string_bodies_ok)

interpretation getex: key_writer "GetEx env key d a" key "getEx_body env d a" for env key d a
  by unfold_locales (simp_all add: GetEx_def string_bodies_ok)

interpretation persist: key_writer "Persist env key" key "persist_body env" for env key
  by unfold_locales (simp_all add: Persist_def string_bodies_ok)

text \<open>The refusals of \<open>SetRange\<close> come before the shard is locked; they leave every slot.\<close>

interpretation setrange: key_writer "SetRange env key off v" key
  "\<lambda>st slot. if off < 0 then (slot, Inl ErrOffset)
     else if off > maxStringLen \<or> int (length v) > maxStringLen - off then (slot, Inl ErrStringTooLong)
     else setRange_body env (nat off) v st slot" for env key off v
proof unfold_locales
  fix st
  assume w: "store_wf st"
  show "SetRange env key off v st = write_key key (\<lambda>slot. if off < 0 then (slot, Inl ErrOffset)
     else if off > maxStringLen \<or> int (length v) > maxStringLen - off then (slot, Inl ErrStringTooLong)
     else setRange_body env (nat off) v st slot) st"
    using write_key_same [OF w, of key] by (simp add: SetRange_def write_key_def Let_def split_def)
qed (simp add: string_bodies_ok)

interpretation getrange: key_reader "\<lambda>env. GetRange env key a b" key "Inr []" "getRange_body a b" for key a b
  by unfold_locales (simp_all add: GetRange_def getRange_body_def split: val.split)

interpretation strlen: key_reader "\<lambda>env. StrLen env key" key "Inr 0" strLen_body for key
  by unfold_locales (simp_all add: StrLen_def strLen_body_def)

lemma fold_put_slots:
  assumes "store_wf st" "set (map fst kvs) \<subseteq> set ks"
  shows "data_only ks st (fold (\<lambda>(k, v) st'. put_slot k (Some (g k v)) st') kvs st)"
  using assms
proof (induction kvs arbitrary: st)
  case (Cons kv kvs)
  have "data_only ks st (put_slot (fst kv) (Some (g (fst kv) (snd kv))) st)"
    using Cons.prems by (intro data_only_put) auto
  moreover have "data_only ks (put_slot (fst kv) (Some (g (fst kv) (snd kv))) st)
      (fold (\<lambda>(k, v) st'. put_slot k (Some (g k v)) st') kvs (put_slot (fst kv) (Some (g (fst kv) (snd kv))) st))"
    using Cons.prems by (intro Cons.IH) (auto simp: put_slot_wf)
  ultimately show ?case by (auto simp: split_def intro: data_only_trans)
qed (simp add: data_only_refl)

lemma fold_put_get:
  assumes "store_wf st"
  shows "get_slot (fold (\<lambda>(k, v) st'. put_slot k (Some (g k v)) st') kvs st) k =
    (case map_of (rev kvs) k of None \<Rightarrow> get_slot st k | Some v \<Rightarrow> Some (g k v))"
  using assms
  by (induction kvs arbitrary: st) (auto simp: put_slot_wf get_put_slot map_add_def split: option.split)

interpretation msetnx: keys_writer "MSetNX env pairs" "map fst pairs" "mSetNX_body env pairs" True for env pairs
proof unfold_locales
  fix st :: store and k
  show "store_inv st \<Longrightarrow> data_only (map fst pairs) st (snd (mSetNX_body env pairs st))"
    using store_invD(1) [of st] fold_put_slots [of st pairs "map fst pairs" "\<lambda>k v. touch env st (new_entry (VString (copyBytes v)))"]
    by (simp add: mSetNX_body_def data_only_refl)
  show "store_inv st \<Longrightarrow> slot_ok (get_slot (snd (mSetNX_body env pairs st)) k)"
    using store_invD(3) [of st k]
    by (auto simp: mSetNX_body_def fold_put_get store_invD split: option.split)
qed (simp add: MSetNX_def)

interpretation rename: keys_writer "Rename env src dst" "[src, dst]" "rename_body env src dst" True for env src dst
proof unfold_locales
  fix st :: store and k
  assume "store_inv st"
  then have w: "store_wf st" by (rule store_invD)
  then have "data_only [src, dst] st (put_slot src None st)"
    "data_only [src, dst] (put_slot src None st) (put_slot dst v (put_slot src None st))" for v
    by (simp_all add: data_only_put put_slot_wf)
  then show "data_only [src, dst] st (snd (rename_body env src dst st))"
    using w by (auto simp: rename_body_def data_only_refl intro: data_only_trans split: option.split)
next
  fix st :: store and k
  assume "store_inv st"
  then show "slot_ok (get_slot (snd (rename_body env src dst st)) k)"
    using live_ok [of st src "now env"] store_invD(3) [of st k]
    by (auto simp: rename_body_def get_put_slot put_slot_wf store_invD split: option.split)
qed (simp add: Rename_def)

subsection \<open>Functional behaviour\<close>

text \<open>What a string operation leaves under its key: the value and the deadline.\<close>

definition holds :: "store \<Rightarrow> bytes \<Rightarrow> bytes \<Rightarrow> int option \<Rightarrow> bool" where
  "holds st key v d \<longleftrightarrow> (\<exists>e s. get_slot st key = Some e \<and> val e = VString s \<and> sbytes s = v \<and> expireAt e = d)"

lemma holds_GetString:
  assumes "holds st key v d" "d = None \<or> (\<exists>t. d = Some t \<and> now env < t)"
  shows "fst (fst (GetString env key st)) = Inr (Some v)"
  using assms by (auto simp: holds_def GetString_result liveEntry_def liveSlot_def expired_def)

lemma holds_putString [simp]:
  "get_slot st' key = putString env st v d slot \<Longrightarrow> holds st' key v d"
  "get_slot st' key = putOwnedString env st w org d slot \<Longrightarrow> holds st' key (sbytes w) d"
  by (simp_all add: holds_def putString_def putOwnedString_fresh)

lemma Set_holds:
  "store_inv st \<Longrightarrow> holds (snd (Set env key v ttl st)) key v (if ttl > 0 then Some (now env + ttl) else None)"
  using set.slot [of st env key v ttl] by (intro holds_putString(1)) (simp add: store_invD set_body_def)

lemma SetWithOptions_result:
  assumes "store_inv st" and "liveEntry st key (now env) = e"
  shows "\<lbrakk>oGet opts; e = Some x; kind_of (val x) \<noteq> kindString\<rbrakk> \<Longrightarrow>
      fst (SetWithOptions env key v opts st) = Inl ErrWrongType \<and> get_slot (snd (SetWithOptions env key v opts st)) key = get_slot st key"
    and "\<lbrakk>\<And>x. oGet opts \<Longrightarrow> e = Some x \<Longrightarrow> kind_of (val x) = kindString; NX opts \<longrightarrow> e = None; XX opts \<longrightarrow> e \<noteq> None\<rbrakk> \<Longrightarrow>
      (\<exists>old. fst (SetWithOptions env key v opts st) = Inr (old, True)) \<and>
      holds (snd (SetWithOptions env key v opts st)) key v
        (if HasDeadline opts then Deadline opts else if KeepTTL opts then Option.bind e expireAt else None)"
    and "\<lbrakk>\<And>x. oGet opts \<Longrightarrow> e = Some x \<Longrightarrow> kind_of (val x) = kindString; NX opts \<and> e \<noteq> None \<or> XX opts \<and> e = None\<rbrakk> \<Longrightarrow>
      (\<exists>old. fst (SetWithOptions env key v opts st) = Inr (old, False)) \<and>
      get_slot (snd (SetWithOptions env key v opts st)) key = get_slot st key"
proof -
  have w: "store_wf st" using assms(1) by (rule store_invD)
  note r = setopt.result [OF w] setopt.slot [OF w]
  have e: "liveSlot (now env) (get_slot st key) = e" using assms(2) by (simp add: liveEntry_def)
  show "\<lbrakk>oGet opts; e = Some x; kind_of (val x) \<noteq> kindString\<rbrakk> \<Longrightarrow>
      fst (SetWithOptions env key v opts st) = Inl ErrWrongType \<and> get_slot (snd (SetWithOptions env key v opts st)) key = get_slot st key"
    by (cases "val x") (simp_all add: r setOptions_body_def e)
  show "\<lbrakk>\<And>x. oGet opts \<Longrightarrow> e = Some x \<Longrightarrow> kind_of (val x) = kindString; NX opts \<longrightarrow> e = None; XX opts \<longrightarrow> e \<noteq> None\<rbrakk> \<Longrightarrow>
      (\<exists>old. fst (SetWithOptions env key v opts st) = Inr (old, True)) \<and>
      holds (snd (SetWithOptions env key v opts st)) key v
        (if HasDeadline opts then Deadline opts else if KeepTTL opts then Option.bind e expireAt else None)"
    by (cases e) (auto simp: r setOptions_body_def e Let_def holds_def putString_def putOwnedString_fresh split: val.split)
  show "\<lbrakk>\<And>x. oGet opts \<Longrightarrow> e = Some x \<Longrightarrow> kind_of (val x) = kindString; NX opts \<and> e \<noteq> None \<or> XX opts \<and> e = None\<rbrakk> \<Longrightarrow>
      (\<exists>old. fst (SetWithOptions env key v opts st) = Inr (old, False)) \<and>
      get_slot (snd (SetWithOptions env key v opts st)) key = get_slot st key"
    by (cases e) (auto simp: r setOptions_body_def e Let_def split: val.split)
qed

text \<open>\<open>Incr\<close>: a missing key counts as zero, the stored digits parse back to the result, the deadline stays.\<close>

lemma incr_overflows_iff: "int64_range n \<Longrightarrow> int64_range delta \<Longrightarrow> incr_overflows n delta \<longleftrightarrow> \<not> int64_range (n + delta)"
  unfolding int64_range_def incr_overflows_def by auto

lemma Incr_result:
  assumes "store_inv st" "liveEntry st key (now env) = live"
    and "live = None \<and> n = 0 \<or> (\<exists>e s. live = Some e \<and> val e = VString s \<and> ParseInt (sbytes s) = Some n)"
    and "int64_range n" "int64_range delta"
  shows "int64_range (n + delta) \<Longrightarrow> fst (Incr env key delta st) = Inr (n + delta) \<and>
      holds (snd (Incr env key delta st)) key (FormatInt (n + delta)) (Option.bind live expireAt)"
    and "\<not> int64_range (n + delta) \<Longrightarrow> fst (Incr env key delta st) = Inl ErrOverflow \<and>
      get_slot (snd (Incr env key delta st)) key = get_slot st key"
proof -
  have w: "store_wf st" using assms(1) by (rule store_invD)
  note r = incr.result [OF w] incr.slot [OF w]
  have e: "liveSlot (now env) (get_slot st key) = live" using assms(2) by (simp add: liveEntry_def)
  note o = incr_overflows_iff [OF assms(4,5)]
  show "int64_range (n + delta) \<Longrightarrow> fst (Incr env key delta st) = Inr (n + delta) \<and>
      holds (snd (Incr env key delta st)) key (FormatInt (n + delta)) (Option.bind live expireAt)"
    using assms(3) o by (auto simp: holds_def r incr_body_def e Let_def putOwnedString_fresh)
  show "\<not> int64_range (n + delta) \<Longrightarrow> fst (Incr env key delta st) = Inl ErrOverflow \<and>
      get_slot (snd (Incr env key delta st)) key = get_slot st key"
    using assms(3) o by (auto simp: r incr_body_def e Let_def)
qed

text \<open>\<open>SetRange\<close> writes the value at the offset, keeps every other byte and pads a gap with zeros.\<close>

lemma overwrite_nth:
  assumes "offset + length v \<le> length buf"
  shows "length (overwrite offset v buf) = length buf"
    "i < length buf \<Longrightarrow> overwrite offset v buf ! i = (if offset \<le> i \<and> i < offset + length v then v ! (i - offset) else buf ! i)"
  using assms by (auto simp: overwrite_def nth_append)

lemma setRange_bytes:
  fixes base v :: bytes and offset :: nat
  assumes "n = max (length base) (offset + length v)"
  defines "nv \<equiv> overwrite offset v (overwrite 0 base (replicate n (CHR 0x00)))"
  shows "length nv = n"
    and "i < n \<Longrightarrow> nv ! i = (if offset \<le> i \<and> i < offset + length v then v ! (i - offset)
                        else if i < length base then base ! i else CHR 0x00)"
proof -
  let ?b = "overwrite 0 base (replicate n (CHR 0x00))"
  have n: "length base \<le> n" "offset + length v \<le> n" using assms(1) by simp_all
  have b: "length ?b = n" "i < n \<Longrightarrow> ?b ! i = (if i < length base then base ! i else CHR 0x00)" for i
    using overwrite_nth [of 0 base "replicate n (CHR 0x00)"] n by auto
  then show "length nv = n"
    and "i < n \<Longrightarrow> nv ! i = (if offset \<le> i \<and> i < offset + length v then v ! (i - offset)
                        else if i < length base then base ! i else CHR 0x00)"
    using overwrite_nth [of offset v ?b] n by (simp_all add: nv_def)
qed

lemma SetRange_result:
  assumes "store_inv st" "liveEntry st key (now env) = live" "0 \<le> offset" "offset + int (length v) \<le> maxStringLen" "v \<noteq> []"
    and "live = None \<and> base = [] \<or> (\<exists>e s. live = Some e \<and> val e = VString s \<and> sbytes s = base)"
    and n: "n = max (length base) (nat offset + length v)"
  shows "fst (SetRange env key offset v st) = Inr (int n)"
    and "holds (snd (SetRange env key offset v st)) key
          (overwrite (nat offset) v (overwrite 0 base (replicate n (CHR 0x00)))) (Option.bind live expireAt)"
proof -
  have w: "store_wf st" using assms(1) by (rule store_invD)
  have e: "liveSlot (now env) (get_slot st key) = live" using assms(2) by (simp add: liveEntry_def)
  note r = setrange.result [OF w] setrange.slot [OF w]
  show "fst (SetRange env key offset v st) = Inr (int n)"
    using assms(3-6) by (auto simp: r setRange_body_def e Let_def n)
  show "holds (snd (SetRange env key offset v st)) key
          (overwrite (nat offset) v (overwrite 0 base (replicate n (CHR 0x00)))) (Option.bind live expireAt)"
    using assms(3-6) by (auto simp: holds_def r setRange_body_def e Let_def n)
qed

lemma GetRange_slice:
  assumes "0 \<le> a" "a \<le> b" "b < int (length s)"
  shows "getRange_of a b s = take (nat (b - a + 1)) (drop (nat a) s)"
    and "getRange_of (a - int (length s)) (b - int (length s)) s = take (nat (b - a + 1)) (drop (nat a) s)"
  using assms by (simp_all add: getRange_of_def Let_def algebra_simps)

lemma getRange_of_all: "getRange_of 0 (-1) s = s"
  by (cases s) (simp_all add: getRange_of_def Let_def)

lemma Append_result:
  assumes "store_inv st" "liveEntry st key (now env) = live"
    and "live = None \<and> base = [] \<or> (\<exists>e s. live = Some e \<and> val e = VString s \<and> sbytes s = base)"
  shows "fst (Append env key v st) = Inr (int (length base + length v))"
    and "holds (snd (Append env key v st)) key (base @ v) (Option.bind live expireAt)"
proof -
  have w: "store_wf st" using assms(1) by (rule store_invD)
  have e: "liveSlot (now env) (get_slot st key) = live" using assms(2) by (simp add: liveEntry_def)
  show "fst (Append env key v st) = Inr (int (length base + length v))"
    "holds (snd (Append env key v st)) key (base @ v) (Option.bind live expireAt)"
    using assms(3) by (auto simp: holds_def appnd.result [OF w] appnd.slot [OF w] append_body_def e Let_def)
qed

text \<open>\<open>MSetNX\<close> writes every pair or none.\<close>

lemma MSetNX_all_or_nothing:
  assumes "store_inv st" "distinct (map fst pairs)"
  shows "fst (MSetNX env pairs st) \<longleftrightarrow> (\<forall>key \<in> set (map fst pairs). liveEntry st key (now env) = None)"
    and "fst (MSetNX env pairs st) \<Longrightarrow> (key, v) \<in> set pairs \<Longrightarrow> holds (snd (MSetNX env pairs st)) key v None"
    and "\<not> fst (MSetNX env pairs st) \<Longrightarrow> get_slot (snd (MSetNX env pairs st)) k = get_slot st k"
    and "k \<notin> set (map fst pairs) \<Longrightarrow> get_slot (snd (MSetNX env pairs st)) k = get_slot st k"
proof -
  note s = msetnx.slot [OF assms(1) TrueI] and r = msetnx.result [OF store_invD(1) [OF assms(1)]]
  show c: "fst (MSetNX env pairs st) \<longleftrightarrow> (\<forall>key \<in> set (map fst pairs). liveEntry st key (now env) = None)"
    by (simp add: r mSetNX_body_def)
  have "map_of (rev pairs) key = Some v" if "(key, v) \<in> set pairs" for key v
    using that assms(2) by (subst map_of_eq_Some_iff) (simp_all flip: rev_map)
  then show "fst (MSetNX env pairs st) \<Longrightarrow> (key, v) \<in> set pairs \<Longrightarrow> holds (snd (MSetNX env pairs st)) key v None"
    by (auto simp: c holds_def s) (auto simp: mSetNX_body_def fold_put_get store_invD assms(1))
  show "\<not> fst (MSetNX env pairs st) \<Longrightarrow> get_slot (snd (MSetNX env pairs st)) k = get_slot st k"
    by (auto simp: s r) (auto simp: mSetNX_body_def split: if_splits)
  show "k \<notin> set (map fst pairs) \<Longrightarrow> get_slot (snd (MSetNX env pairs st)) k = get_slot st k"
    by (rule msetnx.frame [OF assms(1) TrueI])
qed

lemma Rename_moves:
  assumes "store_inv st" "src \<noteq> dst"
  shows "fst (Rename env src dst st) \<longleftrightarrow> liveEntry st src (now env) \<noteq> None"
    and "fst (Rename env src dst st) \<Longrightarrow> get_slot (snd (Rename env src dst st)) dst = get_slot st src \<and>
      get_slot (snd (Rename env src dst st)) src = None"
    and "\<not> fst (Rename env src dst st) \<Longrightarrow> get_slot (snd (Rename env src dst st)) k = get_slot st k"
proof -
  note s = rename.slot [OF assms(1) TrueI] and r = rename.result [OF store_invD(1) [OF assms(1)]]
  show "fst (Rename env src dst st) \<longleftrightarrow> liveEntry st src (now env) \<noteq> None"
    by (simp add: r rename_body_def split: option.split)
  show "fst (Rename env src dst st) \<Longrightarrow> get_slot (snd (Rename env src dst st)) dst = get_slot st src \<and>
      get_slot (snd (Rename env src dst st)) src = None"
    unfolding s r using assms store_invD(1) [OF assms(1)]
    by (auto simp: rename_body_def get_put_slot put_slot_wf dest: liveEntry_Some split: option.splits)
  show "\<not> fst (Rename env src dst st) \<Longrightarrow> get_slot (snd (Rename env src dst st)) k = get_slot st k"
    unfolding s r by (auto simp: rename_body_def split: option.splits)
qed

end
