(* ===== verification/ListOps.thy ===== *)
theory ListOps
  imports StringOps
begin

text \<open>
  The list commands of \<open>internal/store/types.go\<close> and \<open>internal/store/list.go\<close> on the deque. Each
  write is interpreted as a \<open>key_writer\<close> (the push as a conditional one: it needs an element to
  push), \<open>LMove\<close> as a \<open>keys_writer\<close> with the aliasing of a rotation written out, and each read as a
  \<open>key_reader\<close>. The lemmas give the list each operation leaves.
\<close>

subsection \<open>Pushing and popping\<close>

definition push_end :: "bool \<Rightarrow> bytes \<Rightarrow> deque \<Rightarrow> deque" where
  "push_end left v d = (if left then lpush v d else rpush v d)"

definition pop_end :: "bool \<Rightarrow> deque \<Rightarrow> deque \<times> bytes option" where
  "pop_end left d = (if left then lpop d else rpop d)"

definition listPushMaybe_body :: "goenv \<Rightarrow> bool \<Rightarrow> bytes list \<Rightarrow> bool \<Rightarrow> store \<Rightarrow> entry option \<Rightarrow> entry option \<times> int res" where
  "listPushMaybe_body env left vals requireExisting st slot =
     (let push = (\<lambda>e d. let d' = fold (push_end left) vals d
                       in (Some (touch env st (e\<lparr>val := VList d'\<rparr>)), Inr (dlen d')))
      in case liveSlot (now env) slot of
           Some e \<Rightarrow> (case val e of VList d \<Rightarrow> push e d | _ \<Rightarrow> (slot, Inl ErrWrongType))
         | None \<Rightarrow>
             if requireExisting then (slot, Inr 0)
             else push (new_entry (VList newDeque)) newDeque)"

definition listPushMaybe :: "goenv \<Rightarrow> bytes \<Rightarrow> bool \<Rightarrow> bytes list \<Rightarrow> bool \<Rightarrow> store \<Rightarrow> int res \<times> store" where
  "listPushMaybe env key left vals requireExisting st =
     write_key key (listPushMaybe_body env left vals requireExisting st) st"

definition listPush :: "goenv \<Rightarrow> bytes \<Rightarrow> bool \<Rightarrow> bytes list \<Rightarrow> store \<Rightarrow> int res \<times> store" where
  "listPush env key left vals = listPushMaybe env key left vals False"

definition listPushX :: "goenv \<Rightarrow> bytes \<Rightarrow> bool \<Rightarrow> bytes list \<Rightarrow> store \<Rightarrow> int res \<times> store" where
  "listPushX env key left vals = listPushMaybe env key left vals True"

definition LPush :: "goenv \<Rightarrow> bytes \<Rightarrow> bytes list \<Rightarrow> store \<Rightarrow> int res \<times> store" where
  "LPush env key vals = listPush env key True vals"

definition RPush :: "goenv \<Rightarrow> bytes \<Rightarrow> bytes list \<Rightarrow> store \<Rightarrow> int res \<times> store" where
  "RPush env key vals = listPush env key False vals"

definition LPushX :: "goenv \<Rightarrow> bytes \<Rightarrow> bytes list \<Rightarrow> store \<Rightarrow> int res \<times> store" where
  "LPushX env key vals = listPushX env key True vals"

definition RPushX :: "goenv \<Rightarrow> bytes \<Rightarrow> bytes list \<Rightarrow> store \<Rightarrow> int res \<times> store" where
  "RPushX env key vals = listPushX env key False vals"

text \<open>What is stored of a list after an element may have gone: nothing when it is empty.\<close>

definition store_list :: "goenv \<Rightarrow> store \<Rightarrow> entry \<Rightarrow> deque \<Rightarrow> entry option" where
  "store_list env st e d = (if dlen d = 0 then None else Some (touch env st (e\<lparr>val := VList d\<rparr>)))"

definition listPop_body :: "goenv \<Rightarrow> bool \<Rightarrow> store \<Rightarrow> entry option \<Rightarrow> entry option \<times> bytes option res" where
  "listPop_body env left st slot =
     (case liveSlot (now env) slot of
        None \<Rightarrow> (slot, Inr None)
      | Some e \<Rightarrow>
          (case val e of
             VList d \<Rightarrow> (let (d', v) = pop_end left d in (store_list env st e d', Inr v))
           | _ \<Rightarrow> (slot, Inl ErrWrongType)))"

definition listPop :: "goenv \<Rightarrow> bytes \<Rightarrow> bool \<Rightarrow> store \<Rightarrow> bytes option res \<times> store" where
  "listPop env key left st = write_key key (listPop_body env left st) st"

definition LPop :: "goenv \<Rightarrow> bytes \<Rightarrow> store \<Rightarrow> bytes option res \<times> store" where
  "LPop env key = listPop env key True"

definition RPop :: "goenv \<Rightarrow> bytes \<Rightarrow> store \<Rightarrow> bytes option res \<times> store" where
  "RPop env key = listPop env key False"

fun pop_loop :: "nat \<Rightarrow> bool \<Rightarrow> deque \<Rightarrow> deque \<times> bytes list" where
  "pop_loop 0 left d = (d, [])"
| "pop_loop (Suc n) left d =
     (case pop_end left d of
        (d', None) \<Rightarrow> (d', [])
      | (d', Some v) \<Rightarrow> (let (d'', vs) = pop_loop n left d' in (d'', v # vs)))"

definition lPopCount_body :: "goenv \<Rightarrow> int \<Rightarrow> bool \<Rightarrow> store \<Rightarrow> entry option \<Rightarrow> entry option \<times> bytes list option res" where
  "lPopCount_body env n left st slot =
     (case liveSlot (now env) slot of
        None \<Rightarrow> (slot, Inr None)
      | Some e \<Rightarrow>
          (case val e of
             VList d \<Rightarrow> (let (d', vs) = pop_loop (nat n) left d in (store_list env st e d', Inr (Some vs)))
           | _ \<Rightarrow> (slot, Inl ErrWrongType)))"

definition LPopCount :: "goenv \<Rightarrow> bytes \<Rightarrow> int \<Rightarrow> bool \<Rightarrow> store \<Rightarrow> bytes list option res \<times> store" where
  "LPopCount env key n left st = write_key key (lPopCount_body env n left st) st"

subsection \<open>Editing\<close>

definition lSet_body :: "goenv \<Rightarrow> int \<Rightarrow> bytes \<Rightarrow> store \<Rightarrow> entry option \<Rightarrow> entry option \<times> unit res" where
  "lSet_body env index v st slot =
     (case liveSlot (now env) slot of
        None \<Rightarrow> (slot, Inl ErrNoSuchKey)
      | Some e \<Rightarrow>
          (case val e of
             VList d \<Rightarrow>
               (case at index d of
                  None \<Rightarrow> (slot, Inl ErrIndexOutOfRange)
                | Some i \<Rightarrow> (Some (touch env st (e\<lparr>val := VList (setValue i v d)\<rparr>)), Inr ()))
           | _ \<Rightarrow> (slot, Inl ErrWrongType)))"

definition LSet :: "goenv \<Rightarrow> bytes \<Rightarrow> int \<Rightarrow> bytes \<Rightarrow> store \<Rightarrow> unit res \<times> store" where
  "LSet env key index v st = write_key key (lSet_body env index v st) st"

definition lInsert_body :: "goenv \<Rightarrow> bool \<Rightarrow> bytes \<Rightarrow> bytes \<Rightarrow> store \<Rightarrow> entry option \<Rightarrow> entry option \<times> int res" where
  "lInsert_body env before pivot v st slot =
     (case liveSlot (now env) slot of
        None \<Rightarrow> (slot, Inr 0)
      | Some e \<Rightarrow>
          (case val e of
             VList d \<Rightarrow>
               (let (d', n) = insertAt pivot v before d; e' = e\<lparr>val := VList d'\<rparr>
                in (Some (if n > 0 then touch env st e' else e'), Inr n))
           | _ \<Rightarrow> (slot, Inl ErrWrongType)))"

definition LInsert :: "goenv \<Rightarrow> bytes \<Rightarrow> bool \<Rightarrow> bytes \<Rightarrow> bytes \<Rightarrow> store \<Rightarrow> int res \<times> store" where
  "LInsert env key before pivot v st = write_key key (lInsert_body env before pivot v st) st"

definition lRem_body :: "goenv \<Rightarrow> int \<Rightarrow> bytes \<Rightarrow> store \<Rightarrow> entry option \<Rightarrow> entry option \<times> int res" where
  "lRem_body env cnt v st slot =
     (case liveSlot (now env) slot of
        None \<Rightarrow> (slot, Inr 0)
      | Some e \<Rightarrow>
          (case val e of
             VList d \<Rightarrow>
               (let (d', removed) = removeVal cnt v d; e' = e\<lparr>val := VList d'\<rparr>
                in (if dlen d' = 0 then None else if removed > 0 then Some (touch env st e') else Some e',
                    Inr removed))
           | _ \<Rightarrow> (slot, Inl ErrWrongType)))"

definition LRem :: "goenv \<Rightarrow> bytes \<Rightarrow> int \<Rightarrow> bytes \<Rightarrow> store \<Rightarrow> int res \<times> store" where
  "LRem env key cnt v st = write_key key (lRem_body env cnt v st) st"

definition lTrim_body :: "goenv \<Rightarrow> int \<Rightarrow> int \<Rightarrow> store \<Rightarrow> entry option \<Rightarrow> entry option \<times> bool res" where
  "lTrim_body env start stop st slot =
     (case liveSlot (now env) slot of
        None \<Rightarrow> (slot, Inr False)
      | Some e \<Rightarrow>
          (case val e of
             VList d \<Rightarrow> (let d' = trim start stop d in (store_list env st e d', Inr (dlen d' \<noteq> dlen d)))
           | _ \<Rightarrow> (slot, Inl ErrWrongType)))"

definition LTrim :: "goenv \<Rightarrow> bytes \<Rightarrow> int \<Rightarrow> int \<Rightarrow> store \<Rightarrow> bool res \<times> store" where
  "LTrim env key start stop st = write_key key (lTrim_body env start stop st) st"

text \<open>\<open>LMove\<close>: when the two keys are equal, source and destination are one entry.\<close>

definition lMove_body :: "goenv \<Rightarrow> bytes \<Rightarrow> bytes \<Rightarrow> bool \<Rightarrow> bool \<Rightarrow> store \<Rightarrow> bytes option res \<times> store" where
  "lMove_body env src dst srcLeft dstLeft st =
     (case liveEntry st src (now env) of
        None \<Rightarrow> (Inr None, st)
      | Some se \<Rightarrow>
          (case val se of
             VList sd \<Rightarrow>
               if src = dst then
                 (case pop_end srcLeft sd of
                    (_, None) \<Rightarrow> (Inr None, st)
                  | (sd', Some v) \<Rightarrow>
                      let d' = push_end dstLeft v sd'; e' = touch env st (touch env st (se\<lparr>val := VList d'\<rparr>))
                      in (Inr (Some v), put_slot src (if dlen d' = 0 then None else Some e') st))
               else
                 (let move = (\<lambda>de dd.
                        case pop_end srcLeft sd of
                          (_, None) \<Rightarrow> (Inr None, st)
                        | (sd', Some v) \<Rightarrow>
                            (Inr (Some v),
                             put_slot dst (Some (touch env st (de\<lparr>val := VList (push_end dstLeft v dd)\<rparr>)))
                               (put_slot src (store_list env st se sd') st)))
                  in case liveEntry st dst (now env) of
                       None \<Rightarrow> move (new_entry (VList newDeque)) newDeque
                     | Some de \<Rightarrow> (case val de of VList dd \<Rightarrow> move de dd | _ \<Rightarrow> (Inl ErrWrongType, st)))
           | _ \<Rightarrow> (Inl ErrWrongType, st)))"

definition LMove :: "goenv \<Rightarrow> bytes \<Rightarrow> bytes \<Rightarrow> bool \<Rightarrow> bool \<Rightarrow> store \<Rightarrow> bytes option res \<times> store" where
  "LMove env src dst srcLeft dstLeft st = trackedKeys [src, dst] (lMove_body env src dst srcLeft dstLeft) st"

subsection \<open>Reads\<close>

definition lRange_body :: "int \<Rightarrow> int \<Rightarrow> goenv \<Rightarrow> store \<Rightarrow> entry \<Rightarrow> entry \<times> bytes list res" where
  "lRange_body start stop env st e =
     (case val e of VList d \<Rightarrow> (touch env st e, Inr (rangeIdx start stop d)) | _ \<Rightarrow> (e, Inl ErrWrongType))"

definition LRange :: "goenv \<Rightarrow> bytes \<Rightarrow> int \<Rightarrow> int \<Rightarrow> store \<Rightarrow> bytes list res \<times> store" where
  "LRange env key start stop st = read_key env key (Inr []) (lRange_body start stop env st) st"

definition lLen_body :: "goenv \<Rightarrow> store \<Rightarrow> entry \<Rightarrow> entry \<times> int res" where
  "lLen_body env st e = (e, case val e of VList d \<Rightarrow> Inr (dlen d) | _ \<Rightarrow> Inl ErrWrongType)"

definition LLen :: "goenv \<Rightarrow> bytes \<Rightarrow> store \<Rightarrow> int res \<times> store" where
  "LLen env key st = read_key env key (Inr 0) (lLen_body env st) st"

definition lIndex_body :: "int \<Rightarrow> goenv \<Rightarrow> store \<Rightarrow> entry \<Rightarrow> entry \<times> bytes option res" where
  "lIndex_body index env st e =
     (case val e of
        VList d \<Rightarrow> (touch env st e, Inr (map_option (\<lambda>i. dl d ! i) (at index d)))
      | _ \<Rightarrow> (e, Inl ErrWrongType))"

definition LIndex :: "goenv \<Rightarrow> bytes \<Rightarrow> int \<Rightarrow> store \<Rightarrow> bytes option res \<times> store" where
  "LIndex env key index st = read_key env key (Inr None) (lIndex_body index env st) st"

definition lPos_body :: "bytes \<Rightarrow> int \<Rightarrow> int \<Rightarrow> int \<Rightarrow> goenv \<Rightarrow> store \<Rightarrow> entry \<Rightarrow> entry \<times> int list res" where
  "lPos_body v rank cnt maxlen env st e =
     (case val e of
        VList d \<Rightarrow> (touch env st e, Inr (positions v rank cnt maxlen d))
      | _ \<Rightarrow> (e, Inl ErrWrongType))"

definition LPos :: "goenv \<Rightarrow> bytes \<Rightarrow> bytes \<Rightarrow> int \<Rightarrow> int \<Rightarrow> int \<Rightarrow> store \<Rightarrow> int list res \<times> store" where
  "LPos env key v rank cnt maxlen st = read_key env key (Inr []) (lPos_body v rank cnt maxlen env st) st"

subsection \<open>Well-formedness\<close>

lemma push_end_simps [simp]:
  "deque_ok (push_end left v d) = deque_ok d" "dl (push_end left v d) = (if left then v # dl d else dl d @ [v])"
  by (simp_all add: push_end_def)

lemma fold_push_end:
  "deque_ok (fold (push_end left) vs d) = deque_ok d"
  "dl (fold (push_end left) vs d) = (if left then rev vs @ dl d else dl d @ vs)"
  by (induction vs arbitrary: d) auto

lemma pop_end_simps:
  "dl (fst (pop_end left d)) = (if left then tl (dl d) else butlast (dl d))"
  "snd (pop_end left d) = (if dl d = [] then None else Some (if left then hd (dl d) else last (dl d)))"
  "deque_ok d \<Longrightarrow> deque_ok (fst (pop_end left d))"
  by (simp_all add: pop_end_def lpop_simps rpop_simps)

lemma pop_loop_Suc:
  "pop_loop (Suc n) left d =
     (if dl d = [] then (fst (pop_end left d), [])
      else (fst (pop_loop n left (fst (pop_end left d))),
            (if left then hd (dl d) else last (dl d)) # snd (pop_loop n left (fst (pop_end left d)))))"
  using pop_end_simps(2) [of left d] by (cases "pop_end left d") (auto simp: split_def Let_def split: if_splits)

declare pop_loop.simps(2) [simp del]

lemma pop_loop_simps:
  "deque_ok d \<Longrightarrow> deque_ok (fst (pop_loop n left d))"
  "dl (fst (pop_loop n left d)) = (if left then drop n (dl d) else take (length (dl d) - n) (dl d))"
  "snd (pop_loop n left d) = (if left then take n (dl d) else take n (rev (dl d)))"
proof (induction n arbitrary: d)
  case (Suc n)
  have r: "xs \<noteq> [] \<Longrightarrow> rev xs = last xs # rev (butlast xs)" for xs :: "bytes list"
    by (metis append_butlast_last_id rev_eq_Cons_iff rev_rev_ident)
  have l: "xs \<noteq> [] \<Longrightarrow> take (Suc n) xs = hd xs # take n (tl xs)" for xs :: "bytes list" by (cases xs) simp_all
  {
    case 1
    then show ?case using Suc(1) by (simp add: pop_loop_Suc pop_end_simps(3))
  next
    case 2
    then show ?case using Suc(2) by (auto simp: pop_loop_Suc pop_end_simps(1) take_butlast drop_Suc)
  next
    case 3
    then show ?case using Suc(3) by (auto simp: pop_loop_Suc pop_end_simps(1) r l)
  }
qed simp_all

lemma list_ok [simp]: "val e = VList d \<Longrightarrow> entry_ok e = deque_ok d"
  by (simp add: entry_ok_def)

lemma store_list_ok [simp]: "deque_ok d \<Longrightarrow> slot_ok (store_list env st e d)"
  by (simp add: store_list_def dlen_def)

lemmas list_bodies = listPop_body_def lPopCount_body_def lSet_body_def lInsert_body_def lRem_body_def lTrim_body_def

lemma listPush_ok: "vals \<noteq> [] \<Longrightarrow> slot_ok slot \<Longrightarrow> slot_ok (fst (listPushMaybe_body env left vals req st slot))"
  by (auto simp: listPushMaybe_body_def Let_def fold_push_end dest!: liveSlot_SomeD split: option.split val.split)

lemma list_bodies_ok:
  assumes "slot_ok slot"
  shows "slot_ok (fst (listPop_body env left st slot))" "slot_ok (fst (lPopCount_body env n left st slot))"
    "slot_ok (fst (lSet_body env i v st slot))" "slot_ok (fst (lInsert_body env before pivot v st slot))"
    "slot_ok (fst (lRem_body env n v st slot))" "slot_ok (fst (lTrim_body env a b st slot))"
  using assms
  by (auto simp: list_bodies Let_def split_def pop_end_simps pop_loop_simps trim_ok insertAt_ok insertAt_dl removeVal_ok
      setValue_ok at_bound dlen_def dest!: liveSlot_SomeD split: option.split val.split)
    (auto simp: setValue_def)

interpretation push: key_writer_if "listPushMaybe env key left vals req" key "listPushMaybe_body env left vals req" "vals \<noteq> []"
  for env key left vals req
  by unfold_locales (simp_all add: listPushMaybe_def listPush_ok)

interpretation pop: key_writer "listPop env key left" key "listPop_body env left" for env key left
  by unfold_locales (simp_all add: listPop_def list_bodies_ok)

interpretation popn: key_writer "LPopCount env key n left" key "lPopCount_body env n left" for env key n left
  by unfold_locales (simp_all add: LPopCount_def list_bodies_ok)

interpretation lset: key_writer "LSet env key i v" key "lSet_body env i v" for env key i v
  by unfold_locales (simp_all add: LSet_def list_bodies_ok)

interpretation linsert: key_writer "LInsert env key before pivot v" key "lInsert_body env before pivot v" for env key before pivot v
  by unfold_locales (simp_all add: LInsert_def list_bodies_ok)

interpretation lrem: key_writer "LRem env key n v" key "lRem_body env n v" for env key n v
  by unfold_locales (simp_all add: LRem_def list_bodies_ok)

interpretation ltrim: key_writer "LTrim env key a b" key "lTrim_body env a b" for env key a b
  by unfold_locales (simp_all add: LTrim_def list_bodies_ok)

interpretation lrange: key_reader "\<lambda>env. LRange env key a b" key "Inr []" "lRange_body a b" for key a b
  by unfold_locales (simp_all add: LRange_def lRange_body_def split: val.split)

interpretation llen: key_reader "\<lambda>env. LLen env key" key "Inr 0" lLen_body for key
  by unfold_locales (simp_all add: LLen_def lLen_body_def)

interpretation lindex: key_reader "\<lambda>env. LIndex env key i" key "Inr None" "lIndex_body i" for key i
  by unfold_locales (simp_all add: LIndex_def lIndex_body_def split: val.split)

interpretation lpos: key_reader "\<lambda>env. LPos env key v r c m" key "Inr []" "lPos_body v r c m" for key v r c m
  by unfold_locales (simp_all add: LPos_def lPos_body_def split: val.split)

subsection \<open>Moving between lists\<close>

lemma lMove_cases:
  assumes "store_inv st"
  obtains (none) "snd (lMove_body env src dst sl dl' st) = st" "\<And>v. fst (lMove_body env src dst sl dl' st) \<noteq> Inr (Some v)"
  | (rotate) se sd v where "src = dst" "liveEntry st src (now env) = Some se" "val se = VList sd" "deque_ok sd" "dl sd \<noteq> []"
      "v = (if sl then hd (dl sd) else last (dl sd))"
      "lMove_body env src dst sl dl' st =
        (Inr (Some v), put_slot src (Some (touch env st (touch env st (se\<lparr>val := VList (push_end dl' v (fst (pop_end sl sd)))\<rparr>)))) st)"
  | (move) se sd de dd v where "src \<noteq> dst" "liveEntry st src (now env) = Some se" "val se = VList sd" "deque_ok sd" "dl sd \<noteq> []"
      "v = (if sl then hd (dl sd) else last (dl sd))" "deque_ok dd"
      "liveEntry st dst (now env) = None \<and> de = new_entry (VList newDeque) \<and> dd = newDeque \<or>
       liveEntry st dst (now env) = Some de \<and> val de = VList dd"
      "lMove_body env src dst sl dl' st =
        (Inr (Some v), put_slot dst (Some (touch env st (de\<lparr>val := VList (push_end dl' v dd)\<rparr>)))
           (put_slot src (store_list env st se (fst (pop_end sl sd))) st))"
proof (cases "liveEntry st src (now env)")
  case None
  then show ?thesis using none by (simp add: lMove_body_def)
next
  case (Some se)
  show ?thesis
  proof (cases "\<exists>sd. val se = VList sd")
    case False
    then show ?thesis using none Some by (cases "val se") (simp_all add: lMove_body_def)
  next
    case True
    then obtain sd where sd: "val se = VList sd" by blast
    have ok: "deque_ok sd" "dl sd \<noteq> []" using live_ok [OF assms Some] sd by simp_all
    obtain sd' v where p: "pop_end sl sd = (sd', Some v)" and v: "v = (if sl then hd (dl sd) else last (dl sd))"
      using pop_end_simps(2) [of sl sd] ok(2) by (cases "pop_end sl sd") simp
    show ?thesis
    proof (cases "src = dst")
      case True
      have "lMove_body env src dst sl dl' st =
        (Inr (Some v), put_slot src (Some (touch env st (touch env st (se\<lparr>val := VList (push_end dl' v (fst (pop_end sl sd)))\<rparr>)))) st)"
        using Some sd p True by (simp add: lMove_body_def Let_def dlen_def)
      then show ?thesis using rotate [OF True Some sd ok v] by simp
    next
      case False
      show ?thesis
      proof (cases "liveEntry st dst (now env)")
        case None
        have "lMove_body env src dst sl dl' st =
          (Inr (Some v), put_slot dst (Some (touch env st ((new_entry (VList newDeque))\<lparr>val := VList (push_end dl' v newDeque)\<rparr>)))
             (put_slot src (store_list env st se (fst (pop_end sl sd))) st))"
          using Some None sd p False by (simp add: lMove_body_def Let_def)
        then show ?thesis using move [OF False Some sd ok v _ disjI1] None by simp
      next
        case de: (Some de)
        show ?thesis
        proof (cases "\<exists>dd. val de = VList dd")
          case True
          then obtain dd where dd: "val de = VList dd" by blast
          have "lMove_body env src dst sl dl' st =
            (Inr (Some v), put_slot dst (Some (touch env st (de\<lparr>val := VList (push_end dl' v dd)\<rparr>)))
               (put_slot src (store_list env st se (fst (pop_end sl sd))) st))"
            using Some de dd sd p False by (simp add: lMove_body_def Let_def)
          moreover have "deque_ok dd" using live_ok [OF assms de] dd by simp
          ultimately show ?thesis using move [OF False Some sd ok v _ disjI2] de dd by simp
        next
          case ndd: False
          have "lMove_body env src dst sl dl' st = (Inl ErrWrongType, st)"
            using Some de sd p False ndd by (cases "val de") (simp_all add: lMove_body_def Let_def)
          then show ?thesis using none by simp
        qed
      qed
    qed
  qed
qed

lemma pop_push_ok [simp]: "deque_ok d \<Longrightarrow> deque_ok (push_end r v (fst (pop_end l d)))"
  by (simp add: pop_end_simps(3))

lemma data_only_put2: "store_wf st \<Longrightarrow> data_only [a, b] st (put_slot b v (put_slot a u st))"
  by (rule data_only_trans [of _ _ "put_slot a u st"]) (simp_all add: data_only_put put_slot_wf)

interpretation lmove: keys_writer "LMove env src dst sl dl'" "[src, dst]" "lMove_body env src dst sl dl'" True
  for env src dst sl dl'
proof unfold_locales
  fix st :: store and k
  assume i: "store_inv st"
  note w = store_invD(1) [OF i]
  show "data_only [src, dst] st (snd (lMove_body env src dst sl dl' st))"
    by (cases rule: lMove_cases [OF i, of env src dst sl dl'])
      (simp_all add: w data_only_refl data_only_put data_only_put2)
  show "slot_ok (get_slot (snd (lMove_body env src dst sl dl' st)) k)"
    by (cases rule: lMove_cases [OF i, of env src dst sl dl'])
      (simp_all add: w get_put_slot put_slot_wf store_invD(3) [OF i] pop_end_simps(3))
qed (simp add: LMove_def)

text \<open>A rotation keeps the elements, so settling its one key twice is harmless.\<close>

lemma pop_push_bytes:
  assumes "dl d \<noteq> []" "v = (if l then hd (dl d) else last (dl d))"
  shows "mset (dl (push_end r v (fst (pop_end l d)))) = mset (dl d)"
proof -
  have "mset (tl xs) + {#hd xs#} = mset xs" "mset (butlast xs) + {#last xs#} = mset xs" if "xs \<noteq> []" for xs :: "bytes list"
    using that by (cases xs; simp) (metis append_butlast_last_id mset.simps mset_append that union_mset_add_mset_right add.right_neutral)
  with assms show ?thesis by (auto simp: pop_end_simps(1))
qed

lemma deque_bytes_mset: "deque_ok d \<Longrightarrow> deque_ok d' \<Longrightarrow> mset (dl d) = mset (dl d') \<Longrightarrow> dbytes d = dbytes d'"
  by (simp add: deque_ok_def sum_mset_sum_list [symmetric])

lemma lMove_settles:
  assumes i: "store_inv st"
  shows "settles [src, dst] st (snd (lMove_body env src dst sl dl' st))"
  using i
proof (cases rule: lMove_cases [where env = env and src = src and dst = dst and sl = sl and dl' = dl'])
  case (rotate se sd v)
  let ?d = "push_end dl' v (fst (pop_end sl sd))"
  have "dbytes ?d = dbytes sd" using pop_push_bytes [OF rotate(5,6)] rotate(4) by (intro deque_bytes_mset) (simp_all add: pop_end_simps(3))
  then show ?thesis
    using rotate liveEntry_Some [OF rotate(2)]
    by (simp add: settles_def chargeOf_def get_put_slot store_invD(1) [OF i] entryCharge_def entryPayload_def)
qed (simp_all add: settles_def)

lemma LMove_inv: "store_inv st \<Longrightarrow> store_inv (snd (LMove env src dst sl dl' st))"
  by (rule lmove.inv_settles) (simp_all add: lMove_settles)

subsection \<open>The lists of a store\<close>

text \<open>The list a client sees under a key; a missing key is an empty list.\<close>

definition list_of :: "int \<Rightarrow> entry option \<Rightarrow> bytes list option" where
  "list_of t slot =
     (case liveSlot t slot of
        None \<Rightarrow> Some []
      | Some e \<Rightarrow> (case val e of VList d \<Rightarrow> Some (dl d) | _ \<Rightarrow> None))"

abbreviation list_view :: "store \<Rightarrow> bytes \<Rightarrow> int \<Rightarrow> bytes list option" where
  "list_view st key t \<equiv> list_of t (get_slot st key)"

lemma expired_touch [simp]: "expired t (touch env st e) = expired t e" "expired t (e\<lparr>val := v\<rparr>) = expired t e"
  by (simp_all add: expired_def)

lemma live_new [simp]: "\<not> expired t (new_entry v)"
  by (simp add: expired_def)

lemma list_of_simps [simp]:
  "liveSlot t slot = None \<Longrightarrow> list_of t slot = Some []" "\<not> expired t e \<Longrightarrow> val e = VList d \<Longrightarrow> list_of t (Some e) = Some (dl d)"
  "\<not> expired t e \<Longrightarrow> list_of t (store_list env st e d) = Some (dl d)"
  by (simp_all add: list_of_def store_list_def dlen_def)

lemma list_of_cases:
  assumes "list_of t slot = Some xs"
  obtains (none) "liveSlot t slot = None" "xs = []"
  | (live) e d where "slot = Some e" "\<not> expired t e" "liveSlot t slot = Some e" "val e = VList d" "dl d = xs"
  using assms by (auto simp: list_of_def dest: liveSlot_SomeD split: option.splits val.splits)

lemma push_view:
  assumes "store_inv st" "list_view st key (now env) = Some xs"
  shows "req \<longrightarrow> xs \<noteq> [] \<Longrightarrow>
      fst (listPushMaybe env key left vals req st) = Inr (int (length xs + length vals)) \<and>
      list_view (snd (listPushMaybe env key left vals req st)) key (now env) = Some (if left then rev vals @ xs else xs @ vals)"
    and "req \<Longrightarrow> xs = [] \<Longrightarrow> fst (listPushMaybe env key left vals req st) = Inr 0 \<and>
      get_slot (snd (listPushMaybe env key left vals req st)) key = get_slot st key"
proof -
  note w = store_invD(1) [OF assms(1)]
  show "req \<longrightarrow> xs \<noteq> [] \<Longrightarrow>
      fst (listPushMaybe env key left vals req st) = Inr (int (length xs + length vals)) \<and>
      list_view (snd (listPushMaybe env key left vals req st)) key (now env) = Some (if left then rev vals @ xs else xs @ vals)"
    using assms(2)
    by (cases rule: list_of_cases)
      (simp_all add: push.slot [OF w] push.result [OF w] listPushMaybe_body_def Let_def fold_push_end dlen_def)
  have n: "dl d \<noteq> []" if "get_slot st key = Some e" "val e = VList d" for e d
    using store_invD(3) [OF assms(1), of key] that by simp
  show "req \<Longrightarrow> xs = [] \<Longrightarrow> fst (listPushMaybe env key left vals req st) = Inr 0 \<and>
      get_slot (snd (listPushMaybe env key left vals req st)) key = get_slot st key"
    using assms(2)
    by (cases rule: list_of_cases) (simp_all add: push.slot [OF w] push.result [OF w] listPushMaybe_body_def n)
qed

lemma pop_view:
  assumes "store_inv st" "list_view st key (now env) = Some xs"
  shows "fst (listPop env key left st) = Inr (if xs = [] then None else Some (if left then hd xs else last xs))"
    and "list_view (snd (listPop env key left st)) key (now env) = Some (if left then tl xs else butlast xs)"
proof -
  note w = store_invD(1) [OF assms(1)]
  note r = pop.slot [OF w] pop.result [OF w] listPop_body_def
  show "fst (listPop env key left st) = Inr (if xs = [] then None else Some (if left then hd xs else last xs))"
    using assms(2) by (cases rule: list_of_cases) (simp_all add: r split_def pop_end_simps)
  show "list_view (snd (listPop env key left st)) key (now env) = Some (if left then tl xs else butlast xs)"
    using assms(2) by (cases rule: list_of_cases) (simp_all add: r split_def pop_end_simps)
qed

lemma list_edit_views:
  assumes "store_inv st" "list_view st key (now env) = Some xs"
  shows "list_view (snd (LTrim env key a b st)) key (now env) = Some (slice_of (normalizeRange (int (length xs)) a b) xs)"
    and "list_view (snd (LPopCount env key n left st)) key (now env) =
      Some (if left then drop (nat n) xs else take (length xs - nat n) xs)"
    and "xs \<noteq> [] \<Longrightarrow> fst (LPopCount env key n left st) = Inr (Some (if left then take (nat n) xs else take (nat n) (rev xs)))"
    and "fst (LRange env key a b st) = Inr (slice_of (normalizeRange (int (length xs)) a b) xs)"
    and "fst (LLen env key st) = Inr (int (length xs))"
proof -
  note w = store_invD(1) [OF assms(1)]
  show "list_view (snd (LTrim env key a b st)) key (now env) = Some (slice_of (normalizeRange (int (length xs)) a b) xs)"
    using assms(2) by (cases rule: list_of_cases)
      (simp_all add: ltrim.slot [OF w] lTrim_body_def Let_def trim_dl dlen_def
        normalizeRange_def slice_of_def)
  show "list_view (snd (LPopCount env key n left st)) key (now env) =
      Some (if left then drop (nat n) xs else take (length xs - nat n) xs)"
    using assms(2) by (cases rule: list_of_cases)
      (simp_all add: popn.slot [OF w] lPopCount_body_def split_def pop_loop_simps)
  show "xs \<noteq> [] \<Longrightarrow> fst (LPopCount env key n left st) = Inr (Some (if left then take (nat n) xs else take (nat n) (rev xs)))"
    using assms(2) by (cases rule: list_of_cases) (simp_all add: popn.result [OF w] lPopCount_body_def split_def pop_loop_simps)
  show "fst (LRange env key a b st) = Inr (slice_of (normalizeRange (int (length xs)) a b) xs)"
    "fst (LLen env key st) = Inr (int (length xs))"
    using assms(2) by (cases rule: list_of_cases;
      simp add: lrange.result llen.result liveEntry_def lRange_body_def lLen_body_def rangeIdx_eq dlen_def
        normalizeRange_def slice_of_def)+
qed

lemma LMove_view:
  fixes sl :: bool
  assumes i: "store_inv st" and xs: "list_view st src (now env) = Some xs" "xs \<noteq> []"
    and ys: "list_view st dst (now env) = Some ys"
  defines "v \<equiv> (if sl then hd xs else last xs)" and "xs' \<equiv> (if sl then tl xs else butlast xs)"
  shows "fst (LMove env src dst sl dl' st) = Inr (Some v)"
    and "src \<noteq> dst \<Longrightarrow> list_view (snd (LMove env src dst sl dl' st)) src (now env) = Some xs'"
    and "list_view (snd (LMove env src dst sl dl' st)) dst (now env) =
      Some (let zs = (if src = dst then xs' else ys) in if dl' then v # zs else zs @ [v])"
proof -
  let ?S = "snd (LMove env src dst sl dl' st)"
  note w = store_invD(1) [OF i] and r = lmove.result [OF store_invD(1) [OF i]] lmove.slot [OF i TrueI]
  obtain e d where e: "get_slot st src = Some e" "\<not> expired (now env) e" "val e = VList d" "dl d = xs"
    using xs by (cases rule: list_of_cases) auto
  have live: "liveEntry st src (now env) = Some e" using e by (simp add: liveEntry_def)
  obtain d' where p: "pop_end sl d = (d', Some v)" "dl d' = xs'"
    using pop_end_simps(1,2) [of sl d] e(4) xs(2) by (cases "pop_end sl d") (auto simp: v_def xs'_def)
  have "fst (LMove env src dst sl dl' st) = Inr (Some v) \<and>
    (src \<noteq> dst \<longrightarrow> list_view ?S src (now env) = Some xs') \<and>
    list_view ?S dst (now env) = Some (let zs = (if src = dst then xs' else ys) in if dl' then v # zs else zs @ [v])"
  proof (cases "src = dst")
    case True
    then show ?thesis
      using live e p by (simp add: r lMove_body_def Let_def get_put_slot w dlen_def)
  next
    case False
    from ys show ?thesis
      by (cases rule: list_of_cases)
        (use False live e p in \<open>simp_all add: r lMove_body_def Let_def get_put_slot put_slot_wf w liveEntry_def [of st dst]\<close>)
  qed
  then show "fst (LMove env src dst sl dl' st) = Inr (Some v)"
    "src \<noteq> dst \<Longrightarrow> list_view ?S src (now env) = Some xs'"
    "list_view ?S dst (now env) = Some (let zs = (if src = dst then xs' else ys) in if dl' then v # zs else zs @ [v])"
    by blast+
qed

end
