(* ===== verification/HashOps.thy ===== *)
theory HashOps
  imports ListOps
begin

text \<open>
  The hash commands of \<open>internal/store/types.go\<close> and \<open>internal/store/hash.go\<close>. A hash and its byte
  count travel as a pair through \<open>hashPut\<close> and \<open>hashDrop\<close>, the only writers. The lemmas relate each
  command to a map from fields to values, the view a client has of a key.
\<close>

subsection \<open>Writes\<close>

definition with_hash :: "entry \<Rightarrow> (bytes, slice) gomap \<times> int \<Rightarrow> entry" where
  "with_hash e h = e\<lparr>val := VHash (fst h), eBytes := snd h\<rparr>"

fun hset_loop :: "(bytes \<times> bytes) list \<Rightarrow> (bytes, slice) gomap \<times> int \<Rightarrow> int \<Rightarrow> ((bytes, slice) gomap \<times> int) \<times> int" where
  "hset_loop [] h created = (h, created)"
| "hset_loop ((f, v) # ps) h created =
     hset_loop ps (hashPut f (copyBytes v) h) (if map_of (fst h) f = None then created + 1 else created)"

definition hSet_body :: "goenv \<Rightarrow> (bytes \<times> bytes) list \<Rightarrow> store \<Rightarrow> entry option \<Rightarrow> entry option \<times> int res" where
  "hSet_body env pairs st slot =
     (let put = (\<lambda>e d. let (h, created) = hset_loop pairs (d, eBytes e) 0
                      in (Some (touch env st (with_hash e h)), Inr created))
      in case liveSlot (now env) slot of
           Some e \<Rightarrow> (case val e of VHash d \<Rightarrow> put e d | _ \<Rightarrow> (slot, Inl ErrWrongType))
         | None \<Rightarrow> put (new_entry (VHash [])) [])"

definition HSet :: "goenv \<Rightarrow> bytes \<Rightarrow> (bytes \<times> bytes) list \<Rightarrow> store \<Rightarrow> int res \<times> store" where
  "HSet env key pairs st = write_key key (hSet_body env pairs st) st"

definition hSetNX_body :: "goenv \<Rightarrow> bytes \<Rightarrow> bytes \<Rightarrow> store \<Rightarrow> entry option \<Rightarrow> entry option \<times> bool res" where
  "hSetNX_body env field v st slot =
     (let put = (\<lambda>e d. if map_of d field \<noteq> None then (Some e, Inr False)
                      else (Some (touch env st (with_hash e (hashPut field (copyBytes v) (d, eBytes e)))), Inr True))
      in case liveSlot (now env) slot of
           Some e \<Rightarrow> (case val e of VHash d \<Rightarrow> put e d | _ \<Rightarrow> (slot, Inl ErrWrongType))
         | None \<Rightarrow> put (new_entry (VHash [])) [])"

definition HSetNX :: "goenv \<Rightarrow> bytes \<Rightarrow> bytes \<Rightarrow> bytes \<Rightarrow> store \<Rightarrow> bool res \<times> store" where
  "HSetNX env key field v st = write_key key (hSetNX_body env field v st) st"

fun hdel_loop :: "bytes list \<Rightarrow> (bytes, slice) gomap \<times> int \<Rightarrow> int \<Rightarrow> ((bytes, slice) gomap \<times> int) \<times> int" where
  "hdel_loop [] h removed = (h, removed)"
| "hdel_loop (f # fs) h removed =
     (let (h', dropped) = hashDrop f h in hdel_loop fs h' (if dropped then removed + 1 else removed))"

definition hDel_body :: "goenv \<Rightarrow> bytes list \<Rightarrow> store \<Rightarrow> entry option \<Rightarrow> entry option \<times> int res" where
  "hDel_body env flds st slot =
     (case liveSlot (now env) slot of
        None \<Rightarrow> (slot, Inr 0)
      | Some e \<Rightarrow>
          (case val e of
             VHash d \<Rightarrow>
               (let (h, removed) = hdel_loop flds (d, eBytes e) 0
                in (if length (fst h) = 0 then None else Some (touch env st (with_hash e h)), Inr removed))
           | _ \<Rightarrow> (slot, Inl ErrWrongType)))"

definition HDel :: "goenv \<Rightarrow> bytes \<Rightarrow> bytes list \<Rightarrow> store \<Rightarrow> int res \<times> store" where
  "HDel env key flds st = write_key key (hDel_body env flds st) st"

text \<open>\<open>hashForWrite\<close> stores a fresh hash before the caller writes its first field: a caller that then
  fails leaves it behind.\<close>

definition hashForWrite :: "goenv \<Rightarrow> entry option \<Rightarrow> entry res" where
  "hashForWrite env slot =
     (case liveSlot (now env) slot of
        Some e \<Rightarrow> (case val e of VHash d \<Rightarrow> Inr e | _ \<Rightarrow> Inl ErrWrongType)
      | None \<Rightarrow> Inr (new_entry (VHash [])))"

definition hash_fields :: "entry \<Rightarrow> (bytes, slice) gomap" where
  "hash_fields e = (case val e of VHash d \<Rightarrow> d | _ \<Rightarrow> [])"

definition hIncrBy_body :: "goenv \<Rightarrow> bytes \<Rightarrow> int \<Rightarrow> store \<Rightarrow> entry option \<Rightarrow> entry option \<times> int res" where
  "hIncrBy_body env field delta st slot =
     (case hashForWrite env slot of
        Inl err \<Rightarrow> (slot, Inl err)
      | Inr e \<Rightarrow>
          let d = hash_fields e;
              add = (\<lambda>n. if incr_overflows n delta then (Some e, Inl ErrOverflow)
                         else (Some (touch env st (with_hash e
                                  (hashPut field (grown (alloc env) (FormatInt (n + delta))) (d, eBytes e)))), Inr (n + delta)))
          in case map_of d field of
               None \<Rightarrow> add 0
             | Some cur \<Rightarrow>
                 (case ParseInt (sbytes cur) of None \<Rightarrow> (Some e, Inl ErrHashNotInteger) | Some n \<Rightarrow> add n))"

definition HIncrBy :: "goenv \<Rightarrow> bytes \<Rightarrow> bytes \<Rightarrow> int \<Rightarrow> store \<Rightarrow> int res \<times> store" where
  "HIncrBy env key field delta st = write_key key (hIncrBy_body env field delta st) st"

subsection \<open>Reads\<close>

definition hGet_body :: "bytes \<Rightarrow> goenv \<Rightarrow> store \<Rightarrow> entry \<Rightarrow> entry \<times> bytes option res" where
  "hGet_body field env st e =
     (case val e of
        VHash d \<Rightarrow> (touch env st e, Inr (map_option sbytes (map_of d field)))
      | _ \<Rightarrow> (e, Inl ErrWrongType))"

definition HGet :: "goenv \<Rightarrow> bytes \<Rightarrow> bytes \<Rightarrow> store \<Rightarrow> bytes option res \<times> store" where
  "HGet env key field st = read_key env key (Inr None) (hGet_body field env st) st"

definition hMGet_body :: "bytes list \<Rightarrow> goenv \<Rightarrow> store \<Rightarrow> entry \<Rightarrow> entry \<times> bytes option list res" where
  "hMGet_body flds env st e =
     (case val e of
        VHash d \<Rightarrow> (touch env st e, Inr (map (\<lambda>f. map_option sbytes (map_of d f)) flds))
      | _ \<Rightarrow> (e, Inl ErrWrongType))"

definition HMGet :: "goenv \<Rightarrow> bytes \<Rightarrow> bytes list \<Rightarrow> store \<Rightarrow> bytes option list res \<times> store" where
  "HMGet env key flds st = read_key env key (Inr (map (\<lambda>f. None) flds)) (hMGet_body flds env st) st"

definition hExists_body :: "bytes \<Rightarrow> goenv \<Rightarrow> store \<Rightarrow> entry \<Rightarrow> entry \<times> bool res" where
  "hExists_body field env st e =
     (e, case val e of VHash d \<Rightarrow> Inr (map_of d field \<noteq> None) | _ \<Rightarrow> Inl ErrWrongType)"

definition HExists :: "goenv \<Rightarrow> bytes \<Rightarrow> bytes \<Rightarrow> store \<Rightarrow> bool res \<times> store" where
  "HExists env key field st = read_key env key (Inr False) (hExists_body field env st) st"

definition hStrLen_body :: "bytes \<Rightarrow> goenv \<Rightarrow> store \<Rightarrow> entry \<Rightarrow> entry \<times> int res" where
  "hStrLen_body field env st e =
     (e, case val e of
           VHash d \<Rightarrow> Inr (case map_of d field of None \<Rightarrow> 0 | Some v \<Rightarrow> int (length (sbytes v)))
         | _ \<Rightarrow> Inl ErrWrongType)"

definition HStrLen :: "goenv \<Rightarrow> bytes \<Rightarrow> bytes \<Rightarrow> store \<Rightarrow> int res \<times> store" where
  "HStrLen env key field st = read_key env key (Inr 0) (hStrLen_body field env st) st"

definition hLen_body :: "goenv \<Rightarrow> store \<Rightarrow> entry \<Rightarrow> entry \<times> int res" where
  "hLen_body env st e = (e, case val e of VHash d \<Rightarrow> Inr (int (length d)) | _ \<Rightarrow> Inl ErrWrongType)"

definition HLen :: "goenv \<Rightarrow> bytes \<Rightarrow> store \<Rightarrow> int res \<times> store" where
  "HLen env key st = read_key env key (Inr 0) (hLen_body env st) st"

text \<open>A projection of every pair, in the order the runtime ranges over the map.\<close>

definition hashProject_body :: "(bytes \<Rightarrow> slice \<Rightarrow> 'a list) \<Rightarrow> goenv \<Rightarrow> store \<Rightarrow> entry \<Rightarrow> entry \<times> 'a list res" where
  "hashProject_body proj env st e =
     (case val e of
        VHash d \<Rightarrow> (touch env st e, Inr (concat (map (\<lambda>f. proj f (the (map_of d f))) (gkeys env d))))
      | _ \<Rightarrow> (e, Inl ErrWrongType))"

definition hashProject :: "(bytes \<Rightarrow> slice \<Rightarrow> 'a list) \<Rightarrow> goenv \<Rightarrow> bytes \<Rightarrow> store \<Rightarrow> 'a list res \<times> store" where
  "hashProject proj env key st = read_key env key (Inr []) (hashProject_body proj env st) st"

definition HKeys :: "goenv \<Rightarrow> bytes \<Rightarrow> store \<Rightarrow> bytes list res \<times> store" where
  "HKeys = hashProject (\<lambda>f v. [f])"

definition HVals :: "goenv \<Rightarrow> bytes \<Rightarrow> store \<Rightarrow> bytes list res \<times> store" where
  "HVals = hashProject (\<lambda>f v. [sbytes v])"

definition HGetAll :: "goenv \<Rightarrow> bytes \<Rightarrow> store \<Rightarrow> bytes list res \<times> store" where
  "HGetAll = hashProject (\<lambda>f v. [f, sbytes v])"

definition pickMembers :: "goenv \<Rightarrow> bytes list \<Rightarrow> int \<Rightarrow> bytes list" where
  "pickMembers env pool cnt =
     (if pool = [] \<or> cnt = 0 then []
      else if cnt = - (2 ^ 63) then []
      else if cnt < 0 then map (\<lambda>i. pool ! Intn env i (length pool)) [0..<nat (- cnt)]
      else take (nat cnt) (Shuffle env pool))"

definition hRandField_body :: "int \<Rightarrow> bool \<Rightarrow> goenv \<Rightarrow> store \<Rightarrow> entry \<Rightarrow> entry \<times> bytes list res" where
  "hRandField_body cnt withValues env st e =
     (case val e of
        VHash d \<Rightarrow>
          (touch env st e,
           Inr (concat (map (\<lambda>f. if withValues then [f, sbytes (the (map_of d f))] else [f])
                          (pickMembers env (gkeys env d) cnt))))
      | _ \<Rightarrow> (e, Inl ErrWrongType))"

definition HRandField :: "goenv \<Rightarrow> bytes \<Rightarrow> int \<Rightarrow> bool \<Rightarrow> store \<Rightarrow> bytes list res \<times> store" where
  "HRandField env key cnt withValues st = read_key env key (Inr []) (hRandField_body cnt withValues env st) st"

subsection \<open>Well-formedness\<close>

lemma hset_loop_ok:
  "hash_ok h \<Longrightarrow> hash_ok (fst (hset_loop ps h n))"
  "ps \<noteq> [] \<or> fst h \<noteq> [] \<Longrightarrow> fst (fst (hset_loop ps h n)) \<noteq> []"
  by (induction ps h n rule: hset_loop.induct) (simp_all add: hashPut_ok)

lemma hdel_loop_ok: "hash_ok h \<Longrightarrow> hash_ok (fst (hdel_loop fs h n))"
proof (induction fs arbitrary: h n)
  case (Cons f fs)
  then show ?case using hashDrop_ok [of h f] by (cases "hashDrop f h") simp
qed simp

lemma with_hash_simps [simp]:
  "val (with_hash e h) = VHash (fst h)" "eBytes (with_hash e h) = snd h" "expireAt (with_hash e h) = expireAt e"
  "entry_ok (with_hash e h) = hash_ok h" "expired t (with_hash e h) = expired t e"
  by (simp_all add: with_hash_def entry_ok_def expired_def)

lemma hash_entry_ok: "val e = VHash d \<Longrightarrow> entry_ok e \<longleftrightarrow> hash_ok (d, eBytes e)"
  by (simp add: entry_ok_def)

lemma hSet_ok: "pairs \<noteq> [] \<Longrightarrow> slot_ok slot \<Longrightarrow> slot_ok (fst (hSet_body env pairs st slot))"
  by (auto simp: hSet_body_def Let_def split_def hset_loop_ok hash_entry_ok dest!: liveSlot_SomeD split: option.split val.split)

lemma hIncr_new: "int64_range delta \<Longrightarrow> \<not> incr_overflows 0 delta"
  by (auto simp: incr_overflows_def int64_range_def)

lemma hIncrBy_ok:
  "int64_range delta \<Longrightarrow> slot_ok slot \<Longrightarrow> slot_ok (fst (hIncrBy_body env field delta st slot))"
  by (auto simp: hIncrBy_body_def hashForWrite_def hash_fields_def Let_def hash_entry_ok hashPut_ok hIncr_new
      dest!: liveSlot_SomeD split: option.split val.split)

lemma hash_bodies_ok:
  assumes "slot_ok slot"
  shows "slot_ok (fst (hSetNX_body env f v st slot))" "slot_ok (fst (hDel_body env fs st slot))"
  using assms
  by (auto simp: hSetNX_body_def hDel_body_def Let_def split_def hash_entry_ok hashPut_ok hdel_loop_ok
      dest!: liveSlot_SomeD split: option.split val.split)

interpretation hset: key_writer_if "HSet env key pairs" key "hSet_body env pairs" "pairs \<noteq> []" for env key pairs
  by unfold_locales (simp_all add: HSet_def hSet_ok)

interpretation hsetnx: key_writer "HSetNX env key f v" key "hSetNX_body env f v" for env key f v
  by unfold_locales (simp_all add: HSetNX_def hash_bodies_ok)

interpretation hdel: key_writer "HDel env key fs" key "hDel_body env fs" for env key fs
  by unfold_locales (simp_all add: HDel_def hash_bodies_ok)

interpretation hincr: key_writer_if "HIncrBy env key f n" key "hIncrBy_body env f n" "int64_range n" for env key f n
  by unfold_locales (simp_all add: HIncrBy_def hIncrBy_ok)

interpretation hget: key_reader "\<lambda>env. HGet env key f" key "Inr None" "hGet_body f" for key f
  by unfold_locales (simp_all add: HGet_def hGet_body_def split: val.split)

interpretation hmget: key_reader "\<lambda>env. HMGet env key fs" key "Inr (map (\<lambda>f. None) fs)" "hMGet_body fs" for key fs
  by unfold_locales (simp_all add: HMGet_def hMGet_body_def split: val.split)

interpretation hexists: key_reader "\<lambda>env. HExists env key f" key "Inr False" "hExists_body f" for key f
  by unfold_locales (simp_all add: HExists_def hExists_body_def)

interpretation hstrlen: key_reader "\<lambda>env. HStrLen env key f" key "Inr 0" "hStrLen_body f" for key f
  by unfold_locales (simp_all add: HStrLen_def hStrLen_body_def)

interpretation hlen: key_reader "\<lambda>env. HLen env key" key "Inr 0" hLen_body for key
  by unfold_locales (simp_all add: HLen_def hLen_body_def)

interpretation hproj: key_reader "\<lambda>env. hashProject proj env key" key "Inr []" "hashProject_body proj" for proj key
  by unfold_locales (simp_all add: hashProject_def hashProject_body_def split: val.split)

interpretation hrand: key_reader "\<lambda>env. HRandField env key n wv" key "Inr []" "hRandField_body n wv" for key n wv
  by unfold_locales (simp_all add: HRandField_def hRandField_body_def split: val.split)

subsection \<open>The hashes of a store\<close>

definition hash_of :: "int \<Rightarrow> entry option \<Rightarrow> (bytes \<rightharpoonup> bytes) option" where
  "hash_of t slot =
     (case liveSlot t slot of
        None \<Rightarrow> Some Map.empty
      | Some e \<Rightarrow> (case val e of VHash d \<Rightarrow> Some (\<lambda>f. map_option sbytes (map_of d f)) | _ \<Rightarrow> None))"

abbreviation hash_view :: "store \<Rightarrow> bytes \<Rightarrow> int \<Rightarrow> (bytes \<rightharpoonup> bytes) option" where
  "hash_view st key t \<equiv> hash_of t (get_slot st key)"

lemma hash_of_simps [simp]:
  "liveSlot t slot = None \<Longrightarrow> hash_of t slot = Some Map.empty"
  "\<not> expired t e \<Longrightarrow> val e = VHash d \<Longrightarrow> hash_of t (Some e) = Some (\<lambda>f. map_option sbytes (map_of d f))"
  by (simp_all add: hash_of_def)

lemma hash_of_cases:
  assumes "hash_of t slot = Some m"
  obtains (none) "liveSlot t slot = None" "m = Map.empty"
  | (live) e d where "slot = Some e" "\<not> expired t e" "liveSlot t slot = Some e" "val e = VHash d"
      "m = (\<lambda>f. map_option sbytes (map_of d f))"
  using assms by (auto simp: hash_of_def dest: liveSlot_SomeD split: option.splits val.splits)

lemma hset_loop_map:
  "(\<lambda>f. map_option sbytes (map_of (fst (fst (hset_loop ps h n))) f)) =
     (\<lambda>f. map_option sbytes (map_of (fst h) f)) ++ map_of (rev ps)"
  by (induction ps h n rule: hset_loop.induct) (auto simp: map_add_def fun_eq_iff split: option.split)

lemma card_insert_Diff: "finite P \<Longrightarrow> card (insert f P - D) = card (P - insert f D) + (if f \<in> D then 0 else 1)"
proof (cases "f \<in> D")
  case False
  assume "finite P"
  then have "card (insert f (P - insert f D)) = Suc (card (P - insert f D))" by (intro card_insert_disjoint) auto
  moreover have "insert f P - D = insert f (P - insert f D)" using False by blast
  ultimately show ?thesis using False by presburger
next
  case True
  then have "insert f P - D = P - insert f D" by blast
  then show ?thesis using True by presburger
qed

lemma card_insert_Int: "finite P \<Longrightarrow> card (insert f P \<inter> D) = card (P \<inter> (D - {f})) + (if f \<in> D then 1 else 0)"
proof (cases "f \<in> D")
  case True
  assume "finite P"
  then have "card (insert f (P \<inter> (D - {f}))) = Suc (card (P \<inter> (D - {f})))" by (intro card_insert_disjoint) auto
  moreover have "insert f P \<inter> D = insert f (P \<inter> (D - {f}))" using True by blast
  ultimately show ?thesis using True by presburger
next
  case False
  then have "insert f P \<inter> D = P \<inter> (D - {f})" by blast
  then show ?thesis using False by presburger
qed

lemma hset_loop_created:
  "snd (hset_loop ps h n) = n + int (card (fst ` set ps - dom (map_of (fst h))))"
proof (induction ps h n rule: hset_loop.induct)
  case (2 f v ps h n)
  have d: "dom (map_of (fst (hashPut f (copyBytes v) h))) = insert f (dom (map_of (fst h)))" by simp
  have p: "fst ` set ((f, v) # ps) = insert f (fst ` set ps)" by simp
  have f: "f \<in> dom (map_of (fst h)) \<longleftrightarrow> map_of (fst h) f \<noteq> None" by (rule domIff)
  show ?case unfolding hset_loop.simps 2 d p card_insert_Diff [OF finite_imageI [OF finite_set]] f
    by (cases "map_of (fst h) f = None") simp_all
qed simp

lemma HSet_view:
  assumes "store_inv st" "hash_view st key (now env) = Some m"
  shows "fst (HSet env key pairs st) = Inr (int (card (fst ` set pairs - dom m)))"
    and "hash_view (snd (HSet env key pairs st)) key (now env) = Some (m ++ map_of (rev pairs))"
proof -
  note w = store_invD(1) [OF assms(1)]
  show "fst (HSet env key pairs st) = Inr (int (card (fst ` set pairs - dom m)))"
    using assms(2) by (cases rule: hash_of_cases)
      (simp_all add: hset.result [OF w] hSet_body_def Let_def split_def hset_loop_created dom_def)
  show "hash_view (snd (HSet env key pairs st)) key (now env) = Some (m ++ map_of (rev pairs))"
    using assms(2) by (cases rule: hash_of_cases)
      (simp_all add: hset.slot [OF w] hSet_body_def Let_def split_def hset_loop_map)
qed

lemma HGet_view:
  assumes "hash_view st key (now env) = Some m"
  shows "fst (HGet env key f st) = Inr (m f)" "fst (HMGet env key fs st) = Inr (map m fs)"
    "fst (HExists env key f st) = Inr (m f \<noteq> None)"
  using assms by (cases rule: hash_of_cases;
    simp add: hget.result hmget.result hexists.result liveEntry_def hGet_body_def hMGet_body_def hExists_body_def)+

lemma hdel_loop_map:
  "(\<lambda>f. map_option sbytes (map_of (fst (fst (hdel_loop fs h n))) f)) = (\<lambda>f. map_option sbytes (map_of (fst h) f)) |` (- set fs)"
proof (induction fs arbitrary: h n)
  case (Cons f fs)
  then show ?case using hashDrop_map [of f h] by (cases "hashDrop f h") (auto simp: restrict_map_def fun_eq_iff)
qed (simp add: restrict_map_def)

lemma hdel_loop_removed: "snd (hdel_loop fs h n) = n + int (card (set fs \<inter> dom (map_of (fst h))))"
proof (induction fs arbitrary: h n)
  case (Cons f fs)
  obtain h' b where d: "hashDrop f h = (h', b)" by (cases "hashDrop f h")
  have m: "map_of (fst h') = (map_of (fst h))(f := None)" "b \<longleftrightarrow> f \<in> dom (map_of (fst h))"
    using hashDrop_map [of f h] by (simp_all add: d domIff)
  have d': "dom (map_of (fst h')) = dom (map_of (fst h)) - {f}" by (simp add: m(1))
  have s: "set (f # fs) = insert f (set fs)" by simp
  show ?case unfolding hdel_loop.simps d s card_insert_Int [OF finite_set] Let_def prod.case Cons [of h'] d'
    using m(2) by simp
qed simp

lemma HDel_view:
  assumes "store_inv st" "hash_view st key (now env) = Some m"
  shows "fst (HDel env key fs st) = Inr (int (card (set fs \<inter> dom m)))"
    and "hash_view (snd (HDel env key fs st)) key (now env) = Some (m |` (- set fs))"
proof -
  note w = store_invD(1) [OF assms(1)]
  show "fst (HDel env key fs st) = Inr (int (card (set fs \<inter> dom m)))"
    using assms(2) by (cases rule: hash_of_cases)
      (simp_all add: hdel.result [OF w] hDel_body_def Let_def split_def hdel_loop_removed dom_def)
  from assms(2) show "hash_view (snd (HDel env key fs st)) key (now env) = Some (m |` (- set fs))"
  proof (cases rule: hash_of_cases)
    case none
    then show ?thesis by (simp add: hdel.slot [OF w] hDel_body_def)
  next
    case (live e d)
    let ?h = "fst (hdel_loop fs (d, eBytes e) 0)"
    have h: "m |` (- set fs) = (\<lambda>f. map_option sbytes (map_of (fst ?h) f))"
      unfolding hdel_loop_map live(5) by simp
    show ?thesis
    proof (cases "fst ?h = []")
      case True
      then show ?thesis unfolding h using live(1-4) by (simp add: hdel.slot [OF w] hDel_body_def Let_def split_def)
    next
      case False
      then show ?thesis unfolding h using live(1-4) by (simp add: hdel.slot [OF w] hDel_body_def Let_def split_def)
    qed
  qed
qed

subsection \<open>Random members\<close>

lemma pickMembers_props:
  shows "set (pickMembers env pool cnt) \<subseteq> set pool"
    and "0 \<le> cnt \<Longrightarrow> distinct pool \<Longrightarrow> distinct (pickMembers env pool cnt)"
    and "0 \<le> cnt \<Longrightarrow> length (pickMembers env pool cnt) = min (nat cnt) (length pool)"
    and "cnt < 0 \<Longrightarrow> cnt \<noteq> - (2 ^ 63) \<Longrightarrow> pool \<noteq> [] \<Longrightarrow> length (pickMembers env pool cnt) = nat (- cnt)"
proof -
  have s: "set (Shuffle env pool) = set pool" "length (Shuffle env pool) = length pool"
    "distinct (Shuffle env pool) = distinct pool"
    using mset_Shuffle [of env pool] by (metis mset_eq_setD, metis mset_eq_length, metis mset_eq_imp_distinct_iff)
  show "set (pickMembers env pool cnt) \<subseteq> set pool"
    using s(1) Intn_less [of "length pool"] by (auto simp: pickMembers_def dest: in_set_takeD)
  show "0 \<le> cnt \<Longrightarrow> distinct pool \<Longrightarrow> distinct (pickMembers env pool cnt)"
    using s(3) by (simp add: pickMembers_def)
  show "0 \<le> cnt \<Longrightarrow> length (pickMembers env pool cnt) = min (nat cnt) (length pool)"
    using s(2) by (auto simp: pickMembers_def)
  show "cnt < 0 \<Longrightarrow> cnt \<noteq> - (2 ^ 63) \<Longrightarrow> pool \<noteq> [] \<Longrightarrow> length (pickMembers env pool cnt) = nat (- cnt)"
    by (simp add: pickMembers_def)
qed

end
