(* ===== verification/SetOps.thy ===== *)
theory SetOps
  imports HashOps
begin

text \<open>
  The set commands of \<open>internal/store/types.go\<close> and \<open>internal/store/set.go\<close>. A set and its byte
  count travel as a pair through \<open>setPut\<close> and \<open>setDrop\<close>, the only writers. The algebra reads its
  operands through \<open>liveEntry\<close>, recording an access to each; the lemmas show that it computes the
  intersection, union and difference, and that storing the result touches only the destination.
\<close>

subsection \<open>Writes\<close>

definition with_set :: "entry \<Rightarrow> (bytes, unit) gomap \<times> int \<Rightarrow> entry" where
  "with_set e h = e\<lparr>val := VSet (fst h), eBytes := snd h\<rparr>"

fun sadd_loop :: "bytes list \<Rightarrow> (bytes, unit) gomap \<times> int \<Rightarrow> int \<Rightarrow> ((bytes, unit) gomap \<times> int) \<times> int" where
  "sadd_loop [] h n = (h, n)"
| "sadd_loop (m # ms) h n = (let (h', new) = setPut m h in sadd_loop ms h' (if new then n + 1 else n))"

definition sAdd_body :: "goenv \<Rightarrow> bytes list \<Rightarrow> store \<Rightarrow> entry option \<Rightarrow> entry option \<times> int res" where
  "sAdd_body env members st slot =
     (let add = (\<lambda>e d. let (h, n) = sadd_loop members (d, eBytes e) 0
                      in (Some (touch env st (with_set e h)), Inr n))
      in case liveSlot (now env) slot of
           Some e \<Rightarrow> (case val e of VSet d \<Rightarrow> add e d | _ \<Rightarrow> (slot, Inl ErrWrongType))
         | None \<Rightarrow> add (new_entry (VSet [])) [])"

definition SAdd :: "goenv \<Rightarrow> bytes \<Rightarrow> bytes list \<Rightarrow> store \<Rightarrow> int res \<times> store" where
  "SAdd env key members st = write_key key (sAdd_body env members st) st"

fun srem_loop :: "bytes list \<Rightarrow> (bytes, unit) gomap \<times> int \<Rightarrow> int \<Rightarrow> ((bytes, unit) gomap \<times> int) \<times> int" where
  "srem_loop [] h removed = (h, removed)"
| "srem_loop (m # ms) h removed =
     (let (h', dropped) = setDrop m h in srem_loop ms h' (if dropped then removed + 1 else removed))"

definition store_set :: "goenv \<Rightarrow> store \<Rightarrow> entry \<Rightarrow> (bytes, unit) gomap \<times> int \<Rightarrow> entry option" where
  "store_set env st e h = (if length (fst h) = 0 then None else Some (touch env st (with_set e h)))"

definition sRem_body :: "goenv \<Rightarrow> bytes list \<Rightarrow> store \<Rightarrow> entry option \<Rightarrow> entry option \<times> int res" where
  "sRem_body env members st slot =
     (case liveSlot (now env) slot of
        None \<Rightarrow> (slot, Inr 0)
      | Some e \<Rightarrow>
          (case val e of
             VSet d \<Rightarrow>
               (let (h, removed) = srem_loop members (d, eBytes e) 0 in (store_set env st e h, Inr removed))
           | _ \<Rightarrow> (slot, Inl ErrWrongType)))"

definition SRem :: "goenv \<Rightarrow> bytes \<Rightarrow> bytes list \<Rightarrow> store \<Rightarrow> int res \<times> store" where
  "SRem env key members st = write_key key (sRem_body env members st) st"

text \<open>The count of \<open>SPop\<close> is not negative: the caller refuses such an operand.\<close>

definition sPop_body :: "goenv \<Rightarrow> int \<Rightarrow> store \<Rightarrow> entry option \<Rightarrow> entry option \<times> bytes list option res" where
  "sPop_body env cnt st slot =
     (case liveSlot (now env) slot of
        None \<Rightarrow> (slot, Inr None)
      | Some e \<Rightarrow>
          (case val e of
             VSet d \<Rightarrow>
               (let members = (if cnt \<ge> int (length d) then gkeys env d else take (nat cnt) (gkeys env d));
                    h = fold (\<lambda>m h. fst (setDrop m h)) members (d, eBytes e)
                in (store_set env st e h, Inr (Some members)))
           | _ \<Rightarrow> (slot, Inl ErrWrongType)))"

definition SPop :: "goenv \<Rightarrow> bytes \<Rightarrow> int \<Rightarrow> store \<Rightarrow> bytes list option res \<times> store" where
  "SPop env key cnt st = write_key key (sPop_body env cnt st) st"

definition sMove_body :: "goenv \<Rightarrow> bytes \<Rightarrow> bytes \<Rightarrow> bytes \<Rightarrow> store \<Rightarrow> bool res \<times> store" where
  "sMove_body env src dst member st =
     (case liveEntry st src (now env) of
        None \<Rightarrow> (Inr False, st)
      | Some se \<Rightarrow>
          (case val se of
             VSet sd \<Rightarrow>
               (let move = (\<lambda>de dd.
                      if map_of sd member = None then (Inr False, st)
                      else if src = dst then (Inr True, st)
                      else (Inr True,
                            put_slot dst (Some (touch env st (with_set de (fst (setPut member (dd, eBytes de))))))
                              (put_slot src (store_set env st se (fst (setDrop member (sd, eBytes se)))) st)))
                in if src = dst then move se sd
                   else case liveEntry st dst (now env) of
                          None \<Rightarrow> move (new_entry (VSet [])) []
                        | Some de \<Rightarrow> (case val de of VSet dd \<Rightarrow> move de dd | _ \<Rightarrow> (Inl ErrWrongType, st)))
           | _ \<Rightarrow> (Inl ErrWrongType, st)))"

definition SMove :: "goenv \<Rightarrow> bytes \<Rightarrow> bytes \<Rightarrow> bytes \<Rightarrow> store \<Rightarrow> bool res \<times> store" where
  "SMove env src dst member st = trackedKeys [src, dst] (sMove_body env src dst member) st"

subsection \<open>Reads\<close>

definition sMembers_body :: "goenv \<Rightarrow> store \<Rightarrow> entry \<Rightarrow> entry \<times> bytes list res" where
  "sMembers_body env st e =
     (case val e of VSet d \<Rightarrow> (touch env st e, Inr (gkeys env d)) | _ \<Rightarrow> (e, Inl ErrWrongType))"

definition SMembers :: "goenv \<Rightarrow> bytes \<Rightarrow> store \<Rightarrow> bytes list res \<times> store" where
  "SMembers env key st = read_key env key (Inr []) (sMembers_body env st) st"

definition sIsMember_body :: "bytes \<Rightarrow> goenv \<Rightarrow> store \<Rightarrow> entry \<Rightarrow> entry \<times> bool res" where
  "sIsMember_body member env st e =
     (e, case val e of VSet d \<Rightarrow> Inr (map_of d member \<noteq> None) | _ \<Rightarrow> Inl ErrWrongType)"

definition SIsMember :: "goenv \<Rightarrow> bytes \<Rightarrow> bytes \<Rightarrow> store \<Rightarrow> bool res \<times> store" where
  "SIsMember env key member st = read_key env key (Inr False) (sIsMember_body member env st) st"

definition sMIsMember_body :: "bytes list \<Rightarrow> goenv \<Rightarrow> store \<Rightarrow> entry \<Rightarrow> entry \<times> bool list res" where
  "sMIsMember_body members env st e =
     (e, case val e of VSet d \<Rightarrow> Inr (map (\<lambda>m. map_of d m \<noteq> None) members) | _ \<Rightarrow> Inl ErrWrongType)"

definition SMIsMember :: "goenv \<Rightarrow> bytes \<Rightarrow> bytes list \<Rightarrow> store \<Rightarrow> bool list res \<times> store" where
  "SMIsMember env key members st =
     read_key env key (Inr (map (\<lambda>m. False) members)) (sMIsMember_body members env st) st"

definition sCard_body :: "goenv \<Rightarrow> store \<Rightarrow> entry \<Rightarrow> entry \<times> int res" where
  "sCard_body env st e = (e, case val e of VSet d \<Rightarrow> Inr (int (length d)) | _ \<Rightarrow> Inl ErrWrongType)"

definition SCard :: "goenv \<Rightarrow> bytes \<Rightarrow> store \<Rightarrow> int res \<times> store" where
  "SCard env key st = read_key env key (Inr 0) (sCard_body env st) st"

definition sRandMember_body :: "int \<Rightarrow> goenv \<Rightarrow> store \<Rightarrow> entry \<Rightarrow> entry \<times> bytes list res" where
  "sRandMember_body cnt env st e =
     (case val e of
        VSet d \<Rightarrow> (touch env st e, Inr (pickMembers env (gkeys env d) cnt))
      | _ \<Rightarrow> (e, Inl ErrWrongType))"

definition SRandMember :: "goenv \<Rightarrow> bytes \<Rightarrow> int \<Rightarrow> store \<Rightarrow> bytes list res \<times> store" where
  "SRandMember env key cnt st = read_key env key (Inr []) (sRandMember_body cnt env st) st"

subsection \<open>Set algebra\<close>

datatype SetOp = SetInter | SetUnion | SetDiff

text \<open>The operands: a missing key is no set. A key of another type ends the loop after the accesses so far.\<close>

fun collect_sets :: "goenv \<Rightarrow> bytes list \<Rightarrow> store \<Rightarrow> (bytes, unit) gomap option list res \<times> store" where
  "collect_sets env [] st = (Inr [], st)"
| "collect_sets env (k # ks) st =
     (case liveEntry st k (now env) of
        None \<Rightarrow>
          (case collect_sets env ks st of
             (Inl err, st') \<Rightarrow> (Inl err, st')
           | (Inr sets, st') \<Rightarrow> (Inr (None # sets), st'))
      | Some e \<Rightarrow>
          (case val e of
             VSet d \<Rightarrow>
               (case collect_sets env ks (put_slot k (Some (touch env st e)) st) of
                  (Inl err, st') \<Rightarrow> (Inl err, st')
                | (Inr sets, st') \<Rightarrow> (Inr (Some d # sets), st'))
           | _ \<Rightarrow> (Inl ErrWrongType, st)))"

definition set_keys :: "goenv \<Rightarrow> (bytes, unit) gomap option \<Rightarrow> bytes list" where
  "set_keys env s = (case s of None \<Rightarrow> [] | Some d \<Rightarrow> gkeys env d)"

definition set_has :: "(bytes, unit) gomap option \<Rightarrow> bytes \<Rightarrow> bool" where
  "set_has s m = (case s of None \<Rightarrow> False | Some d \<Rightarrow> map_of d m \<noteq> None)"

definition combine_sets :: "goenv \<Rightarrow> SetOp \<Rightarrow> int \<Rightarrow> (bytes, unit) gomap option list \<Rightarrow> bytes list" where
  "combine_sets env opr limit sets =
     (case opr of
        SetUnion \<Rightarrow>
          fold (\<lambda>s out. fold (\<lambda>m out. if m \<in> set out then out else out @ [m]) (set_keys env s) out) sets []
      | SetInter \<Rightarrow>
          if hd sets = None \<or> (\<exists>s \<in> set (tl sets). s = None) then []
          else
            let out = filter (\<lambda>m. \<forall>s \<in> set (tl sets). set_has s m) (set_keys env (hd sets))
            in if limit > 0 then take (nat limit) out else out
      | SetDiff \<Rightarrow>
          if hd sets = None then []
          else filter (\<lambda>m. \<not> (\<exists>s \<in> set (tl sets). set_has s m)) (set_keys env (hd sets)))"

definition combineLocked :: "goenv \<Rightarrow> SetOp \<Rightarrow> int \<Rightarrow> bytes list \<Rightarrow> store \<Rightarrow> bytes list res \<times> store" where
  "combineLocked env opr limit keys st =
     (case collect_sets env keys st of
        (Inl err, st') \<Rightarrow> (Inl err, st')
      | (Inr sets, st') \<Rightarrow> (Inr (combine_sets env opr limit sets), st'))"

definition SCombine :: "goenv \<Rightarrow> SetOp \<Rightarrow> int \<Rightarrow> bytes list \<Rightarrow> store \<Rightarrow> bytes list res \<times> store" where
  "SCombine env opr limit keys st =
     (if length keys = 0 then (Inr [], st) else combineLocked env opr limit keys st)"

definition store_combined :: "goenv \<Rightarrow> bytes \<Rightarrow> bytes list res \<Rightarrow> store \<Rightarrow> (int \<times> bool) res \<times> store" where
  "store_combined env dst r st =
     (case r of
        Inl err \<Rightarrow> (Inl err, st)
      | Inr members \<Rightarrow>
          if length members = 0 then
            (Inr (0, liveEntry st dst (now env) \<noteq> None), put_slot dst None st)
          else
            (Inr (int (length members), True),
             put_slot dst (Some (touch env st (with_set (new_entry (VSet []))
               (fold (\<lambda>m h. fst (setPut m h)) members ([], 0))))) st))"

definition SCombineStore :: "goenv \<Rightarrow> SetOp \<Rightarrow> bytes \<Rightarrow> bytes list \<Rightarrow> store \<Rightarrow> (int \<times> bool) res \<times> store" where
  "SCombineStore env opr dst keys st =
     trackedKeys [dst]
       (\<lambda>st. let (r, st') = combineLocked env opr 0 keys st in store_combined env dst r st') st"

subsection \<open>Well-formedness\<close>

lemma with_set_simps [simp]:
  "val (with_set e h) = VSet (fst h)" "eBytes (with_set e h) = snd h" "expireAt (with_set e h) = expireAt e"
  "entry_ok (with_set e h) = set_ok h" "expired t (with_set e h) = expired t e"
  by (simp_all add: with_set_def entry_ok_def expired_def)

lemma set_entry_ok: "val e = VSet d \<Longrightarrow> entry_ok e \<longleftrightarrow> set_ok (d, eBytes e)"
  by (simp add: entry_ok_def)

lemma store_set_ok [simp]: "set_ok h \<Longrightarrow> slot_ok (store_set env st e h)"
  by (simp add: store_set_def)

lemma sadd_loop_eq: "sadd_loop ms h n = (fold (\<lambda>m h. fst (setPut m h)) ms h, n + int (card (set ms - dom (map_of (fst h)))))"
proof (induction ms arbitrary: h n)
  case (Cons m ms)
  obtain h' b where d: "setPut m h = (h', b)" by (cases "setPut m h")
  have m: "map_of (fst h') = (map_of (fst h))(m \<mapsto> ())" "b \<longleftrightarrow> m \<notin> dom (map_of (fst h))"
    using setPut_map [of m h] by (cases "map_of (fst h) m"; simp add: d domIff)+
  have d': "dom (map_of (fst h')) = insert m (dom (map_of (fst h)))" by (simp add: m(1))
  have s: "set (m # ms) = insert m (set ms)" by simp
  show ?case unfolding sadd_loop.simps d s card_insert_Diff [OF finite_set] Let_def prod.case Cons d'
    using m(2) by (simp add: d)
qed simp

lemma srem_loop_eq: "srem_loop ms h n = (fold (\<lambda>m h. fst (setDrop m h)) ms h, n + int (card (set ms \<inter> dom (map_of (fst h)))))"
proof (induction ms arbitrary: h n)
  case (Cons m ms)
  obtain h' b where d: "setDrop m h = (h', b)" by (cases "setDrop m h")
  have m: "map_of (fst h') = (map_of (fst h))(m := None)" "b \<longleftrightarrow> m \<in> dom (map_of (fst h))"
    using setDrop_map [of m h] by (cases "map_of (fst h) m"; simp add: d domIff)+
  have d': "dom (map_of (fst h')) = dom (map_of (fst h)) - {m}" by (simp add: m(1))
  have s: "set (m # ms) = insert m (set ms)" by simp
  show ?case unfolding srem_loop.simps d s card_insert_Int [OF finite_set] Let_def prod.case Cons d'
    using m(2) by (simp add: d)
qed simp

lemma fold_setDrop_ok: "set_ok h \<Longrightarrow> set_ok (fold (\<lambda>m h. fst (setDrop m h)) ms h)"
  by (induction ms arbitrary: h) (auto simp: setDrop_ok)

lemma fold_setDrop:
  "map_of (fst (fold (\<lambda>m h. fst (setDrop m h)) ms h)) k = (if k \<in> set ms then None else map_of (fst h) k)"
  by (induction ms arbitrary: h) auto

lemma fold_setPut_nonempty: "ms \<noteq> [] \<or> fst h \<noteq> [] \<Longrightarrow> fst (fold (\<lambda>m h. fst (setPut m h)) ms h) \<noteq> []"
proof (induction ms arbitrary: h)
  case (Cons m ms)
  have "fst (fst (setPut m h)) \<noteq> []" by simp
  then show ?case using Cons.IH by simp
qed simp

lemma sAdd_ok: "members \<noteq> [] \<Longrightarrow> slot_ok slot \<Longrightarrow> slot_ok (fst (sAdd_body env members st slot))"
  by (auto simp: sAdd_body_def Let_def sadd_loop_eq set_entry_ok fold_setPut_ok fold_setPut_nonempty
      dest!: liveSlot_SomeD split: option.split val.split)

lemma set_bodies_ok:
  assumes "slot_ok slot"
  shows "slot_ok (fst (sRem_body env ms st slot))" "slot_ok (fst (sPop_body env n st slot))"
  using assms
  by (auto simp: sRem_body_def sPop_body_def Let_def srem_loop_eq set_entry_ok fold_setDrop_ok
      dest!: liveSlot_SomeD split: option.split val.split)

interpretation sadd: key_writer_if "SAdd env key ms" key "sAdd_body env ms" "ms \<noteq> []" for env key ms
  by unfold_locales (simp_all add: SAdd_def sAdd_ok)

interpretation srem: key_writer "SRem env key ms" key "sRem_body env ms" for env key ms
  by unfold_locales (simp_all add: SRem_def set_bodies_ok)

interpretation spop: key_writer "SPop env key n" key "sPop_body env n" for env key n
  by unfold_locales (simp_all add: SPop_def set_bodies_ok)

interpretation smembers: key_reader "\<lambda>env. SMembers env key" key "Inr []" sMembers_body for key
  by unfold_locales (simp_all add: SMembers_def sMembers_body_def split: val.split)

interpretation sismember: key_reader "\<lambda>env. SIsMember env key m" key "Inr False" "sIsMember_body m" for key m
  by unfold_locales (simp_all add: SIsMember_def sIsMember_body_def)

interpretation smismember: key_reader "\<lambda>env. SMIsMember env key ms" key "Inr (map (\<lambda>m. False) ms)" "sMIsMember_body ms" for key ms
  by unfold_locales (simp_all add: SMIsMember_def sMIsMember_body_def)

interpretation scard: key_reader "\<lambda>env. SCard env key" key "Inr 0" sCard_body for key
  by unfold_locales (simp_all add: SCard_def sCard_body_def)

interpretation srand: key_reader "\<lambda>env. SRandMember env key n" key "Inr []" "sRandMember_body n" for key n
  by unfold_locales (simp_all add: SRandMember_def sRandMember_body_def split: val.split)

lemma sMove_cases:
  assumes "store_inv st"
  obtains (none) "snd (sMove_body env src dst m st) = st" "fst (sMove_body env src dst m st) = Inr True \<Longrightarrow> src = dst"
  | (move) se sd de dd where "src \<noteq> dst" "liveEntry st src (now env) = Some se" "val se = VSet sd" "set_ok (sd, eBytes se)"
      "map_of sd m \<noteq> None" "set_ok (dd, eBytes de)"
      "liveEntry st dst (now env) = None \<and> de = new_entry (VSet []) \<and> dd = [] \<or>
       liveEntry st dst (now env) = Some de \<and> val de = VSet dd"
      "sMove_body env src dst m st =
        (Inr True, put_slot dst (Some (touch env st (with_set de (fst (setPut m (dd, eBytes de))))))
           (put_slot src (store_set env st se (fst (setDrop m (sd, eBytes se)))) st))"
proof (cases "liveEntry st src (now env)")
  case None
  then show ?thesis using none by (simp add: sMove_body_def)
next
  case (Some se)
  show ?thesis
  proof (cases "\<exists>sd. val se = VSet sd")
    case False
    then have "sMove_body env src dst m st = (Inl ErrWrongType, st)"
      using Some by (cases "val se") (simp_all add: sMove_body_def)
    then show ?thesis using none by simp
  next
    case True
    then obtain sd where sd: "val se = VSet sd" by blast
    have ok: "set_ok (sd, eBytes se)" using live_ok [OF assms Some] sd by (simp add: set_entry_ok)
    show ?thesis
    proof (cases "src = dst \<or> map_of sd m = None")
      case True
      have "snd (sMove_body env src dst m st) = st \<and> (fst (sMove_body env src dst m st) = Inr True \<longrightarrow> src = dst)"
      proof (cases "src = dst")
        case True
        then show ?thesis using Some sd by (simp add: sMove_body_def Let_def)
      next
        case False
        with True have "map_of sd m = None" by simp
        then show ?thesis using Some sd False
          by (simp add: sMove_body_def Let_def split: option.split val.split)
      qed
      then show ?thesis using none by blast
    next
      case False
      then have n: "src \<noteq> dst" "map_of sd m \<noteq> None" by auto
      let ?res = "\<lambda>de dd. (Inr True, put_slot dst (Some (touch env st (with_set de (fst (setPut m (dd, eBytes de))))))
           (put_slot src (store_set env st se (fst (setDrop m (sd, eBytes se)))) st))"
      show ?thesis
      proof (cases "liveEntry st dst (now env)")
        case None
        have "sMove_body env src dst m st = ?res (new_entry (VSet [])) []"
          unfolding sMove_body_def Some option.case sd val.case None Let_def using n by simp
        then show ?thesis using move [OF n(1) Some sd ok n(2), of "[]" "new_entry (VSet [])"] None by simp
      next
        case de: (Some de)
        show ?thesis
        proof (cases "\<exists>dd. val de = VSet dd")
          case True
          then obtain dd where dd: "val de = VSet dd" by blast
          have "set_ok (dd, eBytes de)" using live_ok [OF assms de] dd by (simp add: set_entry_ok)
          moreover have "sMove_body env src dst m st = ?res de dd"
            unfolding sMove_body_def Some option.case sd val.case de dd Let_def using n by simp
          ultimately show ?thesis using move [OF n(1) Some sd ok n(2)] de dd by blast
        next
          case False
          then have "sMove_body env src dst m st = (Inl ErrWrongType, st)"
            using Some sd n(1) de by (cases "val de") (simp_all add: sMove_body_def Let_def)
          then show ?thesis using none by simp
        qed
      qed
    qed
  qed
qed

interpretation smove: keys_writer "SMove env src dst m" "[src, dst]" "sMove_body env src dst m" True
  for env src dst m
proof unfold_locales
  fix st :: store and k
  assume i: "store_inv st"
  note w = store_invD(1) [OF i]
  show "data_only [src, dst] st (snd (sMove_body env src dst m st))"
    by (cases rule: sMove_cases [OF i, of env src dst m])
      (simp_all add: w data_only_refl data_only_put2)
  show "slot_ok (get_slot (snd (sMove_body env src dst m st)) k)"
    by (cases rule: sMove_cases [OF i, of env src dst m])
      (simp_all add: w get_put_slot put_slot_wf store_invD(3) [OF i] setDrop_ok setPut_ok)
qed (simp add: SMove_def)

lemma SMove_inv:
  assumes "store_inv st"
  shows "store_inv (snd (SMove env src dst m st))"
proof (rule smove.inv_settles [OF assms TrueI])
  show "settles [src, dst] st (snd (sMove_body env src dst m st))"
    by (cases rule: sMove_cases [OF assms, of env src dst m]) (simp_all add: settles_def)
qed

subsection \<open>Reading several keys\<close>

text \<open>From \<open>st\<close> to \<open>st'\<close> accesses were recorded and nothing else has changed.\<close>

definition touched :: "store \<Rightarrow> store \<Rightarrow> bool" where
  "touched st st' \<longleftrightarrow> store_inv st' \<and> rest st' = rest st \<and> (\<forall>k. rel_option same_value (get_slot st k) (get_slot st' k))"

lemma same_value_trans: "same_value a b \<Longrightarrow> same_value b c \<Longrightarrow> same_value a c"
  by (cases a; cases b; cases c) (simp add: same_value_def)

lemma touched_refl: "store_inv st \<Longrightarrow> touched st st"
  by (simp add: touched_def option.rel_refl)

lemma touched_trans: "touched a b \<Longrightarrow> touched b c \<Longrightarrow> touched a c"
proof -
  assume "touched a b" "touched b c"
  then have r: "rel_option same_value (get_slot a k) (get_slot b k)" "rel_option same_value (get_slot b k) (get_slot c k)" for k
    by (simp_all add: touched_def)
  have "rel_option same_value (get_slot a k) (get_slot c k)" for k
    using r [of k] by (cases "get_slot a k"; cases "get_slot b k"; cases "get_slot c k") (auto intro: same_value_trans)
  with \<open>touched a b\<close> \<open>touched b c\<close> show "touched a c" by (simp add: touched_def)
qed

lemma put_slot_rest [simp]: "rest (put_slot k v st) = rest st"
  by (simp add: rest_def put_slot_def upd_shard_def)

lemma touched_put:
  assumes "store_inv st" "liveEntry st k t = Some e"
  shows "touched st (put_slot k (Some (touch env st' e)) st)"
  using put_same_inv [OF assms(1) _ same_value_touch, of k e env st'] liveEntry_Some [OF assms(2)]
  by (simp add: touched_def get_put_slot store_invD assms(1) option.rel_refl)

lemma touched_live:
  assumes "touched st st'"
  shows "rel_option same_value (liveEntry st k t) (liveEntry st' k t)" "chargeOf st' k = chargeOf st k"
proof -
  have r: "rel_option same_value (get_slot st k) (get_slot st' k)" using assms by (simp add: touched_def)
  show "rel_option same_value (liveEntry st k t) (liveEntry st' k t)"
    using r by (cases rule: option.rel_cases) (auto simp: liveEntry_def liveSlot_def same_value_props(4))
  show "chargeOf st' k = chargeOf st k"
    using r by (cases rule: option.rel_cases) (auto simp: chargeOf_def same_value_props(2) dest: same_valueD(2))
qed

text \<open>Settling after a write that was preceded by accesses is settling the write.\<close>

lemma trackedKeys_touched:
  assumes "touched st (snd (first st))" "body st = act (fst (first st)) (snd (first st))"
  shows "trackedKeys keys body st = trackedKeys keys (act (fst (first st))) (snd (first st))"
proof -
  have "rest (snd (first st)) = rest st" using assms(1) by (simp add: touched_def)
  then have "memTrack (snd (first st)) = memTrack st" by (rule restD(2))
  then show ?thesis by (simp add: trackedKeys_unfold touched_live(2) [OF assms(1)] assms(2))
qed

subsection \<open>The sets of a store\<close>

definition set_of :: "int \<Rightarrow> entry option \<Rightarrow> bytes set option" where
  "set_of t slot =
     (case liveSlot t slot of
        None \<Rightarrow> Some {}
      | Some e \<Rightarrow> (case val e of VSet d \<Rightarrow> Some (dom (map_of d)) | _ \<Rightarrow> None))"

abbreviation set_view :: "store \<Rightarrow> bytes \<Rightarrow> int \<Rightarrow> bytes set option" where
  "set_view st key t \<equiv> set_of t (get_slot st key)"

lemma set_of_simps [simp]:
  "liveSlot t slot = None \<Longrightarrow> set_of t slot = Some {}"
  "\<not> expired t e \<Longrightarrow> val e = VSet d \<Longrightarrow> set_of t (Some e) = Some (dom (map_of d))"
  "\<not> expired t e \<Longrightarrow> set_of t (store_set env st e h) = Some (dom (map_of (fst h)))"
  by (simp_all add: set_of_def store_set_def)

lemma set_of_cases:
  assumes "set_of t slot = Some A"
  obtains (none) "liveSlot t slot = None" "A = {}"
  | (live) e d where "slot = Some e" "\<not> expired t e" "liveSlot t slot = Some e" "val e = VSet d" "A = dom (map_of d)"
  using assms by (auto simp: set_of_def dest: liveSlot_SomeD split: option.splits val.splits)

lemma dom_fold_setPut: "dom (map_of (fst (fold (\<lambda>m h. fst (setPut m h)) ms h))) = set ms \<union> dom (map_of (fst h))"
  by (auto simp: fold_setPut domIff split: if_splits)

lemma dom_fold_setDrop: "dom (map_of (fst (fold (\<lambda>m h. fst (setDrop m h)) ms h))) = dom (map_of (fst h)) - set ms"
  by (auto simp: fold_setDrop domIff split: if_splits)

lemma SAdd_view:
  assumes "store_inv st" "set_view st key (now env) = Some A"
  shows "fst (SAdd env key ms st) = Inr (int (card (set ms - A)))"
    and "set_view (snd (SAdd env key ms st)) key (now env) = Some (A \<union> set ms)"
proof -
  note w = store_invD(1) [OF assms(1)]
  show "fst (SAdd env key ms st) = Inr (int (card (set ms - A)))"
    using assms(2) by (cases rule: set_of_cases) (simp_all add: sadd.result [OF w] sAdd_body_def Let_def sadd_loop_eq)
  show "set_view (snd (SAdd env key ms st)) key (now env) = Some (A \<union> set ms)"
    using assms(2) by (cases rule: set_of_cases)
      (simp_all add: sadd.slot [OF w] sAdd_body_def Let_def sadd_loop_eq dom_fold_setPut Un_commute)
qed

lemma SRem_view:
  assumes "store_inv st" "set_view st key (now env) = Some A"
  shows "fst (SRem env key ms st) = Inr (int (card (set ms \<inter> A)))"
    and "set_view (snd (SRem env key ms st)) key (now env) = Some (A - set ms)"
proof -
  note w = store_invD(1) [OF assms(1)]
  show "fst (SRem env key ms st) = Inr (int (card (set ms \<inter> A)))"
    using assms(2) by (cases rule: set_of_cases) (simp_all add: srem.result [OF w] sRem_body_def Let_def srem_loop_eq)
  show "set_view (snd (SRem env key ms st)) key (now env) = Some (A - set ms)"
    using assms(2) by (cases rule: set_of_cases)
      (simp_all add: srem.slot [OF w] sRem_body_def Let_def srem_loop_eq dom_fold_setDrop)
qed

text \<open>\<open>SPop\<close> removes exactly what it returns, and that many distinct members.\<close>

lemma SPop_view:
  assumes "store_inv st" "set_view st key (now env) = Some A" "A \<noteq> {}" "fair_iter env" "0 \<le> n"
  obtains ms where "fst (SPop env key n st) = Inr (Some ms)" "set ms \<subseteq> A" "distinct ms"
    "length ms = min (nat n) (card A)" "set_view (snd (SPop env key n st)) key (now env) = Some (A - set ms)"
proof -
  note w = store_invD(1) [OF assms(1)]
  obtain e d where e: "get_slot st key = Some e" "\<not> expired (now env) e" "val e = VSet d" "A = dom (map_of d)"
    using assms(2,3) by (cases rule: set_of_cases) auto
  have d: "gmap_wf d" using store_invD(3) [OF assms(1), of key] e by (simp add: set_entry_ok set_ok_def)
  have k: "set (gkeys env d) = A" "distinct (gkeys env d)" "length (gkeys env d) = length d"
    using gkeys_props [OF assms(4)] d by (simp_all add: e(4) dom_map_of_conv_image_fst)
  have c: "card A = length d" using k by (metis distinct_card)
  let ?ms = "if n \<ge> int (length d) then gkeys env d else take (nat n) (gkeys env d)"
  show ?thesis
  proof (rule that [of ?ms])
    show "fst (SPop env key n st) = Inr (Some ?ms)" using e by (simp add: spop.result [OF w] sPop_body_def Let_def)
    show "set ?ms \<subseteq> A" "distinct ?ms" "length ?ms = min (nat n) (card A)"
      using k c assms(5) by (auto dest: in_set_takeD)
    show "set_view (snd (SPop env key n st)) key (now env) = Some (A - set ?ms)"
      using e by (simp add: spop.slot [OF w] sPop_body_def Let_def dom_fold_setDrop)
  qed
qed

subsection \<open>The algebra\<close>

lemma collect_sets_touched: "store_inv st \<Longrightarrow> touched st (snd (collect_sets env ks st))"
proof (induction ks arbitrary: st)
  case (Cons k ks)
  show ?case
  proof (cases "liveEntry st k (now env)")
    case None
    then show ?thesis using Cons.IH [OF Cons.prems] by (auto split: prod.split sum.split)
  next
    case (Some e)
    let ?T = "put_slot k (Some (touch env st e)) st"
    have t: "touched st ?T" by (rule touched_put [OF Cons.prems Some])
    then have "touched ?T (snd (collect_sets env ks ?T))" by (intro Cons.IH) (simp add: touched_def)
    with t have "touched st (snd (collect_sets env ks ?T))" by (rule touched_trans)
    then show ?thesis using Some touched_refl [OF Cons.prems] by (auto split: prod.split sum.split val.split)
  qed
qed (simp add: touched_refl)

definition set_members :: "(bytes, unit) gomap option \<Rightarrow> bytes set" where
  "set_members s = (case s of None \<Rightarrow> {} | Some d \<Rightarrow> dom (map_of d))"

lemma touched_set_view: "touched st st' \<Longrightarrow> set_view st' k t = set_view st k t"
proof -
  assume "touched st st'"
  from touched_live(1) [OF this, of k t] show ?thesis
    by (auto simp: set_of_def liveEntry_def [symmetric] elim!: option.rel_cases dest!: same_valueD(1))
qed

text \<open>The operands are the sets the client sees; a missing key gives no set, a live one a nonempty one.\<close>

lemma collect_sets_result:
  assumes "store_inv st" "list_all2 (\<lambda>k A. set_view st k (now env) = Some A) ks As"
  shows "\<exists>sets. fst (collect_sets env ks st) = Inr sets \<and>
    list_all2 (\<lambda>s A. set_members s = A \<and> (s = None \<longleftrightarrow> A = {}) \<and> (\<forall>d. s = Some d \<longrightarrow> gmap_wf d)) sets As"
  using assms
proof (induction ks arbitrary: st As)
  case (Cons k ks)
  then obtain A As' where As: "As = A # As'" and A: "set_view st k (now env) = Some A"
    and rest: "list_all2 (\<lambda>k A. set_view st k (now env) = Some A) ks As'" by (auto simp: list_all2_Cons1)
  from A show ?case
  proof (cases rule: set_of_cases)
    case none
    then show ?thesis using Cons.IH [OF Cons.prems(1) rest]
      by (auto simp: As liveEntry_def set_members_def split: prod.split sum.split)
  next
    case (live e d)
    have l: "liveEntry st k (now env) = Some e" using live by (simp add: liveEntry_def)
    let ?T = "put_slot k (Some (touch env st e)) st"
    have t: "touched st ?T" by (rule touched_put [OF Cons.prems(1) l])
    have d: "gmap_wf d" "d \<noteq> []" using live_ok [OF Cons.prems(1) l] live(4) by (simp_all add: set_entry_ok set_ok_def)
    have "list_all2 (\<lambda>k A. set_view ?T k (now env) = Some A) ks As'"
      using rest unfolding touched_set_view [OF t] .
    moreover have "store_inv ?T" using t by (simp add: touched_def)
    ultimately obtain sets where sets: "fst (collect_sets env ks ?T) = Inr sets"
      "list_all2 (\<lambda>s A. set_members s = A \<and> (s = None \<longleftrightarrow> A = {}) \<and> (\<forall>d. s = Some d \<longrightarrow> gmap_wf d)) sets As'"
      using Cons.IH by blast
    have "fst (collect_sets env (k # ks) st) = Inr (Some d # sets)"
      using l live(4) sets(1) by (auto split: prod.split sum.split)
    moreover have "A \<noteq> {}" using d(2) live(5) by (simp add: dom_map_of_conv_image_fst)
    ultimately show ?thesis using sets(2) live(5) d(1) by (auto simp: As set_members_def)
  qed
qed simp

text \<open>The combination as a set: the reference definition.\<close>

definition set_combination :: "SetOp \<Rightarrow> bytes set list \<Rightarrow> bytes set" where
  "set_combination opr As =
     (case opr of
        SetInter \<Rightarrow> \<Inter> (set As) | SetUnion \<Rightarrow> \<Union> (set As) | SetDiff \<Rightarrow> hd As - \<Union> (set (tl As)))"

lemma fold_distinct_append:
  "set (fold (\<lambda>m out. if m \<in> set out then out else out @ [m]) ms out) = set out \<union> set ms"
  "distinct out \<Longrightarrow> distinct (fold (\<lambda>m out. if m \<in> set out then out else out @ [m]) ms out)"
  by (induction ms arbitrary: out) auto

lemma set_keys_members: "fair_iter env \<Longrightarrow> set (set_keys env s) = set_members s"
  using gkeys_props(1) [of env] by (auto simp: set_keys_def set_members_def dom_map_of_conv_image_fst split: option.split)

lemma set_has_members: "set_has s m \<longleftrightarrow> m \<in> set_members s"
  by (auto simp: set_has_def set_members_def split: option.split)

lemma combine_union:
  assumes "fair_iter env"
  shows "set (combine_sets env SetUnion limit sets) = \<Union> (set_members ` set sets)" "distinct (combine_sets env SetUnion limit sets)"
proof -
  let ?f = "\<lambda>s out. fold (\<lambda>m out. if m \<in> set out then out else out @ [m]) (set_keys env s) out"
  have "set (fold ?f sets out) = set out \<union> \<Union> (set_members ` set sets) \<and> (distinct out \<longrightarrow> distinct (fold ?f sets out))" for out
    by (induction sets arbitrary: out) (auto simp: fold_distinct_append set_keys_members [OF assms])
  then show "set (combine_sets env SetUnion limit sets) = \<Union> (set_members ` set sets)" "distinct (combine_sets env SetUnion limit sets)"
    by (simp_all add: combine_sets_def)
qed

lemma combine_sets_correct:
  assumes "fair_iter env" "sets \<noteq> []"
    and "list_all2 (\<lambda>s A. set_members s = A \<and> (s = None \<longleftrightarrow> A = {}) \<and> (\<forall>d. s = Some d \<longrightarrow> gmap_wf d)) sets As"
  shows "distinct (combine_sets env opr limit sets)"
    and "limit \<le> 0 \<or> opr \<noteq> SetInter \<Longrightarrow> set (combine_sets env opr limit sets) = set_combination opr As"
    and "0 < limit \<Longrightarrow> set (combine_sets env SetInter limit sets) \<subseteq> set_combination SetInter As \<and>
      length (combine_sets env SetInter limit sets) = min (nat limit) (card (set_combination SetInter As))"
proof -
  obtain s ss where ss: "sets = s # ss" using assms(2) by (cases sets) auto
  have As: "As = map set_members sets" using assms(3) by (induction rule: list_all2_induct) auto
  have z: "x = None \<longleftrightarrow> set_members x = {}" "\<And>d. x = Some d \<Longrightarrow> gmap_wf d" if "x \<in> set sets" for x
    using assms(3) that by (induction rule: list_all2_induct) auto
  have ks: "distinct (set_keys env s)"
    using gkeys_props(2) [OF assms(1)] z(2) [of s] by (auto simp: set_keys_def ss split: option.split)
  let ?I = "filter (\<lambda>m. \<forall>x \<in> set ss. set_has x m) (set_keys env s)"
  have I: "set ?I = \<Inter> (set As)"
    by (auto simp: As ss set_has_members set_keys_members [OF assms(1)])
  have none: "\<Inter> (set As) = {}" if "x \<in> set sets" "x = None" for x
    using that z(1) [of x] by (auto simp: As)
  have inter: "combine_sets env SetInter limit sets =
      (if s = None \<or> (\<exists>x \<in> set ss. x = None) then [] else if limit > 0 then take (nat limit) ?I else ?I)"
    by (simp add: combine_sets_def ss Let_def)
  show "distinct (combine_sets env opr limit sets)"
  proof (cases "opr = SetUnion")
    case False
    then show ?thesis using ks by (cases opr) (simp_all add: combine_sets_def ss Let_def)
  qed (simp add: combine_union(2) [OF assms(1)])
  show "limit \<le> 0 \<or> opr \<noteq> SetInter \<Longrightarrow> set (combine_sets env opr limit sets) = set_combination opr As"
  proof (cases opr)
    case SetInter
    assume "limit \<le> 0 \<or> opr \<noteq> SetInter"
    then show ?thesis using SetInter I none by (simp add: inter set_combination_def) (force simp: ss)
  next
    case SetUnion
    then show ?thesis using combine_union(1) [OF assms(1)] by (simp add: set_combination_def As)
  next
    case SetDiff
    then show ?thesis using z(1) [of s]
      by (auto simp: combine_sets_def ss As set_combination_def set_has_members set_keys_members [OF assms(1)])
  qed
  show "0 < limit \<Longrightarrow> set (combine_sets env SetInter limit sets) \<subseteq> set_combination SetInter As \<and>
      length (combine_sets env SetInter limit sets) = min (nat limit) (card (set_combination SetInter As))"
  proof (cases "s = None \<or> (\<exists>x \<in> set ss. x = None)")
    case True
    then have "combine_sets env SetInter limit sets = []" "\<Inter> (set As) = {}"
      using inter none by (simp, auto simp: ss)
    then show ?thesis by (simp add: set_combination_def)
  next
    case False
    assume "0 < limit"
    moreover have "card (\<Inter> (set As)) = length ?I" using ks distinct_card [of ?I] by (simp add: I [symmetric])
    moreover have "set (take (nat limit) ?I) \<subseteq> \<Inter> (set As)" unfolding I [symmetric] by (rule set_take_subset)
    moreover have "combine_sets env SetInter limit sets = take (nat limit) ?I"
      using False \<open>0 < limit\<close> unfolding inter by (simp only: if_False if_True)
    ultimately show ?thesis by (simp add: set_combination_def min.commute)
  qed
qed

lemma combineLocked_correct:
  assumes "store_inv st" "fair_iter env" "ks \<noteq> []" "list_all2 (\<lambda>k A. set_view st k (now env) = Some A) ks As"
  obtains out where "fst (combineLocked env opr limit ks st) = Inr out" "distinct out"
    "limit \<le> 0 \<or> opr \<noteq> SetInter \<Longrightarrow> set out = set_combination opr As"
proof -
  obtain sets where sets: "fst (collect_sets env ks st) = Inr sets"
    "list_all2 (\<lambda>s A. set_members s = A \<and> (s = None \<longleftrightarrow> A = {}) \<and> (\<forall>d. s = Some d \<longrightarrow> gmap_wf d)) sets As"
    using collect_sets_result [OF assms(1,4)] by blast
  have "sets \<noteq> []" using sets(2) assms(3,4) by (auto simp: list_all2_Nil)
  moreover have "fst (combineLocked env opr limit ks st) = Inr (combine_sets env opr limit sets)"
    using sets(1) by (auto simp: combineLocked_def split: prod.split sum.split)
  ultimately show ?thesis using that combine_sets_correct(1,2) [OF assms(2) _ sets(2), where opr = opr and limit = limit] by blast
qed

lemma combineLocked_touched: "store_inv st \<Longrightarrow> touched st (snd (combineLocked env opr limit ks st))"
  using collect_sets_touched [of st env ks] by (auto simp: combineLocked_def split: prod.split sum.split)

lemma SCombine_inv: "store_inv st \<Longrightarrow> store_inv (snd (SCombine env opr limit ks st))"
  using combineLocked_touched [of st env opr limit ks] by (simp add: SCombine_def touched_def)

text \<open>Storing the combination: the destination holds it, or is gone when it is empty; no other key changes
  but for its access.\<close>

interpretation store_comb: keys_writer "trackedKeys [dst] (store_combined env dst r)" "[dst]" "store_combined env dst r" True
  for env dst r
proof unfold_locales
  fix st :: store and k
  assume i: "store_inv st"
  note w = store_invD(1) [OF i]
  show "data_only [dst] st (snd (store_combined env dst r st))"
    by (auto simp: store_combined_def w data_only_refl data_only_put split: sum.split)
  show "slot_ok (get_slot (snd (store_combined env dst r st)) k)"
    using store_invD(3) [OF i, of k]
    by (auto simp: store_combined_def w get_put_slot fold_setPut_ok fold_setPut_nonempty split: sum.split)
qed simp

lemma SCombineStore_split:
  assumes "store_inv st"
  shows "SCombineStore env opr dst ks st =
    (let (r, st') = combineLocked env opr 0 ks st in trackedKeys [dst] (store_combined env dst r) st')"
  unfolding SCombineStore_def split_def Let_def
  by (rule trackedKeys_touched [where act = "store_combined env dst"]) (simp_all add: combineLocked_touched assms)

lemma SCombineStore_inv: "store_inv st \<Longrightarrow> store_inv (snd (SCombineStore env opr dst ks st))"
  using combineLocked_touched [of st env opr 0 ks]
  by (simp add: SCombineStore_split Let_def split_def store_comb.inv touched_def)

lemma SCombineStore_view:
  assumes "store_inv st" "fair_iter env" "ks \<noteq> []" "list_all2 (\<lambda>k A. set_view st k (now env) = Some A) ks As"
  shows "set_view (snd (SCombineStore env opr dst ks st)) dst (now env) = Some (set_combination opr As)"
    and "\<exists>changed. fst (SCombineStore env opr dst ks st) = Inr (int (card (set_combination opr As)), changed)"
    and "k \<noteq> dst \<Longrightarrow> rel_option same_value (get_slot st k) (get_slot (snd (SCombineStore env opr dst ks st)) k)"
proof -
  obtain out where out: "fst (combineLocked env opr 0 ks st) = Inr out" "distinct out" "set out = set_combination opr As"
    using combineLocked_correct [OF assms, of opr 0] by auto
  let ?T = "snd (combineLocked env opr 0 ks st)"
  have t: "touched st ?T" by (rule combineLocked_touched [OF assms(1)])
  then have i: "store_inv ?T" by (simp add: touched_def)
  have e: "SCombineStore env opr dst ks st = trackedKeys [dst] (store_combined env dst (Inr out)) ?T"
    by (simp add: SCombineStore_split assms(1) Let_def split_def out(1))
  note s = store_comb.slot [OF i TrueI] and r = store_comb.result [OF store_invD(1) [OF i]]
  have c: "card (set_combination opr As) = length out" using out(2,3) distinct_card by force
  show "set_view (snd (SCombineStore env opr dst ks st)) dst (now env) = Some (set_combination opr As)"
    using out(3) by (auto simp: e s store_combined_def get_put_slot store_invD(1) [OF i] dom_fold_setPut)
  show "\<exists>changed. fst (SCombineStore env opr dst ks st) = Inr (int (card (set_combination opr As)), changed)"
    by (auto simp: e r store_combined_def c)
  show "k \<noteq> dst \<Longrightarrow> rel_option same_value (get_slot st k) (get_slot (snd (SCombineStore env opr dst ks st)) k)"
    using t by (simp add: e store_comb.frame [OF i TrueI] touched_def)
qed

lemma SMove_view:
  assumes i: "store_inv st" and A: "set_view st src (now env) = Some A" and B: "set_view st dst (now env) = Some B"
    and "src \<noteq> dst"
  shows "fst (SMove env src dst m st) = Inr (m \<in> A)"
    and "m \<in> A \<Longrightarrow> set_view (snd (SMove env src dst m st)) src (now env) = Some (A - {m}) \<and>
      set_view (snd (SMove env src dst m st)) dst (now env) = Some (insert m B)"
    and "m \<notin> A \<Longrightarrow> get_slot (snd (SMove env src dst m st)) k = get_slot st k"
proof -
  note w = store_invD(1) [OF i] and r = smove.result [OF store_invD(1) [OF i]] smove.slot [OF i TrueI]
  have B': "liveEntry st dst (now env) = None \<and> B = {} \<or>
      (\<exists>e d. liveEntry st dst (now env) = Some e \<and> \<not> expired (now env) e \<and> val e = VSet d \<and> B = dom (map_of d))"
    using B by (cases rule: set_of_cases) (auto simp: liveEntry_def)
  have drop: "dom (map_of (fst (fst (setDrop m h)))) = dom (map_of (fst h)) - {m}" for h by simp
  have put: "dom (map_of (fst (fst (setPut m h)))) = insert m (dom (map_of (fst h)))" for h by simp
  from A have "fst (SMove env src dst m st) = Inr (m \<in> A) \<and>
    (m \<in> A \<longrightarrow> set_view (snd (SMove env src dst m st)) src (now env) = Some (A - {m}) \<and>
      set_view (snd (SMove env src dst m st)) dst (now env) = Some (insert m B)) \<and>
    (m \<notin> A \<longrightarrow> (\<forall>k. get_slot (snd (SMove env src dst m st)) k = get_slot st k))"
  proof (cases rule: set_of_cases)
    case none
    then show ?thesis by (simp add: r sMove_body_def liveEntry_def)
  next
    case (live e d)
    have l: "liveEntry st src (now env) = Some e" using live by (simp add: liveEntry_def)
    show ?thesis
    proof (cases "m \<in> A")
      case True
      then have "map_of d m \<noteq> None" using live(5) by (simp add: domIff)
      then show ?thesis using B' True live(2) assms(4)
        by (auto simp: r sMove_body_def l live(4,5) Let_def get_put_slot put_slot_wf w drop put)
    next
      case False
      then have "map_of d m = None" using live(5) by blast
      then show ?thesis using B' False assms(4) by (auto simp: r sMove_body_def l live(4) Let_def)
    qed
  qed
  then show "fst (SMove env src dst m st) = Inr (m \<in> A)"
    "m \<in> A \<Longrightarrow> set_view (snd (SMove env src dst m st)) src (now env) = Some (A - {m}) \<and>
      set_view (snd (SMove env src dst m st)) dst (now env) = Some (insert m B)"
    "m \<notin> A \<Longrightarrow> get_slot (snd (SMove env src dst m st)) k = get_slot st k" by blast+
qed

end
