(* ===== verification/ZSetOps.thy ===== *)
theory ZSetOps
  imports SetOps
begin

text \<open>
  The sorted-set commands of \<open>internal/store/zset.go\<close> and \<open>internal/store/zsetops.go\<close>. Range queries
  descend or index the skip list and then follow its lowest level; the lemmas show that what they
  read is the corresponding slice of the members sorted by score and name.
\<close>

type_synonym ZMember = "bytes \<times> float64"

subsection \<open>Adding\<close>

record ZAddOptions =
  zNX :: bool
  zXX :: bool
  zGT :: bool
  zLT :: bool
  zCH :: bool
  zIncr :: bool

definition allows :: "ZAddOptions \<Rightarrow> bool \<Rightarrow> bool" where
  "allows opts present = (if zNX opts \<and> present then False else if zXX opts \<and> \<not> present then False else True)"

definition gateScore :: "ZAddOptions \<Rightarrow> float64 \<Rightarrow> float64 option \<Rightarrow> bool" where
  "gateScore opts score cur =
     (case cur of
        None \<Rightarrow> True
      | Some c \<Rightarrow> if zGT opts then f64_lt c score else if zLT opts then f64_lt score c else True)"

fun zadd_loop :: "ZAddOptions \<Rightarrow> ZMember list \<Rightarrow> zset \<Rightarrow> int \<Rightarrow> int \<Rightarrow> zset \<times> int \<times> int" where
  "zadd_loop opts [] z n changed = (z, n, changed)"
| "zadd_loop opts ((m, s) # ms) z n changed =
     (let cur = map_of (zdict z) m
      in if \<not> allows opts (cur \<noteq> None) \<or> \<not> gateScore opts s cur then zadd_loop opts ms z n changed
         else
           let (z', isNew, didChange) = zset_add m s z
           in zadd_loop opts ms z' (if isNew then n + 1 else n) (if didChange then changed + 1 else changed))"

definition store_zset :: "goenv \<Rightarrow> store \<Rightarrow> bool \<Rightarrow> entry \<Rightarrow> zset \<Rightarrow> entry option" where
  "store_zset env st acc e z =
     (if length (zdict z) = 0 then None
      else let e' = e\<lparr>val := VZSet z\<rparr> in Some (if acc then touch env st e' else e'))"

definition zAddMulti_body :: "goenv \<Rightarrow> ZAddOptions \<Rightarrow> ZMember list \<Rightarrow> store \<Rightarrow> entry option \<Rightarrow> entry option \<times> (int \<times> int) res" where
  "zAddMulti_body env opts members st slot =
     (let add = (\<lambda>e z. let (z', n, changed) = zadd_loop opts members z 0 0
                      in (store_zset env st True e z', Inr (n, changed)))
      in case liveSlot (now env) slot of
           Some e \<Rightarrow> (case val e of VZSet z \<Rightarrow> add e z | _ \<Rightarrow> (slot, Inl ErrWrongType))
         | None \<Rightarrow>
             if zXX opts then (slot, Inr (0, 0))
             else let z = newZSet (coins env) in add (new_entry (VZSet z)) z)"

definition ZAddMulti :: "goenv \<Rightarrow> bytes \<Rightarrow> ZAddOptions \<Rightarrow> ZMember list \<Rightarrow> store \<Rightarrow> (int \<times> int) res \<times> store" where
  "ZAddMulti env key opts members st = write_key key (zAddMulti_body env opts members st) st"

definition noZAddOptions :: ZAddOptions where
  "noZAddOptions = \<lparr>zNX = False, zXX = False, zGT = False, zLT = False, zCH = False, zIncr = False\<rparr>"

definition ZAdd :: "goenv \<Rightarrow> bytes \<Rightarrow> bytes \<Rightarrow> float64 \<Rightarrow> store \<Rightarrow> (int \<times> bool) res \<times> store" where
  "ZAdd env key m s st =
     (let (r, st') = ZAddMulti env key noZAddOptions [(m, s)] st
      in (case r of Inl err \<Rightarrow> Inl err | Inr (n, changed) \<Rightarrow> Inr (n, changed > 0), st'))"

definition zIncrBy_body :: "goenv \<Rightarrow> bytes \<Rightarrow> float64 \<Rightarrow> ZAddOptions \<Rightarrow> store \<Rightarrow> entry option \<Rightarrow> entry option \<times> float64 option res" where
  "zIncrBy_body env m delta opts st slot =
     (let incr = (\<lambda>e z.
            let cur = map_of (zdict z) m;
                score = f64_add (case cur of None \<Rightarrow> f64_zero | Some c \<Rightarrow> c) delta
            in if \<not> allows opts (cur \<noteq> None) then (slot, Inr None)
               else if IsNaN score then (slot, Inl ErrScoreNaN)
               else if \<not> gateScore opts score cur then (slot, Inr None)
               else (Some (touch env st (e\<lparr>val := VZSet (fst (zset_add m score z))\<rparr>)), Inr (Some score)))
      in case liveSlot (now env) slot of
           Some e \<Rightarrow> (case val e of VZSet z \<Rightarrow> incr e z | _ \<Rightarrow> (slot, Inl ErrWrongType))
         | None \<Rightarrow> let z = newZSet (coins env) in incr (new_entry (VZSet z)) z)"

definition ZIncrBy :: "goenv \<Rightarrow> bytes \<Rightarrow> bytes \<Rightarrow> float64 \<Rightarrow> ZAddOptions \<Rightarrow> store \<Rightarrow> float64 option res \<times> store" where
  "ZIncrBy env key m delta opts st = write_key key (zIncrBy_body env m delta opts st) st"

subsection \<open>Removing\<close>

definition zRem_body :: "goenv \<Rightarrow> bytes \<Rightarrow> store \<Rightarrow> entry option \<Rightarrow> entry option \<times> bool res" where
  "zRem_body env m st slot =
     (case liveSlot (now env) slot of
        None \<Rightarrow> (slot, Inr False)
      | Some e \<Rightarrow>
          (case val e of
             VZSet z \<Rightarrow> (let (z', removed) = zset_remove m z in (store_zset env st False e z', Inr removed))
           | _ \<Rightarrow> (slot, Inl ErrWrongType)))"

definition ZRem :: "goenv \<Rightarrow> bytes \<Rightarrow> bytes \<Rightarrow> store \<Rightarrow> bool res \<times> store" where
  "ZRem env key m st = write_key key (zRem_body env m st) st"

fun zrem_loop :: "bytes list \<Rightarrow> zset \<Rightarrow> int \<Rightarrow> zset \<times> int" where
  "zrem_loop [] z removed = (z, removed)"
| "zrem_loop (m # ms) z removed =
     (let (z', gone) = zset_remove m z in zrem_loop ms z' (if gone then removed + 1 else removed))"

definition zRemMulti_body :: "goenv \<Rightarrow> bytes list \<Rightarrow> store \<Rightarrow> entry option \<Rightarrow> entry option \<times> int res" where
  "zRemMulti_body env members st slot =
     (case liveSlot (now env) slot of
        None \<Rightarrow> (slot, Inr 0)
      | Some e \<Rightarrow>
          (case val e of
             VZSet z \<Rightarrow>
               (let (z', removed) = zrem_loop members z 0 in (store_zset env st (removed > 0) e z', Inr removed))
           | _ \<Rightarrow> (slot, Inl ErrWrongType)))"

definition ZRemMulti :: "goenv \<Rightarrow> bytes \<Rightarrow> bytes list \<Rightarrow> store \<Rightarrow> int res \<times> store" where
  "ZRemMulti env key members st = write_key key (zRemMulti_body env members st) st"

text \<open>One step of the pop loop takes the node at the low or the high end; the count is not negative.\<close>

fun zpop_loop :: "nat \<Rightarrow> bool \<Rightarrow> zset \<Rightarrow> zset \<times> ZMember list" where
  "zpop_loop 0 fromMin z = (z, [])"
| "zpop_loop (Suc n) fromMin z =
     (case (if fromMin then sl_first (zsl z) else sltail (zsl z)) of
        None \<Rightarrow> (z, [])
      | Some a \<Rightarrow>
          let it = node_item (zsl z) a; (z', out) = zpop_loop n fromMin (fst (zset_remove (fst it) z))
          in (z', it # out))"

definition zPop_body :: "goenv \<Rightarrow> int \<Rightarrow> bool \<Rightarrow> store \<Rightarrow> entry option \<Rightarrow> entry option \<times> ZMember list res" where
  "zPop_body env cnt fromMin st slot =
     (case liveSlot (now env) slot of
        None \<Rightarrow> (slot, Inr [])
      | Some e \<Rightarrow>
          (case val e of
             VZSet z \<Rightarrow>
               (let (z', out) = zpop_loop (nat cnt) fromMin z in (store_zset env st (length out > 0) e z', Inr out))
           | _ \<Rightarrow> (slot, Inl ErrWrongType)))"

definition ZPop :: "goenv \<Rightarrow> bytes \<Rightarrow> int \<Rightarrow> bool \<Rightarrow> store \<Rightarrow> ZMember list res \<times> store" where
  "ZPop env key cnt fromMin st = write_key key (zPop_body env cnt fromMin st) st"

subsection \<open>Walking the index\<close>

text \<open>The nodes from one on, along level 0.\<close>

definition members_from :: "skipList \<Rightarrow> nat option \<Rightarrow> ZMember list" where
  "members_from sl p = map (node_item sl) (chain_from (length (heap sl)) sl p)"

record ScoreRange =
  rMin :: float64
  rMax :: float64
  MinExcl :: bool
  MaxExcl :: bool

definition aboveMin :: "ScoreRange \<Rightarrow> float64 \<Rightarrow> bool" where
  "aboveMin r s = (if MinExcl r then f64_lt (rMin r) s else f64_le (rMin r) s)"

definition belowMax :: "ScoreRange \<Rightarrow> float64 \<Rightarrow> bool" where
  "belowMax r s = (if MaxExcl r then f64_lt s (rMax r) else f64_le s (rMax r))"

definition firstInScoreRange :: "ScoreRange \<Rightarrow> skipList \<Rightarrow> nat option" where
  "firstInScoreRange r sl =
     (let ur = descend sl (\<lambda>_ c. \<not> aboveMin r (nscore (node sl (the (forward c))))) (sllevel sl) (slhead sl) 0
      in forward (cell sl (fst (ur ! 0)) 0))"

definition score_members :: "ScoreRange \<Rightarrow> skipList \<Rightarrow> ZMember list" where
  "score_members r sl = takeWhile (\<lambda>(m, s). belowMax r s) (members_from sl (firstInScoreRange r sl))"

record LexBound =
  NegInf :: bool
  PosInf :: bool
  Excl :: bool
  bMember :: bytes

record LexRange =
  lMin :: LexBound
  lMax :: LexBound

definition lexAboveMin :: "LexRange \<Rightarrow> bytes \<Rightarrow> bool" where
  "lexAboveMin r m =
     (let b = lMin r
      in if NegInf b then True else if PosInf b then False else if Excl b then bMember b < m else bMember b \<le> m)"

definition lexBelowMax :: "LexRange \<Rightarrow> bytes \<Rightarrow> bool" where
  "lexBelowMax r m =
     (let b = lMax r
      in if PosInf b then True else if NegInf b then False else if Excl b then m < bMember b else m \<le> bMember b)"

definition lexMembers :: "LexRange \<Rightarrow> skipList \<Rightarrow> ZMember list" where
  "lexMembers r sl =
     filter (\<lambda>(m, s). lexAboveMin r m) (takeWhile (\<lambda>(m, s). lexBelowMax r m) (members_from sl (sl_first sl)))"

definition rank_members :: "int \<Rightarrow> int \<Rightarrow> skipList \<Rightarrow> ZMember list" where
  "rank_members start stop sl = take (nat (stop - start + 1)) (members_from sl (nodeByRank start sl))"

text \<open>The \<open>LIMIT\<close> clause.\<close>

definition limit_members :: "int \<Rightarrow> int \<Rightarrow> ZMember list \<Rightarrow> ZMember list" where
  "limit_members offset cnt xs =
     (if offset \<ge> int (length xs) then []
      else let ys = drop (nat offset) xs in if cnt \<ge> 0 \<and> cnt < int (length ys) then take (nat cnt) ys else ys)"

subsection \<open>Range removal\<close>

definition zRemRange_body :: "goenv \<Rightarrow> (zset \<Rightarrow> bytes list) \<Rightarrow> store \<Rightarrow> entry option \<Rightarrow> entry option \<times> int res" where
  "zRemRange_body env sel st slot =
     (case liveSlot (now env) slot of
        None \<Rightarrow> (slot, Inr 0)
      | Some e \<Rightarrow>
          (case val e of
             VZSet z \<Rightarrow>
               (let doomed = sel z; z' = fold (\<lambda>m z. fst (zset_remove m z)) doomed z
                in (store_zset env st (length doomed > 0) e z', Inr (int (length doomed))))
           | _ \<Rightarrow> (slot, Inl ErrWrongType)))"

definition zRemRange :: "goenv \<Rightarrow> bytes \<Rightarrow> (zset \<Rightarrow> bytes list) \<Rightarrow> store \<Rightarrow> int res \<times> store" where
  "zRemRange env key sel st = write_key key (zRemRange_body env sel st) st"

definition doomedByRank :: "int \<Rightarrow> int \<Rightarrow> zset \<Rightarrow> bytes list" where
  "doomedByRank start stop z =
     (case normalizeRange (slen (zsl z)) start stop of
        None \<Rightarrow> []
      | Some (from', to) \<Rightarrow> map fst (rank_members from' to (zsl z)))"

definition ZRemRangeByRank :: "goenv \<Rightarrow> bytes \<Rightarrow> int \<Rightarrow> int \<Rightarrow> store \<Rightarrow> int res \<times> store" where
  "ZRemRangeByRank env key start stop = zRemRange env key (doomedByRank start stop)"

definition ZRemRangeByScore :: "goenv \<Rightarrow> bytes \<Rightarrow> ScoreRange \<Rightarrow> store \<Rightarrow> int res \<times> store" where
  "ZRemRangeByScore env key r = zRemRange env key (\<lambda>z. map fst (score_members r (zsl z)))"

definition ZRemRangeByLex :: "goenv \<Rightarrow> bytes \<Rightarrow> LexRange \<Rightarrow> store \<Rightarrow> int res \<times> store" where
  "ZRemRangeByLex env key r = zRemRange env key (\<lambda>z. map fst (lexMembers r (zsl z)))"

subsection \<open>Reads\<close>

text \<open>A read of a sorted set that does not record the access, and one that does.\<close>

definition zread_body :: "(goenv \<Rightarrow> zset \<Rightarrow> 'r) \<Rightarrow> goenv \<Rightarrow> store \<Rightarrow> entry \<Rightarrow> entry \<times> 'r res" where
  "zread_body f env st e = (e, case val e of VZSet z \<Rightarrow> Inr (f env z) | _ \<Rightarrow> Inl ErrWrongType)"

definition ztouch_body :: "(goenv \<Rightarrow> zset \<Rightarrow> 'r) \<Rightarrow> goenv \<Rightarrow> store \<Rightarrow> entry \<Rightarrow> entry \<times> 'r res" where
  "ztouch_body f env st e = (case val e of VZSet z \<Rightarrow> (touch env st e, Inr (f env z)) | _ \<Rightarrow> (e, Inl ErrWrongType))"

definition ZScore :: "goenv \<Rightarrow> bytes \<Rightarrow> bytes \<Rightarrow> store \<Rightarrow> float64 option res \<times> store" where
  "ZScore env key m st = read_key env key (Inr None) (zread_body (\<lambda>_ z. map_of (zdict z) m) env st) st"

definition ZMScore :: "goenv \<Rightarrow> bytes \<Rightarrow> bytes list \<Rightarrow> store \<Rightarrow> float64 option list res \<times> store" where
  "ZMScore env key ms st =
     read_key env key (Inr (map (\<lambda>m. None) ms)) (zread_body (\<lambda>_ z. map (map_of (zdict z)) ms) env st) st"

definition ZCard :: "goenv \<Rightarrow> bytes \<Rightarrow> store \<Rightarrow> int res \<times> store" where
  "ZCard env key st = read_key env key (Inr 0) (zread_body (\<lambda>_ z. int (length (zdict z))) env st) st"

definition ZRank :: "goenv \<Rightarrow> bytes \<Rightarrow> bytes \<Rightarrow> store \<Rightarrow> int option res \<times> store" where
  "ZRank env key m st =
     read_key env key (Inr None)
       (zread_body (\<lambda>_ z. map_option (\<lambda>s. rank_sl m s (zsl z)) (map_of (zdict z) m)) env st) st"

definition ZRevRank :: "goenv \<Rightarrow> bytes \<Rightarrow> bytes \<Rightarrow> store \<Rightarrow> int option res \<times> store" where
  "ZRevRank env key m st =
     read_key env key (Inr None)
       (zread_body (\<lambda>_ z. map_option (\<lambda>s. slen (zsl z) - 1 - rank_sl m s (zsl z)) (map_of (zdict z) m)) env st) st"

definition zrange :: "int \<Rightarrow> int \<Rightarrow> zset \<Rightarrow> ZMember list" where
  "zrange start stop z =
     (let n = slen (zsl z);
          start = (if start < 0 then start + n else start);
          stop = (if stop < 0 then stop + n else stop);
          start = (if start < 0 then 0 else start);
          stop = (if stop \<ge> n then n - 1 else stop)
      in if start > stop \<or> n = 0 then [] else rank_members start stop (zsl z))"

definition ZRange :: "goenv \<Rightarrow> bytes \<Rightarrow> int \<Rightarrow> int \<Rightarrow> store \<Rightarrow> ZMember list res \<times> store" where
  "ZRange env key start stop st = read_key env key (Inr []) (zread_body (\<lambda>_. zrange start stop) env st) st"

definition zrevrange :: "int \<Rightarrow> int \<Rightarrow> zset \<Rightarrow> ZMember list" where
  "zrevrange start stop z =
     (let n = slen (zsl z)
      in case normalizeRange n start stop of
           None \<Rightarrow> []
         | Some (from', to) \<Rightarrow> rev (rank_members (n - 1 - to) (n - 1 - from') (zsl z)))"

definition ZRevRange :: "goenv \<Rightarrow> bytes \<Rightarrow> int \<Rightarrow> int \<Rightarrow> store \<Rightarrow> ZMember list res \<times> store" where
  "ZRevRange env key start stop st = read_key env key (Inr []) (zread_body (\<lambda>_. zrevrange start stop) env st) st"

definition ZRandMember :: "goenv \<Rightarrow> bytes \<Rightarrow> int \<Rightarrow> store \<Rightarrow> ZMember list res \<times> store" where
  "ZRandMember env key cnt st =
     read_key env key (Inr [])
       (ztouch_body (\<lambda>env z. map (\<lambda>m. (m, the (map_of (zdict z) m))) (pickMembers env (gkeys env (zdict z)) cnt)) env st) st"

text \<open>A negative offset returns before the access is recorded.\<close>

definition ZRangeByScore :: "goenv \<Rightarrow> bytes \<Rightarrow> ScoreRange \<Rightarrow> int \<Rightarrow> int \<Rightarrow> bool \<Rightarrow> store \<Rightarrow> ZMember list res \<times> store" where
  "ZRangeByScore env key r offset cnt rv st =
     read_key env key (Inr [])
       (if offset < 0 then zread_body (\<lambda>_ z. []) env st
        else ztouch_body (\<lambda>_ z. let xs = score_members r (zsl z)
                               in limit_members offset cnt (if rv then rev xs else xs)) env st) st"

definition ZRangeByLex :: "goenv \<Rightarrow> bytes \<Rightarrow> LexRange \<Rightarrow> int \<Rightarrow> int \<Rightarrow> bool \<Rightarrow> store \<Rightarrow> ZMember list res \<times> store" where
  "ZRangeByLex env key r offset cnt rv st =
     read_key env key (Inr [])
       (if offset < 0 then zread_body (\<lambda>_ z. []) env st
        else ztouch_body (\<lambda>_ z. let xs = lexMembers r (zsl z)
                               in limit_members offset cnt (if rv then rev xs else xs)) env st) st"

definition ZRangeByScoreMulti :: "goenv \<Rightarrow> bytes \<Rightarrow> ScoreRange list \<Rightarrow> store \<Rightarrow> ZMember list res \<times> store" where
  "ZRangeByScoreMulti env key rs st =
     read_key env key (Inr []) (ztouch_body (\<lambda>_ z. concat (map (\<lambda>r. score_members r (zsl z)) rs)) env st) st"

definition ZCount :: "goenv \<Rightarrow> bytes \<Rightarrow> ScoreRange \<Rightarrow> store \<Rightarrow> int res \<times> store" where
  "ZCount env key r st = read_key env key (Inr 0) (zread_body (\<lambda>_ z. int (length (score_members r (zsl z)))) env st) st"

definition ZLexCount :: "goenv \<Rightarrow> bytes \<Rightarrow> LexRange \<Rightarrow> store \<Rightarrow> int res \<times> store" where
  "ZLexCount env key r st = read_key env key (Inr 0) (zread_body (\<lambda>_ z. int (length (lexMembers r (zsl z)))) env st) st"

subsection \<open>What the walks read\<close>

definition zlist :: "zset \<Rightarrow> ZMember list" where
  "zlist z = sort_key item_key (zdict z)"

lemma members_from_drop:
  assumes "sl_inv sl ns" "p \<le> length ns"
  shows "members_from sl (if p < length ns then Some (ns ! p) else None) = drop p (sl_items sl)"
proof -
  have c: "chain_ok sl ns" "cells_ok sl ns (sllevel sl)" "0 < sllevel sl"
    using assms(1) by (auto simp: sl_inv_def chain_ok_def)
  show ?thesis
    using chain_from_eq [OF c assms(2), of "length (heap sl)"] chain_fuel [OF c(1)] sl_items_inv [OF assms(1)]
    by (simp add: members_from_def drop_map)
qed

lemma guard_score:
  assumes "order_ok sl ns" "\<And>x y. x < y \<Longrightarrow> Q y \<Longrightarrow> Q x"
    and "\<And>a. a \<in> set ns \<Longrightarrow> P (nscore (node sl a)) \<longleftrightarrow> Q (nkey sl a)"
  shows "guard_ok (\<lambda>_ c. P (nscore (node sl (the (forward c))))) ns (split_pos sl ns Q)"
  unfolding guard_ok_def
proof (intro allI impI)
  fix p q :: nat and c :: slLevel
  assume pq: "p < q" "q \<le> length ns" and f: "forward c = Some (addr ns q)"
  then obtain j where j: "q = Suc j" "j < length ns" by (cases q) auto
  then have "P (nscore (node sl (the (forward c)))) \<longleftrightarrow> Q (nkey sl (ns ! j))" using f by (simp add: assms(3))
  also have "\<dots> \<longleftrightarrow> j < split_pos sl ns Q"
    by (rule split_pos_iff [of sl ns Q, OF assms(1) _ j(2)]) (rule assms(2))
  finally show "P (nscore (node sl (the (forward c)))) = (q \<le> split_pos sl ns Q)" using j by (simp add: Suc_le_eq)
qed

lemma seek_score:
  assumes "sl_inv sl ns" "\<And>x y. x < y \<Longrightarrow> Q y \<Longrightarrow> Q x"
    and "\<And>a. a \<in> set ns \<Longrightarrow> P (nscore (node sl a)) \<longleftrightarrow> Q (nkey sl a)"
  defines "ur \<equiv> descend sl (\<lambda>_ c. P (nscore (node sl (the (forward c))))) (sllevel sl) (slhead sl) 0"
  shows "members_from sl (forward (cell sl (fst (ur ! 0)) 0)) = dropWhile (\<lambda>it. Q (item_key it)) (sl_items sl)"
proof -
  let ?k = "split_pos sl ns Q"
  have c: "chain_ok sl ns" "cells_ok sl ns (sllevel sl)" "0 < sllevel sl" "slhead sl = 0"
    and k: "?k \<le> length ns" using assms(1) by (auto simp: sl_inv_def chain_ok_def split_pos_le)
  have "guard_ok (\<lambda>_ c. P (nscore (node sl (the (forward c))))) ns ?k"
    using assms(1) by (intro guard_score [where Q = Q, OF _ assms(2,3)]) (simp_all add: sl_inv_def)
  then have "length ur = sllevel sl \<and> preds_ok sl ns ?k ur"
    using descend_preds [OF c(1,2) k, of _ "sllevel sl" 0] c(1,4) by (simp add: ur_def chain_ok_def)
  then have "preds_ok sl ns ?k ur" "0 < length ur" using c(3) by simp_all
  then have "ur ! 0 = (addr ns ?k, int ?k)" by (rule preds_zero [OF c(1) _ _ k])
  then have "members_from sl (forward (cell sl (fst (ur ! 0)) 0)) = drop ?k (sl_items sl)"
    using forward0 [OF c(1-3) k] members_from_drop [OF assms(1) k] by simp
  also have "\<dots> = dropWhile (\<lambda>it. Q (item_key it)) (sl_items sl)"
    using split_pos_items(2) [OF assms(1), of Q] by (simp add: sl_items_inv [OF assms(1)] drop_map)
  finally show ?thesis .
qed

lemma takeWhile_filter:
  "sorted_wrt R xs \<Longrightarrow> (\<And>x y. x \<in> set xs \<Longrightarrow> y \<in> set xs \<Longrightarrow> R x y \<Longrightarrow> P y \<Longrightarrow> P x) \<Longrightarrow> takeWhile P xs = filter P xs"
proof (induction xs)
  case (Cons x xs)
  show ?case
  proof (cases "P x")
    case True
    have "takeWhile P xs = filter P xs" 
      using Cons.prems(1) by (intro Cons.IH) (simp, meson Cons.prems(2) list.set_intros(2))
    then show ?thesis using True by simp
  next
    case False
    then have "\<not> P y" if "y \<in> set xs" for y using Cons.prems that by auto
    then have "filter P xs = []" by (simp add: filter_empty_conv)
    then show ?thesis using False by simp
  qed
qed simp

lemma dropWhile_filter:
  "sorted_wrt R xs \<Longrightarrow> (\<And>x y. x \<in> set xs \<Longrightarrow> y \<in> set xs \<Longrightarrow> R x y \<Longrightarrow> P y \<Longrightarrow> P x) \<Longrightarrow>
   dropWhile P xs = filter (\<lambda>x. \<not> P x) xs"
proof (induction xs)
  case (Cons x xs)
  show ?case
  proof (cases "P x")
    case True
    have "dropWhile P xs = filter (\<lambda>x. \<not> P x) xs" 
      using Cons.prems(1) by (intro Cons.IH) (simp, meson Cons.prems(2) list.set_intros(2))
    then show ?thesis using True by simp
  next
    case False
    then have "\<not> P y" if "y \<in> set xs" for y using Cons.prems that by auto
    then have "filter (\<lambda>x. \<not> P x) xs = xs" by (simp add: filter_id_conv)
    then show ?thesis using False by simp
  qed
qed simp

text \<open>The score predicate of a range is monotone on numbers, whatever its bounds.\<close>

lemma bounds_key:
  "\<not> IsNaN s \<Longrightarrow> aboveMin r s \<longleftrightarrow>
     \<not> IsNaN (rMin r) \<and> (if MinExcl r then f64_key (rMin r) < f64_key s else f64_key (rMin r) \<le> f64_key s)"
  "\<not> IsNaN s \<Longrightarrow> belowMax r s \<longleftrightarrow>
     \<not> IsNaN (rMax r) \<and> (if MaxExcl r then f64_key s < f64_key (rMax r) else f64_key s \<le> f64_key (rMax r))"
  by (auto simp: aboveMin_def belowMax_def f64_lt_def f64_le_def)

definition in_score :: "ScoreRange \<Rightarrow> ZMember \<Rightarrow> bool" where
  "in_score r it \<longleftrightarrow> aboveMin r (snd it) \<and> belowMax r (snd it)"

lemma score_members_items:
  assumes "sl_wf sl"
  shows "score_members r sl = filter (in_score r) (sl_items sl)"
proof -
  obtain ns where inv: "sl_inv sl ns" using assms by (auto simp: sl_wf_def)
  let ?Q = "\<lambda>t. \<not> (\<not> IsNaN (rMin r) \<and> (if MinExcl r then f64_key (rMin r) < fst t else f64_key (rMin r) \<le> fst t))"
  have n: "\<not> IsNaN (nscore (node sl a))" if "a \<in> set ns" for a
    using inv that by (simp add: sl_inv_def order_ok_def)
  have q: "?Q x" if "x < y" "?Q y" for x y :: "int \<times> bytes"
    using that by (auto simp: less_prod_def' split: if_splits)
  have s: "sorted_wrt (\<lambda>a b. item_key a < item_key b) (sl_items sl)"
    using sl_items_sorted [OF assms] by (simp add: sorted_wrt_map)
  have nn: "\<not> IsNaN (snd it)" if "it \<in> set (sl_items sl)" for it using sl_items_not_NaN [OF assms that] .
  have "members_from sl (firstInScoreRange r sl) = dropWhile (\<lambda>it. ?Q (item_key it)) (sl_items sl)"
    unfolding firstInScoreRange_def Let_def
    by (rule seek_score [OF inv q]) (use n in \<open>auto simp: bounds_key nkey_def\<close>)
  also have "\<dots> = filter (\<lambda>it. \<not> ?Q (item_key it)) (sl_items sl)"
    by (rule dropWhile_filter [OF s]) (rule q)
  also have "\<dots> = filter (\<lambda>it. aboveMin r (snd it)) (sl_items sl)"
    using nn by (intro filter_cong refl) (auto simp: bounds_key item_key_def split_def)
  finally have m: "members_from sl (firstInScoreRange r sl) = filter (\<lambda>it. aboveMin r (snd it)) (sl_items sl)" .
  have "sorted_wrt (\<lambda>a b. item_key a < item_key b) (filter (\<lambda>it. aboveMin r (snd it)) (sl_items sl))"
    using s by (rule sorted_wrt_filter)
  then have "takeWhile (\<lambda>(m, s). belowMax r s) (filter (\<lambda>it. aboveMin r (snd it)) (sl_items sl)) =
      filter (\<lambda>(m, s). belowMax r s) (filter (\<lambda>it. aboveMin r (snd it)) (sl_items sl))"
    by (rule takeWhile_filter) (use nn in \<open>fastforce simp: bounds_key item_key_def less_prod_def' split: if_splits\<close>)
  then show ?thesis by (simp add: score_members_def m in_score_def [abs_def] split_def conj_commute)
qed

lemma members_from_None [simp]: "members_from sl None = []"
  by (cases "length (heap sl)") (simp_all add: members_from_def)

lemma members_from_first: "members_from sl (sl_first sl) = sl_items sl"
  by (simp add: members_from_def sl_items_def)

lemma nodeByRank_from:
  assumes "sl_wf sl" "0 \<le> r"
  shows "members_from sl (nodeByRank r sl) = drop (nat r) (sl_items sl)"
proof (cases "r < slen sl")
  case True
  obtain ns where inv: "sl_inv sl ns" using assms(1) by (auto simp: sl_wf_def)
  then have c: "chain_ok sl ns" "cells_ok sl ns (sllevel sl)" "0 < sllevel sl" "slhead sl = 0"
    "sllevel sl \<le> hgt sl (addr ns 0)" "slen sl = int (length ns)"
    by (auto simp: sl_inv_def chain_ok_def)
  have r: "nat r < length ns" "Suc (nat r) \<le> length ns" using True c(6) assms(2) by simp_all
  have "nodeByRank r sl = Some (ns ! nat r)"
    using node_by_rank_hit [OF c(1,2) r(2) c(3) order_refl _ c(5)] c(4) assms(2)
    by (simp add: nodeByRank_def add.commute)
  then show ?thesis using members_from_drop [OF inv, of "nat r"] r by simp
next
  case False
  then show ?thesis using nodeByRank_items(3) [OF assms(1), of r] slen_items [OF assms(1)] by simp
qed

lemma rank_members_items:
  "sl_wf sl \<Longrightarrow> 0 \<le> start \<Longrightarrow> rank_members start stop sl = take (nat (stop - start + 1)) (drop (nat start) (sl_items sl))"
  by (simp add: rank_members_def nodeByRank_from)

lemma zrange_items:
  assumes "sl_wf (zsl z)" "slen (zsl z) = n"
  shows "zrange start stop z = slice_of (normalizeRange n start stop) (sl_items (zsl z))"
  using assms by (auto simp: zrange_def normalizeRange_def slice_of_def Let_def rank_members_items max_def)

lemma rev_slice:
  assumes "0 \<le> a" "a \<le> b" "b < int (length xs)"
  shows "rev (take (nat (b - a + 1)) (drop (nat (int (length xs) - 1 - b)) xs)) = take (nat (b - a + 1)) (drop (nat a) (rev xs))"
proof -
  let ?n = "length xs" and ?c = "nat a" and ?l = "nat (b - a + 1)"
  have "nat (int ?n - 1 - b) = ?n - ?c - ?l" "?c + ?l \<le> ?n" using assms by linarith+
  then show ?thesis by (simp add: drop_rev take_rev drop_take)
qed

lemma zrevrange_items:
  assumes "sl_wf (zsl z)" "slen (zsl z) = n"
  shows "zrevrange start stop z = slice_of (normalizeRange n start stop) (rev (sl_items (zsl z)))"
proof (cases "normalizeRange n start stop")
  case None
  then show ?thesis using assms(2) by (simp add: zrevrange_def slice_of_def)
next
  case (Some ab)
  obtain a b where ab: "ab = (a, b)" by (cases ab)
  have n: "n = int (length (sl_items (zsl z)))" using slen_items assms by metis
  have "0 \<le> a \<and> a \<le> b \<and> b < n" using normalizeRange_bounds [OF Some [unfolded ab]] n by simp
  then show ?thesis using Some assms rev_slice [of a b "sl_items (zsl z)"]
    by (simp add: zrevrange_def slice_of_def ab n rank_members_items Let_def)
qed

definition in_lex :: "LexRange \<Rightarrow> ZMember \<Rightarrow> bool" where
  "in_lex r it \<longleftrightarrow> lexAboveMin r (fst it) \<and> lexBelowMax r (fst it)"

text \<open>Members of one score are in the order of their names.\<close>

lemma lexMembers_items:
  assumes "sl_wf sl" "\<And>it it'. it \<in> set (sl_items sl) \<Longrightarrow> it' \<in> set (sl_items sl) \<Longrightarrow> f64_key (snd it) = f64_key (snd it')"
  shows "lexMembers r sl = filter (in_lex r) (sl_items sl)"
proof -
  have s: "sorted_wrt (\<lambda>a b. item_key a < item_key b) (sl_items sl)"
    using sl_items_sorted [OF assms(1)] by (simp add: sorted_wrt_map)
  have "takeWhile (\<lambda>(m, s). lexBelowMax r m) (sl_items sl) = filter (\<lambda>(m, s). lexBelowMax r m) (sl_items sl)"
  proof (rule takeWhile_filter [OF s])
    fix x y assume xy: "x \<in> set (sl_items sl)" "y \<in> set (sl_items sl)" "item_key x < item_key y"
    then have "fst x < fst y" using assms(2) [OF xy(1,2)] by (simp add: item_key_def less_prod_def')
    then show "case y of (m, s) \<Rightarrow> lexBelowMax r m \<Longrightarrow> case x of (m, s) \<Rightarrow> lexBelowMax r m"
      by (auto simp: lexBelowMax_def Let_def split: if_splits)
  qed
  then show ?thesis by (simp add: lexMembers_def members_from_first in_lex_def [abs_def] split_def conj_commute)
qed

subsection \<open>Adding, removing and popping\<close>

lemma zlist_items: "zset_ok z \<Longrightarrow> sl_items (zsl z) = zlist z"
  by (simp add: zlist_def zset_items)

lemma zlist_props:
  assumes "zset_ok z"
  shows "distinct (map fst (zlist z))" "length (zlist z) = length (zdict z)" "map_of (zlist z) = map_of (zdict z)"
    "set (zlist z) = set (zdict z)"
proof -
  have e: "mset (zlist z) = mset (zdict z)" by (simp add: zlist_def)
  then have "mset (map fst (zlist z)) = mset (map fst (zdict z))" by simp
  then show d: "distinct (map fst (zlist z))"
    using assms unfolding zset_ok_def gmap_wf_def by (metis mset_eq_imp_distinct_iff)
  show "length (zlist z) = length (zdict z)" "set (zlist z) = set (zdict z)" by (simp_all add: zlist_def)
  then show "map_of (zlist z) = map_of (zdict z)"
    using d assms by (intro map_of_inject_set [THEN iffD2]) (auto simp: zset_ok_def gmap_wf_def)
qed

lemma zlist_remove: "zlist (fst (zset_remove m z)) = filter (\<lambda>it. fst it \<noteq> m) (zlist z)"
proof (cases "map_of (zdict z) m")
  case None
  then have "filter (\<lambda>it. fst it \<noteq> m) (zlist z) = zlist z"
    by (auto simp: zlist_def map_of_eq_None_iff intro!: filter_True)
  then show ?thesis using None by (simp add: zset_remove_def)
next
  case (Some s)
  have "filter (\<lambda>it. fst it \<noteq> m) (zdict z) = gdel m (zdict z)"
    by (simp add: gdel_def AList.delete_eq split_def eq_commute)
  then show ?thesis using Some by (simp add: zset_remove_def zlist_def filter_sort)
qed

lemma fold_zset_remove:
  "zset_ok z \<Longrightarrow> zset_ok (fold (\<lambda>m z. fst (zset_remove m z)) ms z)"
  "zlist (fold (\<lambda>m z. fst (zset_remove m z)) ms z) = filter (\<lambda>it. fst it \<notin> set ms) (zlist z)"
  by (induction ms arbitrary: z) (auto simp: zset_remove_ok zlist_remove conj_commute intro!: filter_cong)

lemma zrem_loop_eq:
  "zrem_loop ms z n = (fold (\<lambda>m z. fst (zset_remove m z)) ms z, n + int (card (set ms \<inter> dom (map_of (zdict z)))))"
proof (induction ms arbitrary: z n)
  case (Cons m ms)
  obtain z' b where d: "zset_remove m z = (z', b)" by (cases "zset_remove m z")
  have m: "map_of (zdict z') = (map_of (zdict z))(m := None)" "b \<longleftrightarrow> m \<in> dom (map_of (zdict z))"
    using zset_remove_map [of m z] zset_remove_result [of m z] by (simp_all add: d domIff)
  have d': "dom (map_of (zdict z')) = dom (map_of (zdict z)) - {m}" by (simp add: m(1))
  have s: "set (m # ms) = insert m (set ms)" by simp
  show ?case unfolding zrem_loop.simps d s card_insert_Int [OF finite_set] Let_def prod.case Cons d'
    using m(2) by (simp add: d)
qed simp

lemma zset_ends:
  assumes "zset_ok z"
  shows "zlist z = [] \<Longrightarrow> sl_first (zsl z) = None \<and> sltail (zsl z) = None"
    and "zlist z \<noteq> [] \<Longrightarrow> \<exists>a b. sl_first (zsl z) = Some a \<and> node_item (zsl z) a = hd (zlist z) \<and>
      sltail (zsl z) = Some b \<and> node_item (zsl z) b = last (zlist z)"
proof -
  obtain ns where inv: "sl_inv (zsl z) ns" using assms by (auto simp: zset_ok_def sl_wf_def)
  then have c: "chain_ok (zsl z) ns" "cells_ok (zsl z) ns (sllevel (zsl z))" "0 < sllevel (zsl z)" "slhead (zsl z) = 0"
    "ends_ok (zsl z) ns" by (auto simp: sl_inv_def chain_ok_def)
  have "sl_first (zsl z) = (if ns = [] then None else Some (ns ! 0))"
    using forward0 [OF c(1-3), of 0] c(4) by (simp add: sl_first_def)
  moreover have "zlist z = map (node_item (zsl z)) ns" using sl_items_inv [OF inv] zlist_items [OF assms] by simp
  ultimately show "zlist z = [] \<Longrightarrow> sl_first (zsl z) = None \<and> sltail (zsl z) = None"
    and "zlist z \<noteq> [] \<Longrightarrow> \<exists>a b. sl_first (zsl z) = Some a \<and> node_item (zsl z) a = hd (zlist z) \<and>
      sltail (zsl z) = Some b \<and> node_item (zsl z) b = last (zlist z)"
    using c(5) by (auto simp: ends_ok_def last_map hd_map hd_conv_nth)
qed

lemma filter_hd: "distinct (map fst xs) \<Longrightarrow> xs \<noteq> [] \<Longrightarrow> filter (\<lambda>it. fst it \<noteq> fst (hd xs)) xs = tl xs"
  by (cases xs) (auto intro!: filter_True simp: image_iff)

lemma filter_last:
  assumes "distinct (map fst xs)" "xs \<noteq> []"
  shows "filter (\<lambda>it. fst it \<noteq> fst (last xs)) xs = butlast xs"
proof -
  have "filter (\<lambda>it. fst it \<noteq> fst (hd (rev xs))) (rev xs) = tl (rev xs)"
    using assms by (intro filter_hd) (simp_all flip: rev_map)
  then have "rev (filter (\<lambda>it. fst it \<noteq> fst (last xs)) xs) = rev (butlast xs)"
    using assms(2) by (simp add: hd_rev rev_filter butlast_rev [of "rev xs", simplified])
  then show ?thesis by simp
qed

lemma zpop_loop_min:
  "zset_ok z \<Longrightarrow> \<exists>z'. zpop_loop n True z = (z', take n (zlist z)) \<and> zset_ok z' \<and> zlist z' = drop n (zlist z)"
proof (induction n arbitrary: z)
  case (Suc n)
  show ?case
  proof (cases "zlist z = []")
    case True
    then show ?thesis using zset_ends(1) [OF Suc.prems] Suc.prems by simp
  next
    case False
    then obtain a where a: "sl_first (zsl z) = Some a" "node_item (zsl z) a = hd (zlist z)"
      using zset_ends(2) [OF Suc.prems] by blast
    let ?z = "fst (zset_remove (fst (hd (zlist z))) z)"
    have l: "zlist ?z = tl (zlist z)"
      using zlist_remove filter_hd [OF zlist_props(1) [OF Suc.prems] False] by simp
    obtain z' where "zpop_loop n True ?z = (z', take n (tl (zlist z)))" "zset_ok z'" "zlist z' = drop n (tl (zlist z))"
      using Suc.IH [OF zset_remove_ok [OF Suc.prems]] l by metis
    then show ?thesis using a False by (cases "zlist z") (simp_all add: Let_def)
  qed
qed simp

lemma zpop_loop_max:
  "zset_ok z \<Longrightarrow> \<exists>z'. zpop_loop n False z = (z', take n (rev (zlist z))) \<and> zset_ok z' \<and>
     zlist z' = take (length (zlist z) - n) (zlist z)"
proof (induction n arbitrary: z)
  case (Suc n)
  show ?case
  proof (cases "zlist z = []")
    case True
    then show ?thesis using zset_ends(1) [OF Suc.prems] Suc.prems by simp
  next
    case False
    then obtain a where a: "sltail (zsl z) = Some a" "node_item (zsl z) a = last (zlist z)"
      using zset_ends(2) [OF Suc.prems] by blast
    let ?z = "fst (zset_remove (fst (last (zlist z))) z)"
    have l: "zlist ?z = butlast (zlist z)"
      using zlist_remove filter_last [OF zlist_props(1) [OF Suc.prems] False] by simp
    obtain z' where "zpop_loop n False ?z = (z', take n (rev (butlast (zlist z))))" "zset_ok z'"
      "zlist z' = take (length (butlast (zlist z)) - n) (butlast (zlist z))"
      using Suc.IH [OF zset_remove_ok [OF Suc.prems]] l by metis
    then show ?thesis using a False by (cases "zlist z" rule: rev_cases) (simp_all add: Let_def)
  qed
qed simp

subsection \<open>Well-formedness\<close>

definition numbers :: "ZMember list \<Rightarrow> bool" where
  "numbers ms \<longleftrightarrow> (\<forall>it \<in> set ms. \<not> IsNaN (snd it))"

lemma zset_entry_ok: "val e = VZSet z \<Longrightarrow> entry_ok e \<longleftrightarrow> zset_ok z"
  by (simp add: entry_ok_def)

lemma store_zset_ok [simp]: "zset_ok z \<Longrightarrow> slot_ok (store_zset env st acc e z)"
  by (simp add: store_zset_def Let_def zset_entry_ok)

lemma zadd_loop_ok: "numbers ms \<Longrightarrow> zset_ok z \<Longrightarrow> zset_ok (fst (zadd_loop opts ms z n c))"
proof (induction opts ms z n c rule: zadd_loop.induct)
  case (2 opts m s ms z n c)
  obtain z' a b where d: "zset_add m s z = (z', a, b)" by (cases "zset_add m s z")
  have "zset_ok z'" using zset_add_ok [of z s m] 2(3,4) by (simp add: d numbers_def)
  then show ?case using 2 by (auto simp: Let_def d numbers_def)
qed simp

lemma zset_bodies_ok:
  assumes "slot_ok slot"
  shows "numbers ms \<Longrightarrow> slot_ok (fst (zAddMulti_body env opts ms st slot))"
    "slot_ok (fst (zIncrBy_body env m delta opts st slot))" "slot_ok (fst (zRem_body env m st slot))"
    "slot_ok (fst (zRemMulti_body env keys st slot))" "slot_ok (fst (zPop_body env cnt fromMin st slot))"
    "slot_ok (fst (zRemRange_body env sel st slot))"
proof -
  have z: "zset_ok z" if "liveSlot (now env) slot = Some e" "val e = VZSet z" for e z
    using liveSlot_SomeD [OF that(1)] assms that(2) by (simp add: zset_entry_ok)
  have p: "zset_ok (fst (zpop_loop n b z))" if "zset_ok z" for n b z
    using zpop_loop_min [OF that, of n] zpop_loop_max [OF that, of n] by (cases b) auto
  show "numbers ms \<Longrightarrow> slot_ok (fst (zAddMulti_body env opts ms st slot))"
    using assms by (auto simp: zAddMulti_body_def Let_def split_def zadd_loop_ok dest: z split: option.split val.split)
  show "slot_ok (fst (zIncrBy_body env m delta opts st slot))"
    using assms by (auto simp: zIncrBy_body_def Let_def zset_entry_ok zset_add_ok zset_add_nonempty dest: z
        split: option.split val.split)
  show "slot_ok (fst (zRem_body env m st slot))" "slot_ok (fst (zRemMulti_body env keys st slot))"
    "slot_ok (fst (zPop_body env cnt fromMin st slot))" "slot_ok (fst (zRemRange_body env sel st slot))"
    using assms by (auto simp: zRem_body_def zRemMulti_body_def zPop_body_def zRemRange_body_def Let_def split_def
        zrem_loop_eq fold_zset_remove zset_remove_ok p dest: z split: option.split val.split)
qed

interpretation zadd: key_writer_if "ZAddMulti env key opts ms" key "zAddMulti_body env opts ms" "numbers ms" for env key opts ms
  by unfold_locales (simp_all add: ZAddMulti_def zset_bodies_ok)

interpretation zincr: key_writer "ZIncrBy env key m delta opts" key "zIncrBy_body env m delta opts" for env key m delta opts
  by unfold_locales (simp_all add: ZIncrBy_def zset_bodies_ok)

interpretation zrem: key_writer "ZRem env key m" key "zRem_body env m" for env key m
  by unfold_locales (simp_all add: ZRem_def zset_bodies_ok)

interpretation zremm: key_writer "ZRemMulti env key ms" key "zRemMulti_body env ms" for env key ms
  by unfold_locales (simp_all add: ZRemMulti_def zset_bodies_ok)

interpretation zpop: key_writer "ZPop env key n b" key "zPop_body env n b" for env key n b
  by unfold_locales (simp_all add: ZPop_def zset_bodies_ok)

interpretation zremr: key_writer "zRemRange env key sel" key "zRemRange_body env sel" for env key sel
  by unfold_locales (simp_all add: zRemRange_def zset_bodies_ok)

lemma ZAdd_state: "snd (ZAdd env key m s st) = snd (ZAddMulti env key noZAddOptions [(m, s)] st)"
  by (simp add: ZAdd_def split_def Let_def)

subsection \<open>Reads keep the values\<close>

lemma zread_same [simp]: "same_value e (fst (zread_body f env st e))"
  by (simp add: zread_body_def)

lemma ztouch_same [simp]: "same_value e (fst (ztouch_body f env st e))"
  by (simp add: ztouch_body_def split: val.split)

interpretation zscore: key_reader "\<lambda>env. ZScore env key m" key "Inr None" "zread_body (\<lambda>_ z. map_of (zdict z) m)" for key m
  by unfold_locales (simp_all add: ZScore_def)

interpretation zmscore: key_reader "\<lambda>env. ZMScore env key ms" key "Inr (map (\<lambda>m. None) ms)"
  "zread_body (\<lambda>_ z. map (map_of (zdict z)) ms)" for key ms
  by unfold_locales (simp_all add: ZMScore_def)

interpretation zcard: key_reader "\<lambda>env. ZCard env key" key "Inr 0" "zread_body (\<lambda>_ z. int (length (zdict z)))" for key
  by unfold_locales (simp_all add: ZCard_def)

interpretation zrank: key_reader "\<lambda>env. ZRank env key m" key "Inr None"
  "zread_body (\<lambda>_ z. map_option (\<lambda>s. rank_sl m s (zsl z)) (map_of (zdict z) m))" for key m
  by unfold_locales (simp_all add: ZRank_def)

interpretation zrevrank: key_reader "\<lambda>env. ZRevRank env key m" key "Inr None"
  "zread_body (\<lambda>_ z. map_option (\<lambda>s. slen (zsl z) - 1 - rank_sl m s (zsl z)) (map_of (zdict z) m))" for key m
  by unfold_locales (simp_all add: ZRevRank_def)

interpretation zrng: key_reader "\<lambda>env. ZRange env key a b" key "Inr []" "zread_body (\<lambda>_. zrange a b)" for key a b
  by unfold_locales (simp_all add: ZRange_def)

interpretation zrevrng: key_reader "\<lambda>env. ZRevRange env key a b" key "Inr []" "zread_body (\<lambda>_. zrevrange a b)" for key a b
  by unfold_locales (simp_all add: ZRevRange_def)

interpretation zrand: key_reader "\<lambda>env. ZRandMember env key n" key "Inr []"
  "ztouch_body (\<lambda>env z. map (\<lambda>m. (m, the (map_of (zdict z) m))) (pickMembers env (gkeys env (zdict z)) n))" for key n
  by unfold_locales (simp_all add: ZRandMember_def)

interpretation zscorerng: key_reader "\<lambda>env. ZRangeByScore env key r off n rv" key "Inr []"
  "if off < 0 then zread_body (\<lambda>_ z. [])
   else ztouch_body (\<lambda>_ z. let xs = score_members r (zsl z) in limit_members off n (if rv then rev xs else xs))"
  for key r off n rv
  by unfold_locales (simp_all add: ZRangeByScore_def)

interpretation zlexrng: key_reader "\<lambda>env. ZRangeByLex env key r off n rv" key "Inr []"
  "if off < 0 then zread_body (\<lambda>_ z. [])
   else ztouch_body (\<lambda>_ z. let xs = lexMembers r (zsl z) in limit_members off n (if rv then rev xs else xs))"
  for key r off n rv
  by unfold_locales (simp_all add: ZRangeByLex_def)

interpretation zmulti: key_reader "\<lambda>env. ZRangeByScoreMulti env key rs" key "Inr []"
  "ztouch_body (\<lambda>_ z. concat (map (\<lambda>r. score_members r (zsl z)) rs))" for key rs
  by unfold_locales (simp_all add: ZRangeByScoreMulti_def)

interpretation zcount: key_reader "\<lambda>env. ZCount env key r" key "Inr 0"
  "zread_body (\<lambda>_ z. int (length (score_members r (zsl z))))" for key r
  by unfold_locales (simp_all add: ZCount_def)

interpretation zlexcount: key_reader "\<lambda>env. ZLexCount env key r" key "Inr 0"
  "zread_body (\<lambda>_ z. int (length (lexMembers r (zsl z))))" for key r
  by unfold_locales (simp_all add: ZLexCount_def)

subsection \<open>The sorted sets of a store\<close>

text \<open>The members of a key in the order of the index; a missing key reads as the empty set.\<close>

definition zset_of :: "int \<Rightarrow> entry option \<Rightarrow> ZMember list option" where
  "zset_of t slot =
     (case liveSlot t slot of
        None \<Rightarrow> Some []
      | Some e \<Rightarrow> (case val e of VZSet z \<Rightarrow> Some (zlist z) | _ \<Rightarrow> None))"

abbreviation zset_view :: "store \<Rightarrow> bytes \<Rightarrow> int \<Rightarrow> ZMember list option" where
  "zset_view st key t \<equiv> zset_of t (get_slot st key)"

lemma zset_of_simps [simp]:
  "liveSlot t slot = None \<Longrightarrow> zset_of t slot = Some []"
  "\<not> expired t e \<Longrightarrow> val e = VZSet z \<Longrightarrow> zset_of t (Some e) = Some (zlist z)"
  "\<not> expired t e \<Longrightarrow> zset_of t (store_zset env st acc e z) = Some (zlist z)"
  by (simp_all add: zset_of_def store_zset_def Let_def zlist_def expired_def)

lemma zset_of_cases:
  assumes "store_inv st" "zset_view st key t = Some xs"
  obtains (none) "liveSlot t (get_slot st key) = None" "xs = []"
  | (live) e z where "get_slot st key = Some e" "\<not> expired t e" "val e = VZSet z" "zset_ok z" "xs = zlist z"
proof (cases "liveSlot t (get_slot st key)")
  case None
  then show ?thesis using assms(2) none by (simp add: zset_of_def)
next
  case (Some e)
  then obtain z where "val e = VZSet z" "xs = zlist z"
    using assms(2) by (auto simp: zset_of_def split: val.splits)
  moreover have "zset_ok z" using store_invD(3) [OF assms(1), of key] liveSlot_SomeD [OF Some] \<open>val e = VZSet z\<close>
    by (simp add: zset_entry_ok)
  ultimately show ?thesis using live liveSlot_SomeD [OF Some] by blast
qed

text \<open>The order of a view is that of score and name, and its members are distinct.\<close>

lemma zset_view_sorted:
  assumes "store_inv st" "zset_view st key t = Some xs"
  shows "sorted_wrt (<) (map item_key xs)" "distinct (map fst xs)" "numbers xs"
proof -
  from assms have "sorted_wrt (<) (map item_key xs) \<and> distinct (map fst xs) \<and> numbers xs"
  proof (cases rule: zset_of_cases)
    case (live e z)
    have w: "sl_wf (zsl z)" "xs = sl_items (zsl z)" using live(4,5) zlist_items [OF live(4)] by (simp_all add: zset_ok_def)
    show ?thesis
      using sl_items_sorted [OF w(1)] sl_items_not_NaN [OF w(1)] zlist_props(1) [OF live(4)] live(5) w(2)
      by (simp add: numbers_def)
  qed (simp add: numbers_def)
  then show "sorted_wrt (<) (map item_key xs)" "distinct (map fst xs)" "numbers xs" by simp_all
qed

text \<open>One pair of \<open>ZADD\<close> on the score map.\<close>

definition zadd_step :: "ZAddOptions \<Rightarrow> ZMember \<Rightarrow> (bytes \<rightharpoonup> float64) \<Rightarrow> (bytes \<rightharpoonup> float64)" where
  "zadd_step opts it M =
     (let cur = M (fst it)
      in if allows opts (cur \<noteq> None) \<and> gateScore opts (snd it) cur \<and> (\<forall>c. cur = Some c \<longrightarrow> \<not> f64_eq c (snd it))
         then M(fst it \<mapsto> snd it) else M)"

lemma zadd_step_dom: "dom M \<subseteq> dom (zadd_step opts it M)"
  by (auto simp: zadd_step_def Let_def)

lemma fold_zadd_dom: "dom M \<subseteq> dom (fold (zadd_step opts) ms M)"
proof (induction ms arbitrary: M)
  case (Cons it ms)
  then show ?case using zadd_step_dom [of M opts it] by (metis fold_simps(2) order_trans)
qed simp

lemma zadd_loop_step:
  obtains z' n' c' where "zadd_loop opts ((m, s) # ms) z n c = zadd_loop opts ms z' n' c'"
    "map_of (zdict z') = zadd_step opts (m, s) (map_of (zdict z))"
    "n' = n + int (card (dom (zadd_step opts (m, s) (map_of (zdict z))) - dom (map_of (zdict z))))"
proof (cases "allows opts (map_of (zdict z) m \<noteq> None) \<and> gateScore opts s (map_of (zdict z) m)")
  case True
  obtain z' a b where d: "zset_add m s z = (z', a, b)" by (cases "zset_add m s z")
  have m: "map_of (zdict z') = zadd_step opts (m, s) (map_of (zdict z))"
    using True zset_add_map [of m s z] by (auto simp: d zadd_step_def Let_def)
  have a: "a \<longleftrightarrow> m \<notin> dom (map_of (zdict z))" using zset_add_result [of m s z] by (simp add: d domIff)
  then have "dom (zadd_step opts (m, s) (map_of (zdict z))) - dom (map_of (zdict z)) = (if a then {m} else {})"
    using True by (auto simp: zadd_step_def Let_def domIff)
  then have "(if a then n + 1 else n) = n + int (card (dom (zadd_step opts (m, s) (map_of (zdict z))) - dom (map_of (zdict z))))"
    by simp
  moreover have "zadd_loop opts ((m, s) # ms) z n c = zadd_loop opts ms z' (if a then n + 1 else n) (if b then c + 1 else c)"
    using True d by simp
  ultimately show ?thesis using that [OF _ m] by blast
next
  case False
  then have "zadd_step opts (m, s) (map_of (zdict z)) = map_of (zdict z)" by (auto simp: zadd_step_def Let_def)
  then show ?thesis using that [of z n c] False by simp
qed

lemma card_Diff_chain:
  assumes "finite C" "A \<subseteq> B" "B \<subseteq> C"
  shows "card (C - A) = card (B - A) + card (C - B)"
proof -
  have "C - A = (B - A) \<union> (C - B)" using assms by auto
  moreover have "(B - A) \<inter> (C - B) = {}" by blast
  ultimately show ?thesis using assms by (metis card_Un_disjoint finite_Diff finite_subset)
qed

lemma zadd_loop_map:
  "map_of (zdict (fst (zadd_loop opts ms z n c))) = fold (zadd_step opts) ms (map_of (zdict z)) \<and>
   fst (snd (zadd_loop opts ms z n c)) = n + int (card (dom (fold (zadd_step opts) ms (map_of (zdict z))) - dom (map_of (zdict z))))"
proof (induction ms arbitrary: z n c)
  case (Cons it ms)
  obtain m s where it: "it = (m, s)" by (cases it)
  obtain z' n' c' where S: "zadd_loop opts ((m, s) # ms) z n c = zadd_loop opts ms z' n' c'"
    "map_of (zdict z') = zadd_step opts (m, s) (map_of (zdict z))"
    "n' = n + int (card (dom (zadd_step opts (m, s) (map_of (zdict z))) - dom (map_of (zdict z))))"
    by (rule zadd_loop_step)
  let ?M' = "zadd_step opts (m, s) (map_of (zdict z))"
  have I: "map_of (zdict (fst (zadd_loop opts ms z' n' c'))) = fold (zadd_step opts) ms ?M'"
    "fst (snd (zadd_loop opts ms z' n' c')) = n' + int (card (dom (fold (zadd_step opts) ms ?M') - dom ?M'))"
    using Cons.IH [of z' n' c'] unfolding S(2) by blast+
  have "finite (dom (fold (zadd_step opts) ms ?M'))" unfolding I(1) [symmetric] by (rule finite_dom_map_of)
  then have "card (dom (fold (zadd_step opts) ms ?M') - dom (map_of (zdict z))) =
      card (dom ?M' - dom (map_of (zdict z))) + card (dom (fold (zadd_step opts) ms ?M') - dom ?M')"
    by (rule card_Diff_chain [OF _ zadd_step_dom fold_zadd_dom])
  then show ?case unfolding it S(1) using I S(3) by simp
qed simp

lemma zadd_XX_empty: "zXX opts \<Longrightarrow> fold (zadd_step opts) ms Map.empty = Map.empty"
  by (induction ms) (simp_all add: zadd_step_def allows_def)

lemma zadd_loop_view:
  assumes "zset_ok z" "numbers ms"
  obtains z' c where "zadd_loop opts ms z 0 0 =
      (z', int (card (dom (fold (zadd_step opts) ms (map_of (zlist z))) - dom (map_of (zlist z)))), c)"
    "map_of (zlist z') = fold (zadd_step opts) ms (map_of (zlist z))"
proof -
  obtain z' n c where l: "zadd_loop opts ms z 0 0 = (z', n, c)" by (cases "zadd_loop opts ms z 0 0")
  have "zset_ok z'" using zadd_loop_ok [OF assms(2,1), of opts 0 0] by (simp add: l)
  then show ?thesis using that [of z' c] zadd_loop_map [of opts ms z 0 0] l zlist_props(3) assms(1) by simp
qed

lemma ZAddMulti_view:
  fixes opts :: ZAddOptions
  assumes "store_inv st" "zset_view st key (now env) = Some xs" "numbers ms"
  defines "M \<equiv> map_of xs" and "M' \<equiv> fold (zadd_step opts) ms (map_of xs)"
  shows "\<exists>ys changed. zset_view (snd (ZAddMulti env key opts ms st)) key (now env) = Some ys \<and> map_of ys = M' \<and>
    fst (ZAddMulti env key opts ms st) = Inr (int (card (dom M' - dom M)), changed)"
proof -
  note w = store_invD(1) [OF assms(1)]
  note R = zadd.result [OF w, of env key opts ms] zadd.slot [OF w, of env key opts ms]
  from assms(1,2) show ?thesis
  proof (cases rule: zset_of_cases)
    case none
    show ?thesis
    proof (cases "zXX opts")
      case True
      then show ?thesis using none R by (simp add: zAddMulti_body_def M'_def M_def zadd_XX_empty)
    next
      case False
      let ?z = "newZSet (coins env)"
      have e: "zlist ?z = []" by (simp add: zlist_def)
      obtain z' c where a: "zadd_loop opts ms ?z 0 0 =
          (z', int (card (dom (fold (zadd_step opts) ms (map_of (zlist ?z))) - dom (map_of (zlist ?z)))), c)"
        "map_of (zlist z') = fold (zadd_step opts) ms (map_of (zlist ?z))"
        by (rule zadd_loop_view [OF newZSet_ok(1) assms(3)])
      have m: "M = map_of (zlist ?z)" "M' = fold (zadd_step opts) ms (map_of (zlist ?z))"
        unfolding M_def M'_def e none(2) by (rule refl)+
      show ?thesis unfolding m R using none(1) False a by (simp add: zAddMulti_body_def Let_def expired_def)
    qed
  next
    case (live e z)
      obtain z' c where a: "zadd_loop opts ms z 0 0 =
          (z', int (card (dom (fold (zadd_step opts) ms (map_of (zlist z))) - dom (map_of (zlist z)))), c)"
        "map_of (zlist z') = fold (zadd_step opts) ms (map_of (zlist z))"
        by (rule zadd_loop_view [OF live(4) assms(3)])
    have m: "M = map_of (zlist z)" "M' = fold (zadd_step opts) ms (map_of (zlist z))"
      unfolding M_def M'_def live(5) by (rule refl)+
    show ?thesis unfolding m R using live(1-3) a by (simp add: zAddMulti_body_def Let_def)
  qed
qed

lemma ZIncrBy_view:
  fixes m :: bytes and delta :: float64
  assumes "store_inv st" "zset_view st key (now env) = Some xs"
  defines "score \<equiv> f64_add (case map_of xs m of None \<Rightarrow> f64_zero | Some c \<Rightarrow> c) delta"
  assumes "\<not> IsNaN score" "allows opts (map_of xs m \<noteq> None)" "gateScore opts score (map_of xs m)"
  shows "fst (ZIncrBy env key m delta opts st) = Inr (Some score)"
    and "\<exists>ys s. zset_view (snd (ZIncrBy env key m delta opts st)) key (now env) = Some ys \<and>
      map_of ys = (map_of xs)(m \<mapsto> s) \<and> f64_eq s score"
proof -
  note w = store_invD(1) [OF assms(1)]
  have add: "\<exists>s. map_of (zlist (fst (zset_add m score z))) = (map_of (zlist z))(m \<mapsto> s) \<and> f64_eq s score"
    if "zset_ok z" for z
  proof -
    have "map_of (zlist (fst (zset_add m score z))) = map_of (zdict (fst (zset_add m score z)))"
      by (rule zlist_props(3)) (rule zset_add_ok [OF that assms(4)])
    then show ?thesis using zset_add_map [of m score z] zlist_props(3) [OF that] assms(4)
      by (auto simp: f64_eq_refl split: if_splits) (metis map_upd_triv)
  qed
  have "fst (ZIncrBy env key m delta opts st) = Inr (Some score) \<and>
      (\<exists>ys s. zset_view (snd (ZIncrBy env key m delta opts st)) key (now env) = Some ys \<and>
      map_of ys = (map_of xs)(m \<mapsto> s) \<and> f64_eq s score)"
    using assms(1,2)
  proof (cases rule: zset_of_cases)
    case none
    let ?z = "newZSet (coins env)"
    have "zlist ?z = []" by (simp add: zlist_def)
    then show ?thesis using none assms(4-6) add [OF newZSet_ok(1), of "coins env"]
      by (simp add: zincr.result [OF w] zincr.slot [OF w] zIncrBy_body_def Let_def score_def expired_def)
  next
    case (live e z)
    then show ?thesis using assms(4-6) add [OF live(4)] zlist_props(3) [OF live(4)]
      by (simp add: zincr.result [OF w] zincr.slot [OF w] zIncrBy_body_def Let_def score_def)
  qed
  then show "fst (ZIncrBy env key m delta opts st) = Inr (Some score)"
    "\<exists>ys s. zset_view (snd (ZIncrBy env key m delta opts st)) key (now env) = Some ys \<and>
      map_of ys = (map_of xs)(m \<mapsto> s) \<and> f64_eq s score" by blast+
qed

text \<open>Removals by name, by rank, by score and by name range, and pops, on the ordered view.\<close>

lemma ZRem_view:
  assumes "store_inv st" "zset_view st key (now env) = Some xs"
  shows "fst (ZRemMulti env key ms st) = Inr (int (card (set ms \<inter> fst ` set xs)))"
    and "zset_view (snd (ZRemMulti env key ms st)) key (now env) = Some (filter (\<lambda>it. fst it \<notin> set ms) xs)"
    and "fst (ZRem env key m st) = Inr (m \<in> fst ` set xs)"
    and "zset_view (snd (ZRem env key m st)) key (now env) = Some (filter (\<lambda>it. fst it \<noteq> m) xs)"
proof -
  note w = store_invD(1) [OF assms(1)]
  note R = zremm.result [OF w, of env key ms] zremm.slot [OF w, of env key ms]
    zrem.result [OF w, of env key m] zrem.slot [OF w, of env key m]
  from assms have "fst (ZRemMulti env key ms st) = Inr (int (card (set ms \<inter> fst ` set xs))) \<and>
    zset_view (snd (ZRemMulti env key ms st)) key (now env) = Some (filter (\<lambda>it. fst it \<notin> set ms) xs) \<and>
    fst (ZRem env key m st) = Inr (m \<in> fst ` set xs) \<and>
    zset_view (snd (ZRem env key m st)) key (now env) = Some (filter (\<lambda>it. fst it \<noteq> m) xs)"
  proof (cases rule: zset_of_cases)
    case none
    then show ?thesis using R by (simp add: zRemMulti_body_def zRem_body_def)
  next
    case (live e z)
    have d: "dom (map_of (zdict z)) = fst ` set xs" "(m \<in> fst ` set xs) = (map_of (zdict z) m \<noteq> None)"
      using live(5) zlist_props(4) [OF live(4)] by (simp_all add: dom_map_of_conv_image_fst map_of_eq_None_iff)
    show ?thesis using live R d zset_remove_result [of m z]
      by (simp add: zRemMulti_body_def zRem_body_def zrem_loop_eq fold_zset_remove(2) split_def zlist_remove)
  qed
  then show "fst (ZRemMulti env key ms st) = Inr (int (card (set ms \<inter> fst ` set xs)))"
    "zset_view (snd (ZRemMulti env key ms st)) key (now env) = Some (filter (\<lambda>it. fst it \<notin> set ms) xs)"
    "fst (ZRem env key m st) = Inr (m \<in> fst ` set xs)"
    "zset_view (snd (ZRem env key m st)) key (now env) = Some (filter (\<lambda>it. fst it \<noteq> m) xs)"
    by simp_all
qed

lemma ZPop_view:
  assumes "store_inv st" "zset_view st key (now env) = Some xs"
  shows "fst (ZPop env key n fromMin st) = Inr (take (nat n) (if fromMin then xs else rev xs))"
    and "zset_view (snd (ZPop env key n fromMin st)) key (now env) =
      Some (if fromMin then drop (nat n) xs else take (length xs - nat n) xs)"
proof -
  note w = store_invD(1) [OF assms(1)]
  note R = zpop.result [OF w, of env key n fromMin] zpop.slot [OF w, of env key n fromMin]
  from assms have "fst (ZPop env key n fromMin st) = Inr (take (nat n) (if fromMin then xs else rev xs)) \<and>
    zset_view (snd (ZPop env key n fromMin st)) key (now env) =
      Some (if fromMin then drop (nat n) xs else take (length xs - nat n) xs)"
  proof (cases rule: zset_of_cases)
    case none
    then show ?thesis using R by (simp add: zPop_body_def)
  next
    case (live e z)
    show ?thesis using live R zpop_loop_min [OF live(4), of "nat n"] zpop_loop_max [OF live(4), of "nat n"]
      by (cases fromMin) (auto simp: zPop_body_def)
  qed
  then show "fst (ZPop env key n fromMin st) = Inr (take (nat n) (if fromMin then xs else rev xs))"
    "zset_view (snd (ZPop env key n fromMin st)) key (now env) =
      Some (if fromMin then drop (nat n) xs else take (length xs - nat n) xs)" by simp_all
qed

lemma zRemRange_view:
  assumes "store_inv st" "zset_view st key (now env) = Some xs"
    and "\<And>z. zset_ok z \<Longrightarrow> zlist z = xs \<Longrightarrow> sel z = map fst ys" "xs = [] \<Longrightarrow> ys = []"
  shows "fst (zRemRange env key sel st) = Inr (int (length ys))"
    and "zset_view (snd (zRemRange env key sel st)) key (now env) = Some (filter (\<lambda>it. fst it \<notin> fst ` set ys) xs)"
proof -
  note w = store_invD(1) [OF assms(1)]
  note R = zremr.result [OF w, of env key sel] zremr.slot [OF w, of env key sel]
  from assms(1,2) have "fst (zRemRange env key sel st) = Inr (int (length ys)) \<and>
    zset_view (snd (zRemRange env key sel st)) key (now env) = Some (filter (\<lambda>it. fst it \<notin> fst ` set ys) xs)"
  proof (cases rule: zset_of_cases)
    case none
    then show ?thesis using R assms(4) by (simp add: zRemRange_body_def)
  next
    case (live e z)
    then show ?thesis using R assms(3) [OF live(4)] by (simp add: zRemRange_body_def fold_zset_remove(2))
  qed
  then show "fst (zRemRange env key sel st) = Inr (int (length ys))"
    "zset_view (snd (zRemRange env key sel st)) key (now env) = Some (filter (\<lambda>it. fst it \<notin> fst ` set ys) xs)" by simp_all
qed

lemma filter_out:
  assumes "distinct (map fst xs)"
  shows "filter (\<lambda>it. fst it \<notin> fst ` set (filter P xs)) xs = filter (\<lambda>it. \<not> P it) xs"
proof (rule filter_cong [OF refl])
  fix x assume x: "x \<in> set xs"
  have "fst x \<in> fst ` set (filter P xs) \<longleftrightarrow> P x"
  proof
    assume "fst x \<in> fst ` set (filter P xs)"
    then obtain y where y: "fst x = fst y" "y \<in> set xs" "P y" by (auto simp only: set_filter image_iff mem_Collect_eq)
    have "x = y" using assms y(1) x y(2) unfolding distinct_map by (blast intro: inj_onD)
    with y(3) show "P x" by simp
  qed (use x in simp)
  then show "fst x \<notin> fst ` set (filter P xs) \<longleftrightarrow> \<not> P x" by simp
qed

lemma ZRemRangeByScore_view:
  assumes "store_inv st" "zset_view st key (now env) = Some xs"
  shows "fst (ZRemRangeByScore env key r st) = Inr (int (length (filter (in_score r) xs)))"
    and "zset_view (snd (ZRemRangeByScore env key r st)) key (now env) = Some (filter (\<lambda>it. \<not> in_score r it) xs)"
proof -
  let ?sel = "\<lambda>z. map fst (score_members r (zsl z))"
  have s: "?sel z = map fst (filter (in_score r) xs)" if "zset_ok z" "zlist z = xs" for z
    using score_members_items [of "zsl z" r] zlist_items [OF that(1)] that by (simp add: zset_ok_def)
  note v = zRemRange_view [where sel = ?sel, OF assms s]
  show "fst (ZRemRangeByScore env key r st) = Inr (int (length (filter (in_score r) xs)))"
    "zset_view (snd (ZRemRangeByScore env key r st)) key (now env) = Some (filter (\<lambda>it. \<not> in_score r it) xs)"
    using v filter_out [OF zset_view_sorted(2) [OF assms], of "in_score r"] by (simp_all add: ZRemRangeByScore_def)
qed

lemma distinct_slice_out:
  assumes "distinct (map fst xs)"
  shows "filter (\<lambda>it. fst it \<notin> fst ` set (take k (drop j xs))) xs = take j xs @ drop (j + k) xs"
proof -
  have "xs = take j xs @ take k (drop j xs) @ drop (j + k) xs"
    by (metis append_take_drop_id drop_drop add.commute)
  then obtain a b c where x: "xs = a @ b @ c" "take j xs = a" "take k (drop j xs) = b" "drop (j + k) xs = c" by blast
  have "filter (\<lambda>it. fst it \<notin> fst ` set b) a = a" "filter (\<lambda>it. fst it \<notin> fst ` set b) b = []"
    "filter (\<lambda>it. fst it \<notin> fst ` set b) c = c"
    using assms unfolding x(1) by (auto intro!: filter_True simp: filter_empty_conv)
  then show ?thesis using x by simp
qed

lemma ZRemRangeByRank_view:
  assumes "store_inv st" "zset_view st key (now env) = Some xs"
    and "normalizeRange (int (length xs)) start stop = Some (a, b)"
  shows "fst (ZRemRangeByRank env key start stop st) = Inr (b - a + 1)"
    and "zset_view (snd (ZRemRangeByRank env key start stop st)) key (now env) =
      Some (take (nat a) xs @ drop (nat b + 1) xs)"
proof -
  have ab: "0 \<le> a" "a \<le> b" "b < int (length xs)" using normalizeRange_bounds [OF assms(3)] by simp_all
  let ?ys = "take (nat (b - a + 1)) (drop (nat a) xs)"
  have s: "doomedByRank start stop z = map fst ?ys" if "zset_ok z" "zlist z = xs" for z
    using zlist_items [OF that(1)] that assms(3) zset_len [OF that(1)] zlist_props(2) [OF that(1)] ab
    by (simp add: doomedByRank_def rank_members_items zset_ok_def)
  have n: "nat a + nat (b - a + 1) = nat b + 1" "length ?ys = nat (b - a + 1)" using ab by simp_all
  note v = zRemRange_view [where sel = "doomedByRank start stop", OF assms(1,2) s]
  show "fst (ZRemRangeByRank env key start stop st) = Inr (b - a + 1)"
    "zset_view (snd (ZRemRangeByRank env key start stop st)) key (now env) = Some (take (nat a) xs @ drop (nat b + 1) xs)"
    using v distinct_slice_out [OF zset_view_sorted(2) [OF assms(1,2)], of "nat (b - a + 1)" "nat a"] n ab
    by (simp_all add: ZRemRangeByRank_def)
qed

text \<open>Range reads.\<close>

lemma zset_reads_view:
  assumes "store_inv st" "zset_view st key (now env) = Some xs"
  shows "fst (ZRange env key a b st) = Inr (slice_of (normalizeRange (int (length xs)) a b) xs)"
    and "fst (ZRevRange env key a b st) = Inr (slice_of (normalizeRange (int (length xs)) a b) (rev xs))"
    and "fst (ZCount env key r st) = Inr (int (length (filter (in_score r) xs)))"
    and "0 \<le> off \<Longrightarrow> fst (ZRangeByScore env key r off n rv st) =
      Inr (limit_members off n (if rv then rev (filter (in_score r) xs) else filter (in_score r) xs))"
    and "fst (ZScore env key m st) = Inr (map_of xs m)"
    and "fst (ZCard env key st) = Inr (int (length xs))"
proof -
  have e: "slice_of (normalizeRange 0 a b) [] = []" by (simp add: slice_of_def split: option.split)
  have "fst (ZRange env key a b st) = Inr (slice_of (normalizeRange (int (length xs)) a b) xs) \<and>
    fst (ZRevRange env key a b st) = Inr (slice_of (normalizeRange (int (length xs)) a b) (rev xs)) \<and>
    fst (ZCount env key r st) = Inr (int (length (filter (in_score r) xs))) \<and>
    (0 \<le> off \<longrightarrow> fst (ZRangeByScore env key r off n rv st) =
      Inr (limit_members off n (if rv then rev (filter (in_score r) xs) else filter (in_score r) xs))) \<and>
    fst (ZScore env key m st) = Inr (map_of xs m) \<and> fst (ZCard env key st) = Inr (int (length xs))"
    using assms
  proof (cases rule: zset_of_cases)
    case none
    then show ?thesis
      by (simp add: zrng.result zrevrng.result zcount.result zscorerng.result zscore.result zcard.result liveEntry_def e
          limit_members_def)
  next
    case (live e z)
    have z: "sl_wf (zsl z)" "sl_items (zsl z) = zlist z" "slen (zsl z) = int (length (zlist z))"
      using live(4) zlist_items [OF live(4)] zset_len [OF live(4)] zlist_props(2) [OF live(4)] by (simp_all add: zset_ok_def)
    show ?thesis using live z zlist_props(2,3) [OF live(4)]
      by (simp add: zrng.result zrevrng.result zcount.result zscorerng.result zscore.result zcard.result liveEntry_def
          zread_body_def ztouch_body_def zrange_items zrevrange_items score_members_items Let_def)
  qed
  then show "fst (ZRange env key a b st) = Inr (slice_of (normalizeRange (int (length xs)) a b) xs)"
    "fst (ZRevRange env key a b st) = Inr (slice_of (normalizeRange (int (length xs)) a b) (rev xs))"
    "fst (ZCount env key r st) = Inr (int (length (filter (in_score r) xs)))"
    "0 \<le> off \<Longrightarrow> fst (ZRangeByScore env key r off n rv st) =
      Inr (limit_members off n (if rv then rev (filter (in_score r) xs) else filter (in_score r) xs))"
    "fst (ZScore env key m st) = Inr (map_of xs m)" "fst (ZCard env key st) = Inr (int (length xs))" by blast+
qed

end
