(* ===== verification/ZSetAlgebra.thy ===== *)
theory ZSetAlgebra
  imports ZSetOps
begin

text \<open>
  The sorted-set algebra of \<open>internal/store/zsetalgebra.go\<close>: weighted unions, intersections and
  differences of sorted and plain sets, the range store, and the source and destination of
  \<open>SORT\<close>. The lemmas compare the accumulating loops with a pointwise description of the result and
  show that storing a result and reading it back gives the reply the client would have seen.
\<close>

subsection \<open>Combining\<close>

datatype ZAggregate = ZAggSum | ZAggMin | ZAggMax

datatype ZCombineKind = ZCombineUnion | ZCombineInter | ZCombineDiff

record ZSetOp =
  opKey :: bytes
  Weight :: float64

text \<open>A missing key gives an empty map; the copy of a map is the map.\<close>

definition scoredMembers :: "store \<Rightarrow> bytes \<Rightarrow> int \<Rightarrow> (bytes, float64) gomap res" where
  "scoredMembers st key t =
     (case liveEntry st key t of
        None \<Rightarrow> Inr []
      | Some e \<Rightarrow>
          (case val e of
             VZSet z \<Rightarrow> Inr (zdict z)
           | VSet d \<Rightarrow> Inr (map (\<lambda>(m, _). (m, f64_one)) d)
           | _ \<Rightarrow> Inl ErrWrongType))"

definition weighted :: "float64 \<Rightarrow> float64 \<Rightarrow> float64" where
  "weighted score weight = (let v = f64_mul score weight in if IsNaN v then f64_zero else v)"

definition aggregate :: "float64 \<Rightarrow> float64 \<Rightarrow> ZAggregate \<Rightarrow> float64" where
  "aggregate target v agg =
     (case agg of
        ZAggMin \<Rightarrow> if f64_lt v target then v else target
      | ZAggMax \<Rightarrow> if f64_lt target v then v else target
      | ZAggSum \<Rightarrow> (let w = f64_add target v in if IsNaN w then f64_zero else w))"

definition weigh_first :: "goenv \<Rightarrow> float64 \<Rightarrow> (bytes, float64) gomap \<Rightarrow> (bytes, float64) gomap" where
  "weigh_first env w ins = fold (\<lambda>m acc. gput m (weighted (the (map_of ins m)) w) acc) (gkeys env ins) []"

definition union_input :: "goenv \<Rightarrow> ZAggregate \<Rightarrow> float64 \<Rightarrow> (bytes, float64) gomap \<Rightarrow> (bytes, float64) gomap \<Rightarrow> (bytes, float64) gomap" where
  "union_input env agg w ins acc =
     fold (\<lambda>m acc.
         let v = weighted (the (map_of ins m)) w
         in case map_of acc m of Some cur \<Rightarrow> gput m (aggregate cur v agg) acc | None \<Rightarrow> gput m v acc)
       (gkeys env ins) acc"

fun union_loop :: "goenv \<Rightarrow> ZAggregate \<Rightarrow> ZSetOp list \<Rightarrow> store \<Rightarrow> (bytes, float64) gomap \<Rightarrow> (bytes, float64) gomap res" where
  "union_loop env agg [] st acc = Inr acc"
| "union_loop env agg (opr # ops) st acc =
     (case scoredMembers st (opKey opr) (now env) of
        Inl err \<Rightarrow> Inl err
      | Inr ins \<Rightarrow> union_loop env agg ops st (union_input env agg (Weight opr) ins acc))"

fun scored_all :: "store \<Rightarrow> bytes list \<Rightarrow> int \<Rightarrow> (bytes, float64) gomap list res" where
  "scored_all st [] t = Inr []"
| "scored_all st (k # ks) t =
     (case scoredMembers st k t of
        Inl err \<Rightarrow> Inl err
      | Inr ins \<Rightarrow> (case scored_all st ks t of Inl err \<Rightarrow> Inl err | Inr others \<Rightarrow> Inr (ins # others)))"

text \<open>The inner loop of the intersection: none when an input does not hold the member.\<close>

fun inter_score :: "ZAggregate \<Rightarrow> bytes \<Rightarrow> (bytes, float64) gomap list \<Rightarrow> float64 list \<Rightarrow> float64 \<Rightarrow> float64 option" where
  "inter_score agg m (ins # others) (w # ws) v =
     (case map_of ins m of
        None \<Rightarrow> None
      | Some sc \<Rightarrow> inter_score agg m others ws (aggregate v (weighted sc w) agg))"
| "inter_score agg m _ _ v = Some v"

definition zcombineLocked :: "goenv \<Rightarrow> ZCombineKind \<Rightarrow> ZSetOp list \<Rightarrow> ZAggregate \<Rightarrow> store \<Rightarrow> (bytes, float64) gomap res" where
  "zcombineLocked env kind ops agg st =
     (case scoredMembers st (opKey (hd ops)) (now env) of
        Inl err \<Rightarrow> Inl err
      | Inr ins \<Rightarrow>
          (case kind of
             ZCombineUnion \<Rightarrow> union_loop env agg (tl ops) st (weigh_first env (Weight (hd ops)) ins)
           | ZCombineInter \<Rightarrow>
               (case scored_all st (map opKey (tl ops)) (now env) of
                  Inl err \<Rightarrow> Inl err
                | Inr others \<Rightarrow>
                    Inr (fold (\<lambda>m acc.
                        case inter_score agg m others (map Weight (tl ops)) (weighted (the (map_of ins m)) (Weight (hd ops))) of
                          None \<Rightarrow> acc | Some v \<Rightarrow> gput m v acc) (gkeys env ins) []))
           | ZCombineDiff \<Rightarrow>
               (case scored_all st (map opKey (tl ops)) (now env) of
                  Inl err \<Rightarrow> Inl err
                | Inr others \<Rightarrow>
                    Inr (fold (\<lambda>m acc.
                        if \<exists>o' \<in> set others. map_of o' m \<noteq> None then acc else gput m (the (map_of ins m)) acc)
                      (gkeys env ins) []))))"

text \<open>No two members have the same name, so the comparison is total and the sorted order unique.\<close>

definition sortedMembers :: "goenv \<Rightarrow> (bytes, float64) gomap \<Rightarrow> ZMember list" where
  "sortedMembers env acc = sort_key item_key (map (\<lambda>m. (m, the (map_of acc m))) (gkeys env acc))"

definition ZCombine :: "goenv \<Rightarrow> ZCombineKind \<Rightarrow> ZSetOp list \<Rightarrow> ZAggregate \<Rightarrow> store \<Rightarrow> ZMember list res" where
  "ZCombine env kind ops agg st =
     (if length ops = 0 then Inr []
      else case zcombineLocked env kind ops agg st of Inl err \<Rightarrow> Inl err | Inr acc \<Rightarrow> Inr (sortedMembers env acc))"

definition replaceZSetLocked :: "goenv \<Rightarrow> bytes \<Rightarrow> ZMember list \<Rightarrow> store \<Rightarrow> int \<times> store" where
  "replaceZSetLocked env dest members st =
     (if length members = 0 then (0, put_slot dest None st)
      else
        let z = fold (\<lambda>(m, s) z. fst (zset_add m s z)) members (newZSet (coins env))
        in (int (length members), put_slot dest (Some (touch env st (new_entry (VZSet z)))) st))"

definition zCombineStore_body :: "goenv \<Rightarrow> bytes \<Rightarrow> ZCombineKind \<Rightarrow> ZSetOp list \<Rightarrow> ZAggregate \<Rightarrow> store \<Rightarrow> int res \<times> store" where
  "zCombineStore_body env dest kind ops agg st =
     (case zcombineLocked env kind ops agg st of
        Inl err \<Rightarrow> (Inl err, st)
      | Inr acc \<Rightarrow> (let (n, st') = replaceZSetLocked env dest (sortedMembers env acc) st in (Inr n, st')))"

definition ZCombineStore :: "goenv \<Rightarrow> bytes \<Rightarrow> ZCombineKind \<Rightarrow> ZSetOp list \<Rightarrow> ZAggregate \<Rightarrow> store \<Rightarrow> int res \<times> store" where
  "ZCombineStore env dest kind ops agg st =
     (if length ops = 0 then (Inr 0, st) else trackedKeys [dest] (zCombineStore_body env dest kind ops agg) st)"

fun inter_card :: "int \<Rightarrow> (bytes, float64) gomap list \<Rightarrow> bytes list \<Rightarrow> int \<Rightarrow> int" where
  "inter_card limit others [] n = n"
| "inter_card limit others (m # ms) n =
     (if \<exists>ins \<in> set others. map_of ins m = None then inter_card limit others ms n
      else if limit > 0 \<and> n + 1 \<ge> limit then n + 1
      else inter_card limit others ms (n + 1))"

definition ZInterCard :: "goenv \<Rightarrow> bytes list \<Rightarrow> int \<Rightarrow> store \<Rightarrow> int res" where
  "ZInterCard env keys limit st =
     (if length keys = 0 then Inr 0
      else case scoredMembers st (hd keys) (now env) of
             Inl err \<Rightarrow> Inl err
           | Inr ins \<Rightarrow>
               (case scored_all st (tl keys) (now env) of
                  Inl err \<Rightarrow> Inl err
                | Inr others \<Rightarrow> Inr (inter_card limit others (gkeys env ins) 0)))"

subsection \<open>Range selection\<close>

datatype ZRangeBy = ByRank | ByScore | ByLex

record ZRangeSelector =
  By :: ZRangeBy
  Start :: int
  Stop :: int
  Score :: ScoreRange
  Lex :: LexRange
  Offset :: int
  Count :: int
  Rev :: bool

definition selectRange :: "zset \<Rightarrow> ZRangeSelector \<Rightarrow> ZMember list" where
  "selectRange z sel =
     (let limit = (\<lambda>xs. let xs = (if Rev sel then rev xs else xs)
                       in if Offset sel < 0 then [] else limit_members (Offset sel) (Count sel) xs)
      in case By sel of
           ByScore \<Rightarrow> limit (score_members (Score sel) (zsl z))
         | ByLex \<Rightarrow> limit (lexMembers (Lex sel) (zsl z))
         | ByRank \<Rightarrow>
             (let all = members_from (zsl z) (sl_first (zsl z)); all = (if Rev sel then rev all else all)
              in case normalizeRange (slen (zsl z)) (Start sel) (Stop sel) of
                   None \<Rightarrow> []
                 | Some (from', to) \<Rightarrow> take (nat (to + 1 - from')) (drop (nat from') all)))"

definition zRangeStore_body :: "goenv \<Rightarrow> bytes \<Rightarrow> bytes \<Rightarrow> ZRangeSelector \<Rightarrow> store \<Rightarrow> int res \<times> store" where
  "zRangeStore_body env dest src sel st =
     (let store = (\<lambda>picked. let (n, st') = replaceZSetLocked env dest picked st in (Inr n, st'))
      in case liveEntry st src (now env) of
           None \<Rightarrow> store []
         | Some e \<Rightarrow> (case val e of VZSet z \<Rightarrow> store (selectRange z sel) | _ \<Rightarrow> (Inl ErrWrongType, st)))"

definition ZRangeStore :: "goenv \<Rightarrow> bytes \<Rightarrow> bytes \<Rightarrow> ZRangeSelector \<Rightarrow> store \<Rightarrow> int res \<times> store" where
  "ZRangeStore env dest src sel st = trackedKeys [dest] (zRangeStore_body env dest src sel) st"

definition ZRangeSelect :: "goenv \<Rightarrow> bytes \<Rightarrow> ZRangeSelector \<Rightarrow> store \<Rightarrow> ZMember list res \<times> store" where
  "ZRangeSelect env key sel st = read_key env key (Inr []) (ztouch_body (\<lambda>_ z. selectRange z sel) env st) st"

subsection \<open>The source and destination of \<open>SORT\<close>\<close>

definition sortSource_body :: "goenv \<Rightarrow> store \<Rightarrow> entry \<Rightarrow> entry \<times> (bytes list \<times> string) res" where
  "sortSource_body env st e =
     (e, case val e of
           VList d \<Rightarrow> Inr (dl d, ''list'')
         | VSet d \<Rightarrow> Inr (gkeys env d, ''set'')
         | VZSet z \<Rightarrow> Inr (map fst (members_from (zsl z) (sl_first (zsl z))), ''zset'')
         | _ \<Rightarrow> Inl ErrWrongType)"

definition SortSource :: "goenv \<Rightarrow> bytes \<Rightarrow> store \<Rightarrow> (bytes list \<times> string) res \<times> store" where
  "SortSource env key st = read_key env key (Inr ([], ''none'')) (sortSource_body env st) st"

definition replaceList_body :: "goenv \<Rightarrow> bytes list \<Rightarrow> store \<Rightarrow> entry option \<Rightarrow> entry option \<times> int res" where
  "replaceList_body env vals st slot =
     (if length vals = 0 then (None, Inr 0)
      else let d = fold rpush vals newDeque
           in (Some (touch env st (new_entry (VList d))), Inr (dlen d)))"

definition ReplaceList :: "goenv \<Rightarrow> bytes \<Rightarrow> bytes list \<Rightarrow> store \<Rightarrow> int res \<times> store" where
  "ReplaceList env key vals st = write_key key (replaceList_body env vals st) st"

subsection \<open>A pointwise description\<close>

type_synonym scores = "bytes \<rightharpoonup> float64"

text \<open>The weighted scores of a member in the inputs that hold it, in the order of the inputs, and their
  aggregation.\<close>

definition member_scores :: "(scores \<times> float64) list \<Rightarrow> bytes \<Rightarrow> float64 list" where
  "member_scores ins m = List.map_filter (\<lambda>(M, w). map_option (\<lambda>s. weighted s w) (M m)) ins"

definition agg_all :: "ZAggregate \<Rightarrow> float64 option \<Rightarrow> float64 list \<Rightarrow> float64 option" where
  "agg_all agg = foldl (\<lambda>a v. Some (case a of None \<Rightarrow> v | Some c \<Rightarrow> aggregate c v agg))"

definition zcombination :: "ZCombineKind \<Rightarrow> ZAggregate \<Rightarrow> (scores \<times> float64) list \<Rightarrow> scores" where
  "zcombination kind agg ins m =
     (case kind of
        ZCombineUnion \<Rightarrow> agg_all agg None (member_scores ins m)
      | ZCombineInter \<Rightarrow> if \<forall>(M, w) \<in> set ins. M m \<noteq> None then agg_all agg None (member_scores ins m) else None
      | ZCombineDiff \<Rightarrow> if \<exists>(M, w) \<in> set (tl ins). M m \<noteq> None then None else fst (hd ins) m)"

lemma member_scores_simps [simp]:
  "member_scores [] m = []"
  "member_scores ((M, w) # ins) m = (case M m of None \<Rightarrow> member_scores ins m | Some s \<Rightarrow> weighted s w # member_scores ins m)"
  by (simp_all add: member_scores_def map_filter_simps split: option.split)

lemma agg_all_simps [simp]:
  "agg_all agg a [] = a" "agg_all agg None (v # vs) = agg_all agg (Some v) vs"
  "agg_all agg (Some c) (v # vs) = agg_all agg (Some (aggregate c v agg)) vs"
  by (simp_all add: agg_all_def)

lemma const_numbers [simp]: "\<not> IsNaN f64_zero" "\<not> IsNaN f64_one"
  by code_simp+

lemma weighted_number [simp]: "\<not> IsNaN (weighted s w)"
  by (simp add: weighted_def Let_def)

lemma aggregate_number [simp]: "\<not> IsNaN c \<Longrightarrow> \<not> IsNaN v \<Longrightarrow> \<not> IsNaN (aggregate c v agg)"
  by (simp add: aggregate_def Let_def split: ZAggregate.split)

lemma agg_all_number:
  "(\<forall>c. a = Some c \<longrightarrow> \<not> IsNaN c) \<Longrightarrow> \<forall>v \<in> set vs. \<not> IsNaN v \<Longrightarrow> agg_all agg a vs = Some s \<Longrightarrow> \<not> IsNaN s"
proof (induction vs arbitrary: a)
  case (Cons v vs)
  show ?case
  proof (rule Cons.IH)
    show "agg_all agg (Some (case a of None \<Rightarrow> v | Some c \<Rightarrow> aggregate c v agg)) vs = Some s"
      using Cons.prems(3) by (cases a) simp_all
  qed (use Cons.prems in \<open>auto split: option.split\<close>)
qed simp

lemma member_scores_number: "v \<in> set (member_scores ins m) \<Longrightarrow> \<not> IsNaN v"
  by (induction ins) (auto split: option.splits)

lemma zcombination_number:
  assumes "\<And>M w s. (M, w) \<in> set ins \<Longrightarrow> M m = Some s \<Longrightarrow> \<not> IsNaN s" "ins \<noteq> []" "zcombination kind agg ins m = Some s"
  shows "\<not> IsNaN s"
proof (cases kind)
  case ZCombineDiff
  obtain M w where "hd ins = (M, w)" "(M, w) \<in> set ins" using assms(2) by (metis hd_in_set prod.collapse)
  then show ?thesis using assms(1,3) ZCombineDiff by (auto simp: zcombination_def split: if_splits)
qed (use assms(3) agg_all_number [of None "member_scores ins m" agg s] member_scores_number
      in \<open>auto simp: zcombination_def split: if_splits\<close>)

subsection \<open>The loops compute it\<close>

lemma fold_pointwise:
  assumes "\<And>m acc. map_of (f m acc) = (map_of acc)(m := g m (map_of acc m))" "distinct ks"
  shows "map_of (fold f ks acc) m = (if m \<in> set ks then g m (map_of acc m) else map_of acc m)"
  using assms(2)
proof (induction ks arbitrary: acc)
  case (Cons k ks)
  then show ?case by (auto simp: assms(1))
qed simp

lemma fold_wf: "(\<And>m acc. gmap_wf acc \<Longrightarrow> gmap_wf (f m acc)) \<Longrightarrow> gmap_wf acc \<Longrightarrow> gmap_wf (fold f ks acc)"
  by (induction ks arbitrary: acc) auto

lemma union_input_map:
  assumes "fair_iter env" "gmap_wf ins"
  shows "map_of (union_input env agg w ins acc) m = agg_all agg (map_of acc m) (member_scores [(map_of ins, w)] m)"
    and "gmap_wf acc \<Longrightarrow> gmap_wf (union_input env agg w ins acc)"
    and "map_of (weigh_first env w ins) m = agg_all agg None (member_scores [(map_of ins, w)] m)"
    and "gmap_wf (weigh_first env w ins)"
proof -
  have k: "distinct (gkeys env ins)" "m \<in> set (gkeys env ins) \<longleftrightarrow> map_of ins m \<noteq> None"
    using gkeys_props(1,2) [OF assms(1), of ins] assms(2) by (simp_all only: map_of_eq_None_iff not_not)
  let ?g = "\<lambda>m cur. Some (case cur of None \<Rightarrow> weighted (the (map_of ins m)) w | Some c \<Rightarrow> aggregate c (weighted (the (map_of ins m)) w) agg)"
  have "map_of (union_input env agg w ins acc) m = (if m \<in> set (gkeys env ins) then ?g m (map_of acc m) else map_of acc m)"
    unfolding union_input_def by (rule fold_pointwise [OF _ k(1)]) (simp add: Let_def split: option.split)
  then show "map_of (union_input env agg w ins acc) m = agg_all agg (map_of acc m) (member_scores [(map_of ins, w)] m)"
    using k(2) by (cases "map_of acc m") (auto split: option.split)
  have "map_of (weigh_first env w ins) m = (if m \<in> set (gkeys env ins) then Some (weighted (the (map_of ins m)) w) else map_of [] m)"
    unfolding weigh_first_def by (rule fold_pointwise [OF _ k(1)]) simp
  then show "map_of (weigh_first env w ins) m = agg_all agg None (member_scores [(map_of ins, w)] m)"
    using k(2) by (auto split: option.split)
  show "gmap_wf acc \<Longrightarrow> gmap_wf (union_input env agg w ins acc)"
    unfolding union_input_def by (rule fold_wf) (auto simp: Let_def split: option.split)
  show "gmap_wf (weigh_first env w ins)" unfolding weigh_first_def by (rule fold_wf) (simp_all add: gmap_wf_Nil)
qed

text \<open>What the client sees of an input: a sorted set with its scores, a plain set with the score one.\<close>

definition scores_of :: "store \<Rightarrow> bytes \<Rightarrow> int \<Rightarrow> scores option" where
  "scores_of st key t = (case scoredMembers st key t of Inl err \<Rightarrow> None | Inr ins \<Rightarrow> Some (map_of ins))"

lemma scores_ofE:
  assumes "store_inv st" "scores_of st key t = Some M"
  obtains ins where "scoredMembers st key t = Inr ins" "map_of ins = M" "gmap_wf ins" "\<And>m s. M m = Some s \<Longrightarrow> \<not> IsNaN s"
proof -
  obtain ins where ins: "scoredMembers st key t = Inr ins" "map_of ins = M"
    using assms(2) by (auto simp: scores_of_def split: sum.splits)
  have "gmap_wf ins \<and> (\<forall>m s. map_of ins m = Some s \<longrightarrow> \<not> IsNaN s)"
  proof (cases "liveEntry st key t")
    case None
    then show ?thesis using ins(1) by (simp add: scoredMembers_def gmap_wf_def)
  next
    case (Some e)
    note ok = live_ok [OF assms(1) Some]
    show ?thesis
    proof (cases "val e")
      case (VSet d)
      have "ins = map (\<lambda>(m, _). (m, f64_one)) d" "set_ok (d, eBytes e)"
        using ins(1) Some VSet ok by (simp_all add: scoredMembers_def set_entry_ok)
      moreover have "gmap_wf (map (\<lambda>(m, _). (m, f64_one)) d) = gmap_wf d" by (simp add: gmap_wf_def comp_def split_def)
      ultimately show ?thesis by (auto simp: set_ok_def dest!: map_of_SomeD)
    next
      case (VZSet z)
      then have "ins = zdict z" "zset_ok z" using ins(1) Some ok by (simp_all add: scoredMembers_def zset_entry_ok)
      then show ?thesis using zset_not_NaN by (auto simp: zset_ok_def)
    qed (use ins(1) Some in \<open>simp_all add: scoredMembers_def\<close>)
  qed
  with ins that show ?thesis by blast
qed

lemma member_scores_Cons: "member_scores (i # ins) m = member_scores [i] m @ member_scores ins m"
  by (cases i) (simp split: option.split)

lemma agg_all_append: "agg_all agg a (xs @ ys) = agg_all agg (agg_all agg a xs) ys"
  by (simp add: agg_all_def)

lemma union_loop_map:
  assumes "store_inv st" "fair_iter env"
  shows "list_all2 (\<lambda>k M. scores_of st (opKey k) (now env) = Some M) ops Rs \<Longrightarrow> gmap_wf acc \<Longrightarrow>
    \<exists>acc'. union_loop env agg ops st acc = Inr acc' \<and> gmap_wf acc' \<and>
      (\<forall>m. map_of acc' m = agg_all agg (map_of acc m) (member_scores (zip Rs (map Weight ops)) m))"
proof (induction ops arbitrary: Rs acc)
  case (Cons opr ops)
  then obtain M Rs' where Rs: "Rs = M # Rs'" and M: "scores_of st (opKey opr) (now env) = Some M"
    and r: "list_all2 (\<lambda>k M. scores_of st (opKey k) (now env) = Some M) ops Rs'" by (auto simp: list_all2_Cons1)
  obtain ins where ins: "scoredMembers st (opKey opr) (now env) = Inr ins" "map_of ins = M" "gmap_wf ins"
    by (rule scores_ofE [OF assms(1) M])
  note u = union_input_map(1,2) [OF assms(2) ins(3), where agg = agg and w = "Weight opr" and acc = acc]
  from Cons.IH [OF r u(2) [OF Cons.prems(2)]] show ?case
    by (simp add: ins(1) Rs u(1) ins(2) member_scores_Cons [of "(M, Weight opr)" "zip Rs' (map Weight ops)"] agg_all_append del: member_scores_simps)
qed simp

lemma scored_all_result:
  "list_all2 (\<lambda>k M. scores_of st k t = Some M) ks Rs \<Longrightarrow> \<exists>others. scored_all st ks t = Inr others \<and> map map_of others = Rs"
proof (induction rule: list_all2_induct)
  case (Cons k ks M Rs)
  then show ?case by (auto simp: scores_of_def split: sum.splits)
qed simp

lemma inter_score_eq:
  "length others = length ws \<Longrightarrow> inter_score agg m others ws v =
     (if \<forall>ins \<in> set others. map_of ins m \<noteq> None then agg_all agg (Some v) (member_scores (zip (map map_of others) ws) m)
      else None)"
  by (induction others ws arbitrary: v rule: list_induct2) (auto split: option.split)

lemma zcombineLocked_correct:
  assumes "store_inv st" "fair_iter env" "ops \<noteq> []"
    and "list_all2 (\<lambda>k M. scores_of st (opKey k) (now env) = Some M) ops Rs"
  obtains acc where "zcombineLocked env kind ops agg st = Inr acc" "gmap_wf acc"
    "map_of acc = zcombination kind agg (zip Rs (map Weight ops))"
proof -
  obtain opr ops' M Rs' where o: "ops = opr # ops'" "Rs = M # Rs'" "scores_of st (opKey opr) (now env) = Some M"
    and r: "list_all2 (\<lambda>k M. scores_of st (opKey k) (now env) = Some M) ops' Rs'"
    using assms(3,4) by (cases ops) (auto simp: list_all2_Cons1)
  obtain ins where ins: "scoredMembers st (opKey opr) (now env) = Inr ins" "map_of ins = M" "gmap_wf ins"
    by (rule scores_ofE [OF assms(1) o(3)])
  let ?w = "Weight opr" and ?I = "zip Rs' (map Weight ops')"
  have k: "distinct (gkeys env ins)" "m \<in> set (gkeys env ins) \<longleftrightarrow> M m \<noteq> None" for m
    using gkeys_props(1,2) [OF assms(2), of ins] ins(2,3) by (simp_all only: map_of_eq_None_iff not_not ins(2) [symmetric])
  have len: "length Rs' = length ops'" using r by (simp add: list_all2_lengthD)
  have "list_all2 (\<lambda>k M. scores_of st k (now env) = Some M) (map opKey ops') Rs'" using r by (simp add: list_all2_map1)
  from scored_all_result [OF this] obtain others where ot: "scored_all st (map opKey ops') (now env) = Inr others" "map map_of others = Rs'"
    by blast
  have all: "(\<forall>(M, w) \<in> set ?I. P M) \<longleftrightarrow> (\<forall>x \<in> set others. P (map_of x))" for P
    using len by (simp add: ot(2) [symmetric] set_zip all_set_conv_all_nth split_def) (metis length_map nth_map)
  show ?thesis
  proof (cases kind)
    case ZCombineUnion
    from union_loop_map [OF assms(1,2) r union_input_map(4) [OF assms(2) ins(3), of ?w], where agg = agg]
    obtain acc where acc: "union_loop env agg ops' st (weigh_first env ?w ins) = Inr acc" "gmap_wf acc"
      "\<And>m. map_of acc m = agg_all agg (map_of (weigh_first env ?w ins) m) (member_scores ?I m)" by blast
    have "map_of acc m = zcombination kind agg (zip Rs (map Weight ops)) m" for m
      unfolding acc(3) union_input_map(3) [OF assms(2) ins(3), where agg = agg] agg_all_append [symmetric] ins(2)
      by (simp add: ZCombineUnion zcombination_def o member_scores_Cons [of "(M, ?w)" ?I] del: member_scores_simps)
    then show ?thesis using that [of acc] acc(1,2) ins(1) by (auto simp: zcombineLocked_def ZCombineUnion o)
  next
    case ZCombineInter
    let ?f = "\<lambda>m acc. case inter_score agg m others (map Weight ops') (weighted (the (map_of ins m)) ?w) of
        None \<Rightarrow> acc | Some v \<Rightarrow> gput m v acc"
    have "map_of (fold ?f (gkeys env ins) []) m = zcombination kind agg (zip Rs (map Weight ops)) m" for m
    proof -
      have "map_of (fold ?f (gkeys env ins) []) m = (if m \<in> set (gkeys env ins) then
          (case inter_score agg m others (map Weight ops') (weighted (the (map_of ins m)) ?w) of None \<Rightarrow> map_of [] m | Some v \<Rightarrow> Some v)
          else map_of [] m)"
        by (rule fold_pointwise [OF _ k(1)]) (simp split: option.split)
      moreover have "inter_score agg m others (map Weight ops') v = (if \<forall>(M, w) \<in> set ?I. M m \<noteq> None
          then agg_all agg (Some v) (member_scores ?I m) else None)" for v
        unfolding all [of "\<lambda>M. M m \<noteq> None"] unfolding ot(2) [symmetric]
        by (rule inter_score_eq) (use len ot(2) in auto)
      ultimately show ?thesis using k(2) [of m]
        by (cases "M m") (simp_all add: ZCombineInter zcombination_def o ins(2) split: option.split)
    qed
    moreover have "gmap_wf (fold ?f (gkeys env ins) [])" by (rule fold_wf) (auto simp: gmap_wf_Nil split: option.split)
    ultimately show ?thesis using that ins(1) ot(1) by (auto simp: zcombineLocked_def ZCombineInter o)
  next
    case ZCombineDiff
    let ?f = "\<lambda>m acc. if \<exists>o' \<in> set others. map_of o' m \<noteq> None then acc else gput m (the (map_of ins m)) acc"
    have "map_of (fold ?f (gkeys env ins) []) m = zcombination kind agg (zip Rs (map Weight ops)) m" for m
    proof -
      have "map_of (fold ?f (gkeys env ins) []) m = (if m \<in> set (gkeys env ins) then
          (if \<exists>o' \<in> set others. map_of o' m \<noteq> None then map_of [] m else Some (the (map_of ins m))) else map_of [] m)"
        by (rule fold_pointwise [OF _ k(1)]) simp
      then show ?thesis using k(2) [of m] all [of "\<lambda>M. M m = None"]
        by (auto simp: ZCombineDiff zcombination_def o ins(2))
    qed
    moreover have "gmap_wf (fold ?f (gkeys env ins) [])" by (rule fold_wf) (auto simp: gmap_wf_Nil)
    ultimately show ?thesis using that ins(1) ot(1) by (auto simp: zcombineLocked_def ZCombineDiff o)
  qed
qed

subsection \<open>The reply and the stored result\<close>

lemma sortedMembers_props:
  assumes "fair_iter env" "gmap_wf acc"
  shows "map_of (sortedMembers env acc) = map_of acc" "distinct (map fst (sortedMembers env acc))"
    "length (sortedMembers env acc) = length acc" "sorted_wrt (<) (map item_key (sortedMembers env acc))"
proof -
  let ?P = "map (\<lambda>m. (m, the (map_of acc m))) (gkeys env acc)"
  have k: "set (gkeys env acc) = fst ` set acc" "distinct (gkeys env acc)" "length (gkeys env acc) = length acc"
    using gkeys_props [OF assms(1)] assms(2) by simp_all
  have d: "distinct (map fst ?P)" using k(2) by (simp add: comp_def)
  have e: "mset (sortedMembers env acc) = mset ?P" by (simp add: sortedMembers_def)
  then have "mset (map fst (sortedMembers env acc)) = mset (map fst ?P)" by (simp only: mset_map)
  then show D: "distinct (map fst (sortedMembers env acc))" using d by (metis mset_eq_imp_distinct_iff)
  show "length (sortedMembers env acc) = length acc" by (simp add: sortedMembers_def k(3))
  have "(fst p, the (map_of acc (fst p))) = p" if "p \<in> set acc" for p
    using assms(2) that by (cases p) (simp add: gmap_wf_def)
  then have "set ?P = set acc" by (simp add: k(1) image_image cong: image_cong)
  moreover have "set (sortedMembers env acc) = set ?P" by (simp add: sortedMembers_def)
  ultimately show "map_of (sortedMembers env acc) = map_of acc"
    using D assms(2) unfolding gmap_wf_def by (intro map_of_inject_set [THEN iffD2]) auto
  have "inj_on item_key (set (sortedMembers env acc))"
    using D by (auto simp: inj_on_def item_key_def distinct_map)
  then have "distinct (map item_key (sortedMembers env acc))" using D by (simp add: distinct_map)
  then show "sorted_wrt (<) (map item_key (sortedMembers env acc))"
    by (simp add: strict_sorted_iff sortedMembers_def)
qed

lemma ZCombine_result:
  assumes "store_inv st" "fair_iter env" "ops \<noteq> []"
    and "list_all2 (\<lambda>k M. scores_of st (opKey k) (now env) = Some M) ops Rs"
  obtains xs where "ZCombine env kind ops agg st = Inr xs" "sorted_wrt (<) (map item_key xs)" "distinct (map fst xs)"
    "map_of xs = zcombination kind agg (zip Rs (map Weight ops))"
proof -
  obtain acc where "zcombineLocked env kind ops agg st = Inr acc" "gmap_wf acc"
    "map_of acc = zcombination kind agg (zip Rs (map Weight ops))"
    by (rule zcombineLocked_correct [OF assms])
  then show ?thesis using that [of "sortedMembers env acc"] sortedMembers_props [OF assms(2), of acc] assms(3)
    by (simp add: ZCombine_def)
qed

lemma strict_sorted_eq:
  assumes "sorted_wrt (<) (map item_key xs)" "sorted_wrt (<) (map item_key ys)" "distinct (map fst xs)" "set xs = set ys"
  shows "xs = ys"
proof -
  have "map item_key xs = map item_key ys"
    using assms by (intro strict_sorted_equal) simp_all
  moreover have "inj_on item_key (set xs \<union> set ys)"
    using assms(3,4) by (auto simp: inj_on_def item_key_def distinct_map)
  ultimately show ?thesis by (rule map_inj_on)
qed

text \<open>Building a sorted set from distinct members gives them back in order.\<close>

lemma built_zset:
  fixes rnd :: "nat \<Rightarrow> bool"
  assumes "distinct (map fst xs)" "numbers xs"
  defines "z \<equiv> fold (\<lambda>(m, s) z. fst (zset_add m s z)) xs (newZSet rnd)"
  shows "zset_ok z" "zlist z = sort_key item_key xs"
proof -
  show ok: "zset_ok z" unfolding z_def using assms(2) by (intro fold_zset_add) (auto simp: numbers_def)
  have "map_of (zdict z) = map_of xs" unfolding z_def using assms(1) by (subst fold_zset_add_map) simp_all
  then have "map_of (zlist z) = map_of xs" by (simp add: zlist_props(3) [OF ok])
  then have s: "set (zlist z) = set (sort_key item_key xs)"
    using assms(1) zlist_props(1) [OF ok] by (simp add: map_of_inject_set)
  have i: "inj_on item_key (set xs)" using assms(1) by (auto simp: inj_on_def item_key_def distinct_map)
  have "sorted_wrt (<) (map item_key (sort_key item_key xs))"
    using i assms(1) by (simp add: strict_sorted_iff distinct_map)
  moreover have "sorted_wrt (<) (map item_key (zlist z))"
    using sl_items_sorted [of "zsl z"] zlist_items [OF ok] ok by (simp add: zset_ok_def)
  ultimately show "zlist z = sort_key item_key xs" using strict_sorted_eq s zlist_props(1) [OF ok] by blast
qed

definition storable :: "ZMember list \<Rightarrow> bool" where
  "storable xs \<longleftrightarrow> distinct (map fst xs) \<and> numbers xs"

lemma replaceZSet_props:
  assumes "store_inv st" "storable xs"
  shows "data_only [dest] st (snd (replaceZSetLocked env dest xs st))"
    "slot_ok (get_slot (snd (replaceZSetLocked env dest xs st)) k)"
    "zset_view (snd (replaceZSetLocked env dest xs st)) dest t = Some (sort_key item_key xs)"
    "fst (replaceZSetLocked env dest xs st) = int (length xs)"
proof -
  note w = store_invD(1) [OF assms(1)] and z = built_zset [of xs "coins env"]
  let ?z = "fold (\<lambda>(m, s) z. fst (zset_add m s z)) xs (newZSet (coins env))"
  have Z: "zset_ok ?z" "zlist ?z = sort_key item_key xs" using z assms(2) by (simp_all add: storable_def)
  have ne: "zdict ?z \<noteq> []" if "xs \<noteq> []" using zlist_props(2) [OF Z(1)] Z(2) that by (metis length_0_conv length_sort)
  show "data_only [dest] st (snd (replaceZSetLocked env dest xs st))"
    by (simp add: replaceZSetLocked_def Let_def data_only_put w)
  show "slot_ok (get_slot (snd (replaceZSetLocked env dest xs st)) k)"
    using store_invD(3) [OF assms(1), of k] Z(1) ne
    by (simp add: replaceZSetLocked_def Let_def get_put_slot w zset_entry_ok)
  show "zset_view (snd (replaceZSetLocked env dest xs st)) dest t = Some (sort_key item_key xs)"
    using Z(2) by (simp add: replaceZSetLocked_def Let_def get_put_slot w expired_def)
  show "fst (replaceZSetLocked env dest xs st) = int (length xs)" by (simp add: replaceZSetLocked_def Let_def)
qed

text \<open>A combination that does not fail has read every input.\<close>

lemma union_loop_reads: "union_loop env agg ops st acc = Inr acc' \<Longrightarrow> \<exists>Rs. list_all2 (\<lambda>k M. scores_of st (opKey k) (now env) = Some M) ops Rs"
proof (induction ops arbitrary: acc)
  case (Cons opr ops)
  then obtain ins where "scoredMembers st (opKey opr) (now env) = Inr ins"
    and "union_loop env agg ops st (union_input env agg (Weight opr) ins acc) = Inr acc'" by (auto split: sum.splits)
  with Cons.IH show ?case by (fastforce simp: scores_of_def list_all2_Cons1)
qed (rule exI [of _ "[]"], simp)

lemma scored_all_reads: "scored_all st ks t = Inr others \<Longrightarrow> \<exists>Rs. list_all2 (\<lambda>k M. scores_of st k t = Some M) ks Rs"
proof (induction ks arbitrary: others)
  case (Cons k ks)
  then obtain ins os where "scoredMembers st k t = Inr ins" and "scored_all st ks t = Inr os" by (auto split: sum.splits)
  with Cons.IH show ?case by (fastforce simp: scores_of_def list_all2_Cons1)
qed (rule exI [of _ "[]"], simp)

lemma zcombineLocked_reads:
  assumes "zcombineLocked env kind ops agg st = Inr acc" "ops \<noteq> []"
  obtains Rs where "list_all2 (\<lambda>k M. scores_of st (opKey k) (now env) = Some M) ops Rs"
proof -
  obtain opr ops' where o: "ops = opr # ops'" using assms(2) by (cases ops) auto
  obtain ins where ins: "scoredMembers st (opKey opr) (now env) = Inr ins"
    using assms(1) by (auto simp: zcombineLocked_def o split: sum.splits)
  have "\<exists>Rs. list_all2 (\<lambda>k M. scores_of st (opKey k) (now env) = Some M) ops' Rs"
  proof (cases "kind = ZCombineUnion")
    case True
    then show ?thesis using assms(1) ins union_loop_reads by (fastforce simp: zcombineLocked_def o)
  next
    case False
    then obtain others where "scored_all st (map opKey ops') (now env) = Inr others"
      using assms(1) ins by (cases kind) (auto simp: zcombineLocked_def o split: sum.splits)
    from scored_all_reads [OF this] show ?thesis by (simp add: list_all2_map1)
  qed
  then show ?thesis using that ins by (auto simp: o list_all2_Cons1 scores_of_def)
qed

lemma combination_storable:
  assumes "store_inv st" "fair_iter env" "ops \<noteq> []" "zcombineLocked env kind ops agg st = Inr acc"
  shows "storable (sortedMembers env acc)"
proof -
  obtain Rs where Rs: "list_all2 (\<lambda>k M. scores_of st (opKey k) (now env) = Some M) ops Rs"
    by (rule zcombineLocked_reads [OF assms(4,3)])
  obtain acc' where a: "zcombineLocked env kind ops agg st = Inr acc'" "gmap_wf acc'"
    "map_of acc' = zcombination kind agg (zip Rs (map Weight ops))"
    by (rule zcombineLocked_correct [OF assms(1-3) Rs])
  then have acc: "acc' = acc" using assms(4) by simp
  note P = sortedMembers_props [OF assms(2) a(2)]
  have n: "\<not> IsNaN s" if mem: "(M, w) \<in> set (zip Rs (map Weight ops))" "M m = Some s" for M w m s
  proof -
    obtain i where "i < length Rs" "M = Rs ! i" using mem(1) by (auto simp: set_zip)
    then have "scores_of st (opKey (ops ! i)) (now env) = Some M" using Rs by (auto simp: list_all2_conv_all_nth)
    then show ?thesis using scores_ofE [OF assms(1)] mem(2) by metis
  qed
  have "zip Rs (map Weight ops) \<noteq> []" using assms(3) Rs by (cases ops) (auto simp: list_all2_Cons1)
  then have "\<not> IsNaN s" if "map_of acc m = Some s" for m s
    using zcombination_number [of "zip Rs (map Weight ops)" m kind agg s] n that a(3) acc by metis
  then have "numbers (sortedMembers env acc)"
    using P(1,2) by (auto simp: numbers_def acc) (metis map_of_is_SomeI)
  then show ?thesis using P(2) by (simp add: storable_def acc)
qed

interpretation zcomb: keys_writer "trackedKeys [dest] (zCombineStore_body env dest kind ops agg)" "[dest]"
  "zCombineStore_body env dest kind ops agg" "fair_iter env \<and> ops \<noteq> []" for env dest kind ops agg
proof unfold_locales
  fix st :: store and k
  assume p: "fair_iter env \<and> ops \<noteq> []" and i: "store_inv st"
  have "data_only [dest] st (snd (zCombineStore_body env dest kind ops agg st)) \<and>
      slot_ok (get_slot (snd (zCombineStore_body env dest kind ops agg st)) k)"
  proof (cases "zcombineLocked env kind ops agg st")
    case (Inl err)
    then show ?thesis using i by (simp add: zCombineStore_body_def store_invD data_only_refl)
  next
    case (Inr acc)
    with p i have "storable (sortedMembers env acc)" by (intro combination_storable) auto
    then show ?thesis using replaceZSet_props(1,2) [OF i] by (simp add: zCombineStore_body_def Inr split_def Let_def)
  qed
  then show "data_only [dest] st (snd (zCombineStore_body env dest kind ops agg st))"
    "slot_ok (get_slot (snd (zCombineStore_body env dest kind ops agg st)) k)" by blast+
qed simp

lemma ZCombineStore_inv: "store_inv st \<Longrightarrow> fair_iter env \<Longrightarrow> store_inv (snd (ZCombineStore env dest kind ops agg st))"
  using zcomb.inv [of st env ops dest kind agg] by (simp add: ZCombineStore_def)

text \<open>Reading the destination back gives the reply of the combination without storing.\<close>

lemma ZCombineStore_view:
  assumes "store_inv st" "fair_iter env" "ops \<noteq> []" "ZCombine env kind ops agg st = Inr xs"
  shows "fst (ZCombineStore env dest kind ops agg st) = Inr (int (length xs))"
    and "zset_view (snd (ZCombineStore env dest kind ops agg st)) dest t = Some xs"
    and "k \<noteq> dest \<Longrightarrow> get_slot (snd (ZCombineStore env dest kind ops agg st)) k = get_slot st k"
proof -
  obtain acc where acc: "zcombineLocked env kind ops agg st = Inr acc" "xs = sortedMembers env acc"
    using assms(3,4) by (auto simp: ZCombine_def split: sum.splits)
  have s: "storable xs" using combination_storable [OF assms(1-3) acc(1)] acc(2) by simp
  have pre: "fair_iter env \<and> ops \<noteq> []" using assms(2,3) by simp
  have e: "ZCombineStore env dest kind ops agg st = trackedKeys [dest] (zCombineStore_body env dest kind ops agg) st"
    using assms(3) by (simp add: ZCombineStore_def)
  have b: "zCombineStore_body env dest kind ops agg st = (Inr (int (length xs)), snd (replaceZSetLocked env dest xs st))"
    using replaceZSet_props(4) [OF assms(1) s, of env dest] acc by (simp add: zCombineStore_body_def split_def Let_def)
  show "fst (ZCombineStore env dest kind ops agg st) = Inr (int (length xs))"
    unfolding e zcomb.result [OF store_invD(1) [OF assms(1)]] by (simp add: b)
  have "sort_key item_key xs = xs" by (simp add: acc(2) sortedMembers_def sort_key_id_if_sorted)
  then show "zset_view (snd (ZCombineStore env dest kind ops agg st)) dest t = Some xs"
    unfolding e zcomb.slot [OF assms(1) pre] using replaceZSet_props(3) [OF assms(1) s] by (simp add: b)
  show "k \<noteq> dest \<Longrightarrow> get_slot (snd (ZCombineStore env dest kind ops agg st)) k = get_slot st k"
    unfolding e using zcomb.frame [OF assms(1) pre, of k dest kind agg] by simp
qed

subsection \<open>Range selection and the intersection count\<close>

lemma limit_members_sub: "set (limit_members off n xs) \<subseteq> set xs" "distinct (map fst xs) \<Longrightarrow> distinct (map fst (limit_members off n xs))"
  by (auto simp: limit_members_def Let_def drop_map [symmetric] take_map [symmetric] dest: in_set_takeD in_set_dropD)

lemma selectRange_sub:
  assumes "zset_ok z"
  shows "set (selectRange z sel) \<subseteq> set (zlist z)" "distinct (map fst (selectRange z sel))"
proof -
  have w: "sl_wf (zsl z)" and i: "sl_items (zsl z) = zlist z" and d: "distinct (map fst (zlist z))"
    using assms zlist_items zlist_props(1) by (simp_all add: zset_ok_def)
  have sc: "set (score_members r (zsl z)) \<subseteq> set (zlist z) \<and> distinct (map fst (score_members r (zsl z)))" for r
    using d by (simp add: score_members_items [OF w] i distinct_map_filter)
  have "takeWhile P (zlist z) = take (length (takeWhile P (zlist z))) (zlist z)" for P by (rule takeWhile_eq_take)
  then have "distinct (map fst (takeWhile P (zlist z)))" for P using d by (metis distinct_take take_map)
  then have lx: "set (lexMembers r (zsl z)) \<subseteq> set (zlist z) \<and> distinct (map fst (lexMembers r (zsl z)))" for r
    by (auto simp: lexMembers_def members_from_first i distinct_map_filter dest: set_takeWhileD)
  have lims: "set (if Offset sel < 0 then [] else limit_members (Offset sel) (Count sel) (if Rev sel then rev xs else xs)) \<subseteq> set xs"
    for xs :: "ZMember list"
    using limit_members_sub(1) [of "Offset sel" "Count sel" "if Rev sel then rev xs else xs"] by (auto split: if_splits)
  show "set (selectRange z sel) \<subseteq> set (zlist z)"
  proof (cases "By sel")
    case ByRank
    then show ?thesis
      by (auto simp: selectRange_def Let_def members_from_first i split: option.splits if_splits dest!: in_set_takeD in_set_dropD)
  next
    case ByScore
    then show ?thesis using sc [of "Score sel"] lims [of "score_members (Score sel) (zsl z)"]
      by (simp only: selectRange_def Let_def ZRangeBy.case) blast
  next
    case ByLex
    then show ?thesis using lx [of "Lex sel"] lims [of "lexMembers (Lex sel) (zsl z)"]
      by (simp only: selectRange_def Let_def ZRangeBy.case) blast
  qed
  have lim: "distinct (map fst xs) \<Longrightarrow> distinct (map fst (if Offset sel < 0 then [] else
      limit_members (Offset sel) (Count sel) (if Rev sel then rev xs else xs)))" for xs :: "ZMember list"
    using limit_members_sub(2) [of "if Rev sel then rev xs else xs" "Offset sel" "Count sel"] by (simp flip: rev_map)
  show "distinct (map fst (selectRange z sel))"
  proof (cases "By sel")
    case ByRank
    then show ?thesis using d
      by (auto simp: selectRange_def Let_def members_from_first i take_map [symmetric] drop_map [symmetric] simp flip: rev_map
          split: option.splits if_splits)
  next
    case ByScore
    then show ?thesis using lim sc [of "Score sel"] by (simp add: selectRange_def Let_def)
  next
    case ByLex
    then show ?thesis using lim lx [of "Lex sel"] by (simp add: selectRange_def Let_def)
  qed
qed

lemma selectRange_rank:
  assumes "zset_ok z" "By sel = ByRank"
  shows "selectRange z sel = slice_of (normalizeRange (int (length (zlist z))) (Start sel) (Stop sel))
    (if Rev sel then rev (zlist z) else zlist z)"
  using assms zlist_items [OF assms(1)] zset_len [OF assms(1)] zlist_props(2) [OF assms(1)]
  by (auto simp: selectRange_def Let_def members_from_first slice_of_def add.commute add_diff_eq split: option.split)

lemma selectRange_score:
  assumes "zset_ok z" "By sel = ByScore" "0 \<le> Offset sel"
  shows "selectRange z sel = limit_members (Offset sel) (Count sel)
    (if Rev sel then rev (filter (in_score (Score sel)) (zlist z)) else filter (in_score (Score sel)) (zlist z))"
  using assms zlist_items [OF assms(1)] score_members_items [of "zsl z" "Score sel"]
  by (simp add: selectRange_def Let_def zset_ok_def)

interpretation zrstore: keys_writer "ZRangeStore env dest src sel" "[dest]" "zRangeStore_body env dest src sel" True
  for env dest src sel
proof unfold_locales
  fix st :: store and k
  assume i: "store_inv st"
  have "data_only [dest] st (snd (zRangeStore_body env dest src sel st)) \<and>
      slot_ok (get_slot (snd (zRangeStore_body env dest src sel st)) k)"
  proof (cases "liveEntry st src (now env)")
    case None
    then show ?thesis using replaceZSet_props(1,2) [OF i, of "[]"]
      by (simp add: zRangeStore_body_def Let_def split_def storable_def numbers_def)
  next
    case (Some e)
    show ?thesis
    proof (cases "\<exists>z. val e = VZSet z")
      case True
      then obtain z where z: "val e = VZSet z" by blast
      then have ok: "zset_ok z" using live_ok [OF i Some] by (simp add: zset_entry_ok)
      have "storable (selectRange z sel)"
        using selectRange_sub [OF ok, of sel] zset_not_NaN [OF ok] zlist_props(3) [OF ok] zlist_props(1) [OF ok]
        by (auto simp: storable_def numbers_def) (metis map_of_is_SomeI subsetD)
      then show ?thesis using replaceZSet_props(1,2) [OF i] Some z by (simp add: zRangeStore_body_def Let_def split_def)
    next
      case False
      then have "zRangeStore_body env dest src sel st = (Inl ErrWrongType, st)"
        using Some by (cases "val e") (simp_all add: zRangeStore_body_def Let_def)
      then show ?thesis using i by (simp add: store_invD data_only_refl)
    qed
  qed
  then show "data_only [dest] st (snd (zRangeStore_body env dest src sel st))"
    "slot_ok (get_slot (snd (zRangeStore_body env dest src sel st)) k)" by blast+
qed (simp add: ZRangeStore_def)

interpretation zselect: key_reader "\<lambda>env. ZRangeSelect env key sel" key "Inr []" "ztouch_body (\<lambda>_ z. selectRange z sel)" for key sel
  by unfold_locales (simp_all add: ZRangeSelect_def)

interpretation sortsrc: key_reader "\<lambda>env. SortSource env key" key "Inr ([], ''none'')" sortSource_body for key
  by unfold_locales (simp_all add: SortSource_def sortSource_body_def)

interpretation replist: key_writer "ReplaceList env key vals" key "replaceList_body env vals" for env key vals
  by unfold_locales
    (auto simp: ReplaceList_def replaceList_body_def Let_def entry_ok_def fold_rpush)

lemma inter_card_eq:
  assumes "0 \<le> n" "limit \<le> 0 \<or> n < limit"
  shows "inter_card limit others ms n =
    (let c = n + int (length (filter (\<lambda>m. \<forall>ins \<in> set others. map_of ins m \<noteq> None) ms)) in if limit > 0 then min limit c else c)"
  using assms
proof (induction ms arbitrary: n)
  case (Cons m ms)
  then show ?case by (auto simp: Let_def)
qed (auto simp: Let_def)

lemma ZInterCard_result:
  assumes "store_inv st" "fair_iter env" "ks \<noteq> []" "list_all2 (\<lambda>k M. scores_of st k (now env) = Some M) ks Rs"
  shows "ZInterCard env ks limit st =
    Inr (let c = int (card (\<Inter>M \<in> set Rs. dom M)) in if limit > 0 then min limit c else c)"
proof -
  obtain k ks' M Rs' where k: "ks = k # ks'" "Rs = M # Rs'" "scores_of st k (now env) = Some M"
    and r: "list_all2 (\<lambda>k M. scores_of st k (now env) = Some M) ks' Rs'"
    using assms(3,4) by (cases ks) (auto simp: list_all2_Cons1)
  obtain ins where ins: "scoredMembers st k (now env) = Inr ins" "map_of ins = M" "gmap_wf ins"
    by (rule scores_ofE [OF assms(1) k(3)])
  obtain others where ot: "scored_all st ks' (now env) = Inr others" "map map_of others = Rs'"
    using scored_all_result [OF r] by blast
  let ?F = "filter (\<lambda>m. \<forall>ins \<in> set others. map_of ins m \<noteq> None) (gkeys env ins)"
  have g: "set (gkeys env ins) = dom M" "distinct (gkeys env ins)"
    using gkeys_props(1,2) [OF assms(2), of ins] ins(3) unfolding ins(2) [symmetric] dom_map_of_conv_image_fst by simp_all
  have "set ?F = (\<Inter>M \<in> set Rs. dom M)" using g(1) by (auto simp: k(2) ot(2) [symmetric] domIff)
  then have "length ?F = card (\<Inter>M \<in> set Rs. dom M)" using g(2) distinct_card [of ?F] by (simp only: distinct_filter)
  then show ?thesis using inter_card_eq [of 0 limit others "gkeys env ins"] by (auto simp: ZInterCard_def k(1) ins(1) ot(1) Let_def)
qed

end
