(* ===== verification/KeyOps.thy ===== *)
theory KeyOps
  imports ZSetAlgebra
begin

text \<open>
  The operations on keys of any type of \<open>internal/store/keys.go\<close>, the encoding names of
  \<open>internal/store/encoding.go\<close> and the size reports of \<open>internal/store/memory.go\<close>.
\<close>

subsection \<open>Conditional expiry\<close>

type_synonym ExpireCond = "8 word"

abbreviation (input) ExpireNX :: ExpireCond where "ExpireNX \<equiv> 1"
abbreviation (input) ExpireXX :: ExpireCond where "ExpireXX \<equiv> 2"
abbreviation (input) ExpireGT :: ExpireCond where "ExpireGT \<equiv> 4"
abbreviation (input) ExpireLT :: ExpireCond where "ExpireLT \<equiv> 8"
abbreviation (input) ExpireAlways :: ExpireCond where "ExpireAlways \<equiv> 0"

text \<open>The deadline is an instant other than the zero time.\<close>

definition expireAtCond_body :: "goenv \<Rightarrow> int \<Rightarrow> ExpireCond \<Rightarrow> store \<Rightarrow> entry option \<Rightarrow> entry option \<times> bool" where
  "expireAtCond_body env deadline cond st slot =
     (case liveSlot (now env) slot of
        None \<Rightarrow> (slot, False)
      | Some e \<Rightarrow>
          let hasTTL = (expireAt e \<noteq> None)
          in if cond AND ExpireNX \<noteq> 0 \<and> hasTTL then (slot, False)
             else if cond AND ExpireXX \<noteq> 0 \<and> \<not> hasTTL then (slot, False)
             else if cond AND ExpireGT \<noteq> 0 \<and> (\<not> hasTTL \<or> \<not> the (expireAt e) < deadline) then (slot, False)
             else if cond AND ExpireLT \<noteq> 0 \<and> hasTTL \<and> \<not> deadline < the (expireAt e) then (slot, False)
             else (Some (e\<lparr>expireAt := Some deadline\<rparr>), True))"

definition ExpireAtCond :: "goenv \<Rightarrow> bytes \<Rightarrow> int \<Rightarrow> ExpireCond \<Rightarrow> store \<Rightarrow> bool \<times> store" where
  "ExpireAtCond env key deadline cond st = write_key key (expireAtCond_body env deadline cond st) st"

definition ExpireAt :: "goenv \<Rightarrow> bytes \<Rightarrow> int \<Rightarrow> store \<Rightarrow> bool \<times> store" where
  "ExpireAt env key deadline st = ExpireAtCond env key deadline ExpireAlways st"

definition ExpireTimeMillis :: "goenv \<Rightarrow> bytes \<Rightarrow> store \<Rightarrow> (int \<times> bool \<times> bool) \<times> store" where
  "ExpireTimeMillis env key st = read_key env key (0, False, False)
     (\<lambda>e. (e, case expireAt e of None \<Rightarrow> (0, False, True) | Some d \<Rightarrow> (UnixMilli d, True, True))) st"

subsection \<open>Picking, copying, renaming\<close>

fun random_from :: "goenv \<Rightarrow> store \<Rightarrow> nat \<Rightarrow> nat list \<Rightarrow> bytes option" where
  "random_from env st start [] = None"
| "random_from env st start (i # is) =
     (case shard_keys env (shards st ! unat (word_of_nat (start + i) AND smask st)) of
        k # _ \<Rightarrow> Some k
      | [] \<Rightarrow> random_from env st start is)"

definition RandomKey :: "goenv \<Rightarrow> store \<Rightarrow> bytes option" where
  "RandomKey env st = random_from env st (Intn env 0 (length (shards st))) [0..<length (shards st)]"

definition copy_body :: "goenv \<Rightarrow> bytes \<Rightarrow> bytes \<Rightarrow> bool \<Rightarrow> store \<Rightarrow> bool res \<times> store" where
  "copy_body env src dst replace st =
     (case liveEntry st src (now env) of
        None \<Rightarrow> (Inr False, st)
      | Some e \<Rightarrow>
          if \<not> replace \<and> liveEntry st dst (now env) \<noteq> None then (Inr False, st)
          else (Inr True, put_slot dst (Some (touch env st (entry_clone env e))) st))"

definition Copy :: "goenv \<Rightarrow> bytes \<Rightarrow> bytes \<Rightarrow> bool \<Rightarrow> store \<Rightarrow> bool res \<times> store" where
  "Copy env src dst replace st =
     (if src = dst then (Inl ErrSameObject, st) else trackedKeys [src, dst] (copy_body env src dst replace) st)"

definition renameNX_body :: "goenv \<Rightarrow> bytes \<Rightarrow> bytes \<Rightarrow> store \<Rightarrow> (bool \<times> bool) \<times> store" where
  "renameNX_body env src dst st =
     (case liveEntry st src (now env) of
        None \<Rightarrow> ((False, False), st)
      | Some e \<Rightarrow>
          if src = dst \<or> liveEntry st dst (now env) \<noteq> None then ((False, True), st)
          else ((True, True), put_slot dst (Some e) (put_slot src None st)))"

definition RenameNX :: "goenv \<Rightarrow> bytes \<Rightarrow> bytes \<Rightarrow> store \<Rightarrow> (bool \<times> bool) \<times> store" where
  "RenameNX env src dst st = trackedKeys [src, dst] (renameNX_body env src dst) st"

subsection \<open>Access times\<close>

definition Touch :: "goenv \<Rightarrow> bytes \<Rightarrow> store \<Rightarrow> bool \<times> store" where
  "Touch env key st = read_key env key False (\<lambda>e. (touch env st e, True)) st"

definition IdleSeconds :: "goenv \<Rightarrow> bytes \<Rightarrow> store \<Rightarrow> (int \<times> bool) \<times> store" where
  "IdleSeconds env key st = read_key env key (0, False)
     (\<lambda>e. (e, if atime e = 0 then (0, True)
             else
               let idle = wrap64 (wrap64 (now env) - atime e)
               in if idle < 0 then (0, True) else (go_div idle 1000000000, True))) st"

definition SetIdleSeconds :: "goenv \<Rightarrow> bytes \<Rightarrow> int \<Rightarrow> store \<Rightarrow> bool \<times> store" where
  "SetIdleSeconds env key secs st =
     (case liveEntry st key (now env) of
        None \<Rightarrow> (False, st)
      | Some e \<Rightarrow> (True, put_slot key (Some (e\<lparr>atime := wrap64 (wrap64 (now env) - wrap64 (secs * 1000000000))\<rparr>)) st))"

subsection \<open>Encoding names\<close>

definition SetEncodingLimit :: "EncodingParam \<Rightarrow> int \<Rightarrow> store \<Rightarrow> store" where
  "SetEncodingLimit p v st =
     (let v = (if v < 0 \<and> p \<noteq> ListMaxListpackSize then 0 else v) in st\<lparr>encoding := (encoding st)(p := v)\<rparr>)"

definition EncodingLimit :: "EncodingParam \<Rightarrow> store \<Rightarrow> int" where
  "EncodingLimit p st = encoding st p"

abbreviation listpackSizeLimits :: "int list" where
  "listpackSizeLimits \<equiv> [4096, 8192, 16384, 32768, 65536]"

definition listExceedsListpack :: "int \<Rightarrow> int \<Rightarrow> int \<Rightarrow> bool" where
  "listExceedsListpack fill cnt nbytes =
     (if fill < 0 then
        let i = wrap64 (wrap64 (- fill) - 1);
            i = (if i \<ge> int (length listpackSizeLimits) then int (length listpackSizeLimits) - 1 else i)
        in nbytes > listpackSizeLimits ! nat i
      else cnt > fill \<or> nbytes > listpackSizeLimits ! 1)"

definition encoding_name :: "store \<Rightarrow> entry \<Rightarrow> string" where
  "encoding_name st e =
     (case val e of
        VString s \<Rightarrow>
          (let n = length (sbytes s); short = (if n \<le> 44 then ''embstr'' else ''raw'')
           in case origin e of
                strMutatedBuffer \<Rightarrow> ''raw''
              | strWholeValue \<Rightarrow> if n \<le> 20 \<and> ParseInt (sbytes s) \<noteq> None then ''int'' else short
              | _ \<Rightarrow> short)
      | VList d \<Rightarrow>
          if listExceedsListpack (encoding st ListMaxListpackSize) (dlen d) (sum_list (map (\<lambda>v. int (length v)) (dl d)))
          then ''quicklist'' else ''listpack''
      | VHash d \<Rightarrow>
          (let maxVal = encoding st HashMaxListpackValue
           in if list_ex (\<lambda>(f, v). int (length f) > maxVal \<or> int (length (sbytes v)) > maxVal) d then ''hashtable''
              else if int (length d) \<le> encoding st HashMaxListpackEntries then ''listpack'' else ''hashtable'')
      | VSet d \<Rightarrow>
          (let allInts = list_all (\<lambda>(m, _). ParseInt m \<noteq> None) d;
               longest = fold (\<lambda>(m, _) l. max l (int (length m))) d 0
           in if allInts \<and> int (length d) \<le> encoding st SetMaxIntsetEntries then ''intset''
              else if int (length d) \<le> encoding st SetMaxListpackEntries \<and> longest \<le> encoding st SetMaxListpackValue
              then ''listpack'' else ''hashtable'')
      | VZSet z \<Rightarrow>
          if int (length (zdict z)) \<le> encoding st ZSetMaxListpackEntries \<and>
             list_all (\<lambda>(m, _). int (length m) \<le> encoding st ZSetMaxListpackValue) (zdict z)
          then ''listpack'' else ''skiplist''
      | VStream s \<Rightarrow> ''stream'')"

definition Encoding :: "goenv \<Rightarrow> bytes \<Rightarrow> store \<Rightarrow> string option \<times> store" where
  "Encoding env key st = read_key env key None (\<lambda>e. (e, Some (encoding_name st e))) st"

subsection \<open>Sizes\<close>

definition MemoryUsage :: "goenv \<Rightarrow> bytes \<Rightarrow> store \<Rightarrow> int option" where
  "MemoryUsage env key st =
     map_option (\<lambda>e. memEntryOverhead + int (length key) + entrySize e) (liveEntry st key (now env))"

record Footprint =
  fpKeys :: int
  fpExpires :: int
  fpOverhead :: int
  fpDataset :: int

definition footprint_entry :: "int \<Rightarrow> (bytes \<times> entry) \<Rightarrow> Footprint \<Rightarrow> Footprint" where
  "footprint_entry t ke fp =
     (let (k, e) = ke
      in if expired t e then fp
         else fp\<lparr>fpKeys := fpKeys fp + 1,
                 fpExpires := (if expireAt e \<noteq> None then fpExpires fp + 1 else fpExpires fp),
                 fpOverhead := fpOverhead fp + memEntryOverhead,
                 fpDataset := fpDataset fp + (int (length k) + entrySize e)\<rparr>)"

definition Footprint :: "goenv \<Rightarrow> store \<Rightarrow> Footprint" where
  "Footprint env st =
     fold (\<lambda>sh fp. fold (\<lambda>k fp. footprint_entry (now env) (k, the (map_of (sdata sh) k)) fp) (gkeys env (sdata sh)) fp)
       (shards st) \<lparr>fpKeys = 0, fpExpires = 0, fpOverhead = 0, fpDataset = 0\<rparr>"

definition LenWithExpires :: "goenv \<Rightarrow> store \<Rightarrow> int \<times> int" where
  "LenWithExpires env st =
     fold (\<lambda>sh acc. fold (\<lambda>k (keys, expires).
           case map_of (sdata sh) k of
             None \<Rightarrow> (keys, expires)
           | Some e \<Rightarrow> if expired (now env) e then (keys, expires)
                       else (keys + 1, if expireAt e \<noteq> None then expires + 1 else expires))
         (gkeys env (sdata sh)) acc)
       (shards st) (0, 0)"

subsection \<open>Well-formedness\<close>

lemma entry_ok_deadline [simp]: "entry_ok (e\<lparr>expireAt := d\<rparr>) = entry_ok e"
  by (simp add: entry_ok_def split: val.split)

interpretation expireat: key_writer "ExpireAtCond env key deadline cond" key "expireAtCond_body env deadline cond"
  for env key deadline cond
  by unfold_locales
    (auto simp: ExpireAtCond_def expireAtCond_body_def Let_def dest!: liveSlot_SomeD split: option.split)

interpretation expiretime: key_reader "\<lambda>env. ExpireTimeMillis env key" key "(0, False, False)"
  "\<lambda>env st e. (e, case expireAt e of None \<Rightarrow> (0, False, True) | Some d \<Rightarrow> (UnixMilli d, True, True))" for key
  by unfold_locales (simp_all add: ExpireTimeMillis_def)

interpretation touchkey: key_reader "\<lambda>env. Touch env key" key False "\<lambda>env st e. (touch env st e, True)" for key
  by unfold_locales (simp_all add: Touch_def)

interpretation idle: key_reader "\<lambda>env. IdleSeconds env key" key "(0, False)"
  "\<lambda>env st e. (e, if atime e = 0 then (0, True)
     else let idle = wrap64 (wrap64 (now env) - atime e) in if idle < 0 then (0, True) else (go_div idle 1000000000, True))"
  for key
  by unfold_locales (simp_all add: IdleSeconds_def)

interpretation encname: key_reader "\<lambda>env. Encoding env key" key None "\<lambda>env st e. (e, Some (encoding_name st e))" for key
  by unfold_locales (simp_all add: Encoding_def)

lemma SetIdleSeconds_inv: "store_inv st \<Longrightarrow> store_inv (snd (SetIdleSeconds env key secs st))"
  by (auto simp: SetIdleSeconds_def same_value_def dest: liveEntry_Some intro!: put_same_inv split: option.split)

lemma clone_nonempty:
  assumes "entry_ok e" "fair_iter env"
  shows "val_nonempty (val (entry_clone env e)) = val_nonempty (val e)" "expireAt (entry_clone env e) = expireAt e"
    "origin (entry_clone env e) = origin e"
proof -
  have n: "(d = []) = (d' = [])" if "dom (map_of d) = dom (map_of d')" for d :: "('x, 'y) gomap" and d' :: "('x, 'z) gomap"
    using that by (cases d; cases d') auto
  have "dom (map_of (fst (clone_hash env d))) = dom (map_of d)" for d
    using clone_hash_ok(2) [OF assms(2), of d] by (auto simp: domIff)
  then have h: "(fst (clone_hash env d) = []) = (d = [])" for d by (rule n)
  have s: "(fst (clone_set env d) = []) = (d = [])" for d
    using clone_set_ok(2) [OF assms(2), of d] by (intro n) simp
  have z: "(zdict (clone_zset env z) = []) = (zdict z = [])" if "zset_ok z" for z
    using clone_zset_ok(2) [OF that, of env] by (intro n) simp
  show "val_nonempty (val (entry_clone env e)) = val_nonempty (val e)"
    using assms(1) h s z by (cases "val e") (simp_all add: entry_clone_def Let_def split_def fold_rpush entry_ok_def)
  show "expireAt (entry_clone env e) = expireAt e" "origin (entry_clone env e) = origin e"
    by (simp_all add: entry_clone_def Let_def split_def split: val.split)
qed

text \<open>What a client can see of a value.\<close>

fun val_eq :: "val \<Rightarrow> val \<Rightarrow> bool" where
  "val_eq (VString s) (VString s') = (sbytes s = sbytes s')"
| "val_eq (VList d) (VList d') = (dl d = dl d')"
| "val_eq (VHash d) (VHash d') = (map_option sbytes \<circ> map_of d = map_option sbytes \<circ> map_of d')"
| "val_eq (VSet d) (VSet d') = (map_of d = map_of d')"
| "val_eq (VZSet z) (VZSet z') = (zlist z = zlist z')"
| "val_eq (VStream s) (VStream s') =
     (map (\<lambda>e. (ID e, map sbytes (Fields e))) (entries s) = map (\<lambda>e. (ID e, map sbytes (Fields e))) (entries s'))"
| "val_eq _ _ = False"

lemma zlist_eqI:
  assumes "zset_ok z" "zset_ok z'" "map_of (zdict z) = map_of (zdict z')"
  shows "zlist z = zlist z'"
proof (rule strict_sorted_eq)
  show "sorted_wrt (<) (map item_key (zlist z))" "sorted_wrt (<) (map item_key (zlist z'))"
    using sl_items_sorted [of "zsl z"] sl_items_sorted [of "zsl z'"] zlist_items assms(1,2) by (simp_all add: zset_ok_def)
  show "distinct (map fst (zlist z))" by (rule zlist_props(1) [OF assms(1)])
  have "map_of (zlist z) = map_of (zlist z')" using assms zlist_props(3) by simp
  then show "set (zlist z) = set (zlist z')" using zlist_props(1) assms(1,2) by (simp add: map_of_inject_set)
qed

lemma clone_val_eq:
  assumes "entry_ok e" "fair_iter env"
  shows "val_eq (val e) (val (entry_clone env e))"
proof (cases "val e")
  case (VHash d)
  then show ?thesis using clone_hash_ok(2) [OF assms(2), of d]
    by (auto simp: entry_clone_def Let_def split_def copyBytes_def fun_eq_iff option.map_comp comp_def)
next
  case (VZSet z)
  then have "zset_ok z" using assms(1) by (simp add: entry_ok_def)
  then show ?thesis using VZSet clone_zset_ok [of z env] zlist_eqI [of z "clone_zset env z"]
    by (simp add: entry_clone_def Let_def)
qed (use clone_set_ok(2) [OF assms(2)] in \<open>simp_all add: entry_clone_def Let_def split_def copyBytes_def fold_rpush
       stream_clone_def StreamEntry_clone_def comp_def\<close>)

interpretation copy: keys_writer "trackedKeys [src, dst] (copy_body env src dst replace)" "[src, dst]"
  "copy_body env src dst replace" "fair_iter env" for env src dst replace
proof unfold_locales
  fix st :: store and k
  assume f: "fair_iter env" and i: "store_inv st"
  note w = store_invD(1) [OF i]
  show "data_only [src, dst] st (snd (copy_body env src dst replace st))"
    using w by (auto simp: copy_body_def data_only_refl data_only_put split: option.split)
  show "slot_ok (get_slot (snd (copy_body env src dst replace st)) k)"
  proof (cases "liveEntry st src (now env)")
    case (Some e)
    have "slot_ok (get_slot st src)" using store_invD(3) [OF i] .
    then have "entry_ok e" "val_nonempty (val e)" using liveEntry_Some [OF Some] by auto
    then show ?thesis using Some f store_invD(3) [OF i, of k]
      by (simp add: copy_body_def get_put_slot w entry_clone_ok clone_nonempty)
  qed (use store_invD(3) [OF i, of k] in \<open>simp add: copy_body_def\<close>)
qed simp

interpretation renamenx: keys_writer "RenameNX env src dst" "[src, dst]" "renameNX_body env src dst" True for env src dst
proof unfold_locales
  fix st :: store and k
  assume i: "store_inv st"
  note w = store_invD(1) [OF i]
  show "data_only [src, dst] st (snd (renameNX_body env src dst st))"
    by (simp add: renameNX_body_def data_only_refl data_only_put2 w split: option.split)
  show "slot_ok (get_slot (snd (renameNX_body env src dst st)) k)"
    using live_ok [OF i, of src "now env"] store_invD(3) [OF i, of k] store_invD(3) [OF i, of src]
    by (auto simp: renameNX_body_def get_put_slot put_slot_wf w dest: liveEntry_Some split: option.split)
qed (simp add: RenameNX_def)

subsection \<open>What the operations do\<close>

text \<open>The conditions on a deadline, a key without one being due infinitely late.\<close>

definition deadline_allowed :: "ExpireCond \<Rightarrow> int option \<Rightarrow> int \<Rightarrow> bool" where
  "deadline_allowed cond old new \<longleftrightarrow>
     (cond AND ExpireNX \<noteq> 0 \<longrightarrow> old = None) \<and> (cond AND ExpireXX \<noteq> 0 \<longrightarrow> old \<noteq> None) \<and>
     (cond AND ExpireGT \<noteq> 0 \<longrightarrow> (\<exists>d. old = Some d \<and> d < new)) \<and> (cond AND ExpireLT \<noteq> 0 \<longrightarrow> (\<forall>d. old = Some d \<longrightarrow> new < d))"

lemma ExpireAtCond_result:
  assumes "store_inv st"
  shows "fst (ExpireAtCond env key deadline cond st) \<longleftrightarrow>
      (\<exists>e. liveEntry st key (now env) = Some e \<and> deadline_allowed cond (expireAt e) deadline)"
    and "get_slot (snd (ExpireAtCond env key deadline cond st)) key =
      (if fst (ExpireAtCond env key deadline cond st)
       then map_option (\<lambda>e. e\<lparr>expireAt := Some deadline\<rparr>) (get_slot st key) else get_slot st key)"
proof -
  note w = store_invD(1) [OF assms]
  have "expireAtCond_body env deadline cond st slot = (case liveSlot (now env) slot of
      Some e \<Rightarrow> if deadline_allowed cond (expireAt e) deadline then (Some (e\<lparr>expireAt := Some deadline\<rparr>), True) else (slot, False)
    | None \<Rightarrow> (slot, False))" for slot
  proof (cases "liveSlot (now env) slot")
    case (Some e)
    then show ?thesis by (cases "expireAt e") (auto simp: expireAtCond_body_def deadline_allowed_def)
  qed (simp add: expireAtCond_body_def)
  then show "fst (ExpireAtCond env key deadline cond st) \<longleftrightarrow>
      (\<exists>e. liveEntry st key (now env) = Some e \<and> deadline_allowed cond (expireAt e) deadline)"
    "get_slot (snd (ExpireAtCond env key deadline cond st)) key =
      (if fst (ExpireAtCond env key deadline cond st)
       then map_option (\<lambda>e. e\<lparr>expireAt := Some deadline\<rparr>) (get_slot st key) else get_slot st key)"
    by (auto simp: expireat.result [OF w] expireat.slot [OF w] liveEntry_def dest!: liveSlot_SomeD split: option.splits)
qed

lemma Copy_view:
  assumes "store_inv st" "fair_iter env" "src \<noteq> dst"
  shows "fst (Copy env src dst replace st) =
      Inr (liveEntry st src (now env) \<noteq> None \<and> (replace \<or> liveEntry st dst (now env) = None))"
    and "fst (Copy env src dst replace st) = Inr True \<Longrightarrow> \<exists>e e'. get_slot st src = Some e \<and>
      get_slot (snd (Copy env src dst replace st)) dst = Some e' \<and> val_eq (val e) (val e') \<and> expireAt e' = expireAt e"
    and "k \<noteq> dst \<Longrightarrow> get_slot (snd (Copy env src dst replace st)) k = get_slot st k"
proof -
  note w = store_invD(1) [OF assms(1)]
  have e: "Copy env src dst replace st = trackedKeys [src, dst] (copy_body env src dst replace) st"
    using assms(3) by (simp add: Copy_def)
  note S = copy.slot [OF assms(1,2)] and R = copy.result [OF w]
  show "fst (Copy env src dst replace st) =
      Inr (liveEntry st src (now env) \<noteq> None \<and> (replace \<or> liveEntry st dst (now env) = None))"
    unfolding e R by (auto simp: copy_body_def split: option.split)
  show "fst (Copy env src dst replace st) = Inr True \<Longrightarrow> \<exists>e e'. get_slot st src = Some e \<and>
      get_slot (snd (Copy env src dst replace st)) dst = Some e' \<and> val_eq (val e) (val e') \<and> expireAt e' = expireAt e"
    unfolding e R S using live_ok [OF assms(1)] clone_val_eq [OF _ assms(2)] clone_nonempty(2) [OF _ assms(2)]
    by (auto simp: copy_body_def get_put_slot w dest: liveEntry_Some split: option.splits if_splits)
  show "k \<noteq> dst \<Longrightarrow> get_slot (snd (Copy env src dst replace st)) k = get_slot st k"
    unfolding e S by (auto simp: copy_body_def get_put_slot w split: option.split)
qed

lemma Copy_inv: "store_inv st \<Longrightarrow> fair_iter env \<Longrightarrow> store_inv (snd (Copy env src dst replace st))"
  using copy.inv [of st env src dst replace] by (simp add: Copy_def)

lemma RenameNX_view:
  assumes "store_inv st"
  shows "fst (RenameNX env src dst st) =
      (liveEntry st src (now env) \<noteq> None \<and> src \<noteq> dst \<and> liveEntry st dst (now env) = None, liveEntry st src (now env) \<noteq> None)"
    and "fst (fst (RenameNX env src dst st)) \<Longrightarrow> get_slot (snd (RenameNX env src dst st)) k =
      (if k = dst then get_slot st src else if k = src then None else get_slot st k)"
    and "\<not> fst (fst (RenameNX env src dst st)) \<Longrightarrow> get_slot (snd (RenameNX env src dst st)) k = get_slot st k"
proof -
  note w = store_invD(1) [OF assms]
  show "fst (RenameNX env src dst st) =
      (liveEntry st src (now env) \<noteq> None \<and> src \<noteq> dst \<and> liveEntry st dst (now env) = None, liveEntry st src (now env) \<noteq> None)"
    unfolding renamenx.result [OF w] by (auto simp: renameNX_body_def split: option.split)
  show "fst (fst (RenameNX env src dst st)) \<Longrightarrow> get_slot (snd (RenameNX env src dst st)) k =
      (if k = dst then get_slot st src else if k = src then None else get_slot st k)"
    "\<not> fst (fst (RenameNX env src dst st)) \<Longrightarrow> get_slot (snd (RenameNX env src dst st)) k = get_slot st k"
    unfolding renamenx.result [OF w] renamenx.slot [OF assms TrueI]
    by (auto simp: renameNX_body_def get_put_slot put_slot_wf w dest: liveEntry_Some split: option.splits if_splits)
qed

lemma RenameNX_inv:
  assumes "store_inv st"
  shows "store_inv (snd (RenameNX env src dst st))"
proof (cases "src = dst")
  case True
  have "snd (renameNX_body env src dst st) = st" using True by (auto simp: renameNX_body_def split: option.split)
  then show ?thesis using True assms by (intro renamenx.inv_settles) (simp_all add: settles_def)
next
  case False
  then show ?thesis using assms by (intro renamenx.inv) simp_all
qed

text \<open>The random start visits every shard once, so a store with a live key yields one.\<close>

lemma mask_index:
  assumes "store_wf st"
  shows "unat (word_of_nat j AND smask st) = j mod length (shards st)"
proof -
  obtain n where n: "length (shards st) = 2 ^ n" "unat (smask st) = 2 ^ n - 1" using assms by (auto simp: store_wf_def)
  have "unat (smask st) < 2 ^ 64" by (rule order_less_le_trans [OF unsigned_less]) simp
  then have "(2 :: nat) ^ n < 2 ^ 65" unfolding n(2) by simp
  then have "n < 65" by (rule power_less_imp_less_exp [rotated]) simp
  then have l: "n \<le> 64" by simp
  have "unat (word_of_nat j AND smask st) = take_bit 64 j AND (2 ^ n - 1)"
    by (simp add: unsigned_and_eq n(2) unsigned_of_nat)
  also have "\<dots> = take_bit n (take_bit 64 j)" by (simp only: take_bit_eq_mask mask_eq_exp_minus_1)
  also have "\<dots> = j mod 2 ^ n" unfolding take_bit_take_bit using l by (simp add: take_bit_eq_mod min_def)
  finally show ?thesis by (simp add: n(1))
qed

lemma random_from_some:
  "random_from env st start is = Some k \<Longrightarrow>
     \<exists>i \<in> set is. k \<in> set (shard_keys env (shards st ! unat (word_of_nat (start + i) AND smask st)))"
  by (induction "is") (auto split: list.splits)

lemma random_from_none:
  "random_from env st start is = None \<Longrightarrow>
     \<forall>i \<in> set is. shard_keys env (shards st ! unat (word_of_nat (start + i) AND smask st)) = []"
  by (induction "is") (auto split: list.splits)

lemma RandomKey_live:
  assumes "store_wf st" "fair_iter env"
  shows "RandomKey env st = Some k \<Longrightarrow> liveEntry st k (now env) \<noteq> None"
    and "RandomKey env st = None \<Longrightarrow> liveEntry st k (now env) = None"
proof -
  let ?N = "length (shards st)" and ?s = "Intn env 0 (length (shards st))"
  have N: "0 < ?N" using shardIndex_bound [OF assms(1), of k] by linarith
  note ix = mask_index [OF assms(1)]
  show "RandomKey env st = Some k \<Longrightarrow> liveEntry st k (now env) \<noteq> None"
  proof -
    assume "RandomKey env st = Some k"
    then obtain i where "k \<in> set (shard_keys env (shards st ! ((?s + i) mod ?N)))"
      unfolding RandomKey_def using random_from_some [of env st ?s "[0..<?N]" k] unfolding ix by blast
    then show ?thesis using shard_keys_live(1) [OF assms, of "(?s + i) mod ?N"] N by auto
  qed
  show "RandomKey env st = None \<Longrightarrow> liveEntry st k (now env) = None"
  proof -
    assume "RandomKey env st = None"
    then have none: "\<forall>i \<in> set [0..<?N]. shard_keys env (shards st ! ((?s + i) mod ?N)) = []"
      unfolding RandomKey_def using random_from_none [of env st ?s "[0..<?N]"] unfolding ix by blast
    let ?j = "shardIndex st k" and ?i = "(shardIndex st k + (?N - ?s)) mod ?N"
    have j: "?j < ?N" by (rule shardIndex_bound [OF assms(1)])
    have s: "?s < ?N" using N by (simp add: Intn_def)
    have "(?s + ?i) mod ?N = (?s + (?j + (?N - ?s))) mod ?N" by (simp only: mod_add_right_eq)
    also have "\<dots> = ?j" using s j by simp
    finally have "shard_keys env (shards st ! ?j) = []" using none N by (auto dest: bspec [of _ _ ?i])
    then show ?thesis using shard_keys_live(1) [OF assms j] by auto
  qed
qed

text \<open>The size report adds up to the sizes of the live keys.\<close>

lemma footprint_entry_fields:
  "fpKeys (footprint_entry t (k, e) fp) = (if expired t e then fpKeys fp else fpKeys fp + 1)"
  "fpOverhead (footprint_entry t (k, e) fp) = (if expired t e then fpOverhead fp else fpOverhead fp + memEntryOverhead)"
  "fpDataset (footprint_entry t (k, e) fp) =
     (if expired t e then fpDataset fp else fpDataset fp + (int (length k) + entrySize e))"
  by (simp_all add: footprint_entry_def)

lemma footprint_shard:
  fixes sh :: shard and t :: int
  assumes "\<forall>k \<in> set ks. map_of (sdata sh) k \<noteq> None"
  defines "F \<equiv> fold (\<lambda>k fp. footprint_entry t (k, the (map_of (sdata sh) k)) fp)"
    and "L \<equiv> filter (\<lambda>k. liveSlot t (map_of (sdata sh) k) \<noteq> None)"
  shows "fpKeys (F ks fp) = fpKeys fp + int (length (L ks)) \<and>
    fpOverhead (F ks fp) = fpOverhead fp + memEntryOverhead * int (length (L ks)) \<and>
    fpDataset (F ks fp) = fpDataset fp + sum_list (map (\<lambda>k. int (length k) + entrySize (the (map_of (sdata sh) k))) (L ks))"
  using assms(1) unfolding F_def L_def
proof (induction ks arbitrary: fp)
  case (Cons k ks)
  obtain e where e: "map_of (sdata sh) k = Some e" using Cons.prems by auto
  have "\<forall>k \<in> set ks. map_of (sdata sh) k \<noteq> None" using Cons.prems by simp
  note IH = Cons.IH [OF this, of "footprint_entry t (k, e) fp"]
  show ?case using IH by (simp add: e liveSlot_def footprint_entry_fields)
qed simp

lemma footprint_shards:
  fixes fp :: Footprint and env :: goenv
  assumes "fair_iter env"
  defines "G \<equiv> fold (\<lambda>sh fp. fold (\<lambda>k fp. footprint_entry (now env) (k, the (map_of (sdata sh) k)) fp) (gkeys env (sdata sh)) fp)"
  shows "fpKeys (G shs fp) = fpKeys fp + int (length (concat (map (shard_keys env) shs))) \<and>
    fpOverhead (G shs fp) = fpOverhead fp + memEntryOverhead * int (length (concat (map (shard_keys env) shs))) \<and>
    fpDataset (G shs fp) = fpDataset fp +
      sum_list (map (\<lambda>sh. sum_list (map (\<lambda>k. int (length k) + entrySize (the (map_of (sdata sh) k))) (shard_keys env sh))) shs)"
  unfolding G_def
proof (induction shs arbitrary: fp)
  case (Cons sh shs)
  have a: "\<forall>k \<in> set (gkeys env (sdata sh)). map_of (sdata sh) k \<noteq> None"
    using gkeys_props(1) [OF assms(1), of "sdata sh"] unfolding map_of_eq_None_iff by blast
  let ?fp = "fold (\<lambda>k fp. footprint_entry (now env) (k, the (map_of (sdata sh) k)) fp) (gkeys env (sdata sh)) fp"
  show ?case using Cons.IH [of ?fp] footprint_shard [OF a, of "now env" fp, folded shard_keys_def] by simp
qed simp

lemma sum_concat: "sum_list (concat xss) = sum_list (map sum_list xss)"
  by (induction xss) simp_all

lemma Footprint_total:
  assumes "store_wf st" "fair_iter env"
  shows "fpKeys (Footprint env st) = Len env st"
    and "fpOverhead (Footprint env st) = memEntryOverhead * Len env st"
    and "fpOverhead (Footprint env st) + fpDataset (Footprint env st) =
      sum_list (map (\<lambda>k. the (MemoryUsage env k st)) (Keys env st))"
proof -
  let ?c = "\<lambda>sh k. int (length k) + entrySize (the (map_of (sdata sh) k))"
  have K: "Keys env st = concat (map (shard_keys env) (shards st))" by (simp add: Keys_def fold_append)
  have L: "Len env st = int (length (Keys env st))" by (rule Keys_live(3) [OF assms])
  note F = footprint_shards [OF assms(2), of "shards st" "\<lparr>fpKeys = 0, fpExpires = 0, fpOverhead = 0, fpDataset = 0\<rparr>",
      folded Footprint_def]
  show k: "fpKeys (Footprint env st) = Len env st" "fpOverhead (Footprint env st) = memEntryOverhead * Len env st"
    using F by (simp_all add: L K)
  have m: "the (MemoryUsage env k st) = memEntryOverhead + ?c (shards st ! i) k"
    if ik: "i < length (shards st)" "k \<in> set (shard_keys env (shards st ! i))" for i k
  proof -
    obtain e where e: "shardIndex st k = i" "liveEntry st k (now env) = Some e"
      using shard_keys_live(1) [OF assms ik(1)] ik(2) by auto
    then show ?thesis using liveEntry_Some [OF e(2)] by (simp add: MemoryUsage_def get_slot_def getShard_def)
  qed
  have E: "map (\<lambda>sh. sum_list (map (\<lambda>k. the (MemoryUsage env k st)) (shard_keys env sh))) (shards st) =
      map (\<lambda>sh. sum_list (map (\<lambda>k. memEntryOverhead + ?c sh k) (shard_keys env sh))) (shards st)"
    by (rule nth_equalityI) (auto intro!: arg_cong [where f = sum_list] simp: m)
  have "sum_list (map (\<lambda>k. the (MemoryUsage env k st)) (Keys env st)) =
      sum_list (map (\<lambda>sh. sum_list (map (\<lambda>k. memEntryOverhead + ?c sh k) (shard_keys env sh))) (shards st))"
    unfolding E [symmetric] by (simp only: K map_concat sum_concat map_map comp_def)
  also have "\<dots> = memEntryOverhead * Len env st + sum_list (map (\<lambda>sh. sum_list (map (?c sh) (shard_keys env sh))) (shards st))"
    by (simp add: L K sum_list_addf sum_list_triv length_concat comp_def sum_list_mult_const mult.commute flip: sum_list_of_nat)
  finally show "fpOverhead (Footprint env st) + fpDataset (Footprint env st) =
      sum_list (map (\<lambda>k. the (MemoryUsage env k st)) (Keys env st))" using F k(2) by simp
qed

lemma len_expires_shard:
  fixes sh :: shard and t :: int
  defines "f \<equiv> (\<lambda>k (keys, expires). case map_of (sdata sh) k of
      None \<Rightarrow> (keys, expires)
    | Some e \<Rightarrow> if expired t e then (keys, expires)
                else (keys + 1, if expireAt e \<noteq> None then expires + 1 else expires :: int))"
  shows "fst (fold f ks acc) = fst acc + int (length (filter (\<lambda>k. liveSlot t (map_of (sdata sh) k) \<noteq> None) ks)) \<and>
    snd acc \<le> snd (fold f ks acc) \<and> snd (fold f ks acc) - snd acc \<le> fst (fold f ks acc) - fst acc"
proof (induction ks arbitrary: acc)
  case (Cons k ks)
  have "fst (f k acc) = fst acc + (if liveSlot t (map_of (sdata sh) k) \<noteq> None then 1 else 0) \<and>
      snd acc \<le> snd (f k acc) \<and> snd (f k acc) - snd acc \<le> fst (f k acc) - fst acc"
    by (cases acc) (auto simp: f_def liveSlot_def split: option.split)
  then show ?case using Cons.IH [of "f k acc"] by simp
qed simp

lemma LenWithExpires_len:
  assumes "store_wf st" "fair_iter env"
  shows "fst (LenWithExpires env st) = Len env st" "0 \<le> snd (LenWithExpires env st)"
    "snd (LenWithExpires env st) \<le> fst (LenWithExpires env st)"
proof -
  define g where "g = (\<lambda>(sh :: shard) acc. fold (\<lambda>k (keys, expires).
           case map_of (sdata sh) k of
             None \<Rightarrow> (keys, expires)
           | Some e \<Rightarrow> if expired (now env) e then (keys, expires)
                       else (keys + 1, if expireAt e \<noteq> None then expires + 1 else expires))
         (gkeys env (sdata sh)) (acc :: int \<times> int))"
  have "fst (fold g shs acc) = fst acc + int (length (concat (map (shard_keys env) shs))) \<and>
      snd acc \<le> snd (fold g shs acc) \<and> snd (fold g shs acc) - snd acc \<le> fst (fold g shs acc) - fst acc" for shs acc
  proof (induction shs arbitrary: acc)
    case (Cons sh shs)
    have "fst (g sh acc) = fst acc + int (length (shard_keys env sh)) \<and> snd acc \<le> snd (g sh acc) \<and>
        snd (g sh acc) - snd acc \<le> fst (g sh acc) - fst acc"
      unfolding g_def shard_keys_def by (rule len_expires_shard)
    then show ?case using Cons.IH [of "g sh acc"] by simp
  qed simp
  from this [of "shards st" "(0, 0)"]
  show "fst (LenWithExpires env st) = Len env st" "0 \<le> snd (LenWithExpires env st)"
    "snd (LenWithExpires env st) \<le> fst (LenWithExpires env st)"
    using Keys_live(3) [OF assms] by (simp_all add: LenWithExpires_def g_def [symmetric] Keys_def fold_append)
qed

end
