(* ===== verification/Databases.thy ===== *)
theory Databases
  imports KeyOps
begin

text \<open>
  The operations across two databases of \<open>internal/store/databases.go\<close>. Each database is a store
  of its own; a transfer charges and settles the key in both, a swap exchanges the shards with their
  counts. The lemmas show that a transfer keeps both accounts exact, that a failed one changes
  nothing, and that a swap exchanges the keyspaces.
\<close>

subsection \<open>Operations\<close>

definition TransferKey :: "goenv \<Rightarrow> bytes \<Rightarrow> bool \<Rightarrow> bool \<Rightarrow> store \<Rightarrow> store \<Rightarrow> bool \<times> store \<times> store" where
  "TransferKey env key remove replace src dst =
     (let scharged = charge src key; dcharged = charge dst key;
          finish = (\<lambda>r src' dst'. (r, settle key scharged src', settle key dcharged dst'))
      in case liveEntry src key (now env) of
           None \<Rightarrow> finish False src dst
         | Some e \<Rightarrow>
             if \<not> replace \<and> liveEntry dst key (now env) \<noteq> None then finish False src dst
             else finish True (if remove then put_slot key None src else src)
                    (put_slot key (Some (touch env dst (entry_clone env e))) dst))"

text \<open>The staged entry is handed over whether or not its deadline has passed.\<close>

definition AdoptKey :: "goenv \<Rightarrow> bytes \<Rightarrow> bool \<Rightarrow> store \<Rightarrow> store \<Rightarrow> bool \<times> store \<times> store" where
  "AdoptKey env key replace dst src =
     (let dcharged = charge dst key; scharged = charge src key;
          finish = (\<lambda>r dst' src'. (r, settle key dcharged dst', settle key scharged src'))
      in case get_slot src key of
           None \<Rightarrow> finish False dst src
         | Some e \<Rightarrow>
             if \<not> replace \<and> liveEntry dst key (now env) \<noteq> None then finish False dst src
             else finish True (put_slot key (Some (touch env dst e)) dst) (put_slot key None src))"

text \<open>One iteration of the swap: the shards of one index trade places, contents and counts alike.\<close>

definition swap_shard :: "nat \<Rightarrow> store \<times> store \<Rightarrow> store \<times> store" where
  "swap_shard i ab =
     (let (a, b) = ab; sa = shards a ! i; sb = shards b ! i; wasA = smem sa; wasB = smem sb
      in (a\<lparr>shards := (shards a)[i := sa\<lparr>sdata := sdata sb, smem := wasB, svolatile := svolatile sb\<rparr>],
            mem := mem a + (wasB - wasA)\<rparr>,
          b\<lparr>shards := (shards b)[i := sb\<lparr>sdata := sdata sa, smem := wasA, svolatile := svolatile sa\<rparr>],
            mem := mem b + (wasA - wasB)\<rparr>))"

definition SwapData :: "store \<Rightarrow> store \<Rightarrow> store \<times> store" where
  "SwapData a b = fold swap_shard [0..<length (shards a)] (a, b)"

subsection \<open>Transfers\<close>

text \<open>Either side of a transfer is a single-key write of its own store.\<close>

lemma write_key_simp: "write_key key (\<lambda>slot. (f slot, r)) st = (r, settle key (charge st key) (put_slot key (f (get_slot st key)) st))"
  by (simp add: write_key_def Let_def)

lemma put_same_slot: "store_wf st \<Longrightarrow> put_slot key (get_slot st key) st = st"
  using wf_gmap [OF _ shardIndex_bound, of st key]
  by (simp add: put_slot_def upd_shard_def get_slot_def getShard_def gset_same)

definition set_key :: "bytes \<Rightarrow> entry option \<Rightarrow> store \<Rightarrow> unit \<times> store" where
  "set_key key v st = write_key key (\<lambda>_. (v, ())) st"

interpretation setkey: key_writer_if "set_key key v" key "\<lambda>st slot. (v, ())" "slot_ok v" for key v
  by unfold_locales (simp_all add: set_key_def)

lemma settle_set_key: "settle key (charge st key) (put_slot key v st) = snd (set_key key v st)"
  by (simp add: set_key_def write_key_def Let_def)

lemma set_key_same: "store_wf st \<Longrightarrow> snd (set_key key (get_slot st key) st) = st"
  using write_key_same [of st key] by (simp flip: settle_set_key)

lemma TransferKey_eq:
  assumes "store_wf src" "store_wf dst"
  shows "TransferKey env key remove replace src dst =
    (case liveEntry src key (now env) of
       Some e \<Rightarrow>
         if replace \<or> liveEntry dst key (now env) = None
         then (True, snd (set_key key (if remove then None else get_slot src key) src),
               snd (set_key key (Some (touch env dst (entry_clone env e))) dst))
         else (False, src, dst)
     | None \<Rightarrow> (False, src, dst))"
  using write_key_same [OF assms(1), of key] write_key_same [OF assms(2), of key]
  by (auto simp: TransferKey_def Let_def settle_set_key set_key_same put_same_slot assms split: option.split)

lemma AdoptKey_eq:
  assumes "store_wf dst" "store_wf src"
  shows "AdoptKey env key replace dst src =
    (case get_slot src key of
       Some e \<Rightarrow>
         if replace \<or> liveEntry dst key (now env) = None
         then (True, snd (set_key key (Some (touch env dst e)) dst), snd (set_key key None src))
         else (False, dst, src)
     | None \<Rightarrow> (False, dst, src))"
  using write_key_same [OF assms(1), of key] write_key_same [OF assms(2), of key]
  by (auto simp: AdoptKey_def Let_def settle_set_key put_same_slot assms split: option.split)

lemma TransferKey_inv:
  assumes "store_inv src" "store_inv dst" "fair_iter env" "TransferKey env key remove replace src dst = (r, src', dst')"
  shows "store_inv src' \<and> store_inv dst'"
proof (cases "liveEntry src key (now env)")
  case None
  then show ?thesis using assms by (simp add: TransferKey_eq store_invD)
next
  case (Some e)
  have ok: "entry_ok e \<and> val_nonempty (val e)" by (rule live_ok [OF assms(1) Some])
  have "slot_ok (get_slot src key)" by (rule store_invD(3) [OF assms(1)])
  then have "store_inv (snd (set_key key (if remove then None else get_slot src key) src))"
    using assms(1) by (intro setkey.inv_if) simp_all
  moreover have "store_inv (snd (set_key key (Some (touch env dst (entry_clone env e))) dst))"
    using assms(2,3) ok by (intro setkey.inv_if) (simp_all add: entry_clone_ok clone_nonempty)
  ultimately show ?thesis using assms Some by (auto simp: TransferKey_eq store_invD split: if_splits)
qed

lemma TransferKey_view:
  assumes "store_inv src" "store_inv dst" "fair_iter env" "TransferKey env key remove replace src dst = (r, src', dst')"
  shows "r \<longleftrightarrow> liveEntry src key (now env) \<noteq> None \<and> (replace \<or> liveEntry dst key (now env) = None)"
    and "\<not> r \<Longrightarrow> src' = src \<and> dst' = dst"
    and "r \<Longrightarrow> \<exists>e e'. get_slot src key = Some e \<and> get_slot dst' key = Some e' \<and> val_eq (val e) (val e') \<and> expireAt e' = expireAt e"
    and "r \<Longrightarrow> get_slot src' key = (if remove then None else get_slot src key)"
    and "k \<noteq> key \<Longrightarrow> get_slot src' k = get_slot src k \<and> get_slot dst' k = get_slot dst k"
proof -
  note w = store_invD(1) [OF assms(1)] store_invD(1) [OF assms(2)]
  note E = assms(4) [unfolded TransferKey_eq [OF w]]
  show "r \<longleftrightarrow> liveEntry src key (now env) \<noteq> None \<and> (replace \<or> liveEntry dst key (now env) = None)"
    "\<not> r \<Longrightarrow> src' = src \<and> dst' = dst" "r \<Longrightarrow> get_slot src' key = (if remove then None else get_slot src key)"
    "k \<noteq> key \<Longrightarrow> get_slot src' k = get_slot src k \<and> get_slot dst' k = get_slot dst k"
    using E by (auto simp: setkey.slot w setkey.frame split: option.splits if_splits)
  show "\<exists>e e'. get_slot src key = Some e \<and> get_slot dst' key = Some e' \<and> val_eq (val e) (val e') \<and> expireAt e' = expireAt e" if r
  proof -
    obtain e where e: "liveEntry src key (now env) = Some e" "dst' = snd (set_key key (Some (touch env dst (entry_clone env e))) dst)"
      using E \<open>r\<close> by (auto split: option.splits if_splits)
    have "entry_ok e" using live_ok [OF assms(1) e(1)] by simp
    then show ?thesis using liveEntry_Some [OF e(1)] clone_val_eq [OF _ assms(3)] clone_nonempty(2) [OF _ assms(3)]
      by (simp add: e(2) setkey.slot w)
  qed
qed

lemma AdoptKey_view:
  assumes "store_inv dst" "store_inv src" "AdoptKey env key replace dst src = (r, dst', src')"
  shows "store_inv dst' \<and> store_inv src'"
    and "r \<longleftrightarrow> get_slot src key \<noteq> None \<and> (replace \<or> liveEntry dst key (now env) = None)"
    and "\<not> r \<Longrightarrow> dst' = dst \<and> src' = src"
    and "r \<Longrightarrow> get_slot src' key = None \<and> rel_option same_value (get_slot src key) (get_slot dst' key)"
proof -
  note w = store_invD(1) [OF assms(1)] store_invD(1) [OF assms(2)]
  note E = assms(3) [unfolded AdoptKey_eq [OF w]]
  have "store_inv (snd (set_key key (Some (touch env dst e)) dst))" if "get_slot src key = Some e" for e
    using store_invD(3) [OF assms(2), of key] that assms(1) by (intro setkey.inv_if) simp_all
  moreover have "store_inv (snd (set_key key None src))" using assms(2) by (intro setkey.inv_if) simp_all
  ultimately show "store_inv dst' \<and> store_inv src'" using E assms(1,2) by (auto split: option.splits if_splits)
  show "r \<longleftrightarrow> get_slot src key \<noteq> None \<and> (replace \<or> liveEntry dst key (now env) = None)"
    "\<not> r \<Longrightarrow> dst' = dst \<and> src' = src"
    "r \<Longrightarrow> get_slot src' key = None \<and> rel_option same_value (get_slot src key) (get_slot dst' key)"
    using E by (auto simp: setkey.slot w split: option.splits if_splits)
qed

subsection \<open>Swapping\<close>

lemma swap_upto:
  assumes "length (shards b) = length (shards a)" "n \<le> length (shards a)"
  shows "fold swap_shard [0..<n] (a, b) =
    (a\<lparr>shards := take n (shards b) @ drop n (shards a),
       mem := mem a + sum_list (map smem (take n (shards b))) - sum_list (map smem (take n (shards a)))\<rparr>,
     b\<lparr>shards := take n (shards a) @ drop n (shards b),
       mem := mem b + sum_list (map smem (take n (shards a))) - sum_list (map smem (take n (shards b)))\<rparr>)"
  using assms(2)
proof (induction n)
  case (Suc n)
  let ?A = "shards a" and ?B = "shards b"
  have n: "n < length ?A" "n < length ?B" using Suc.prems assms(1) by simp_all
  have at: "(take n ?B @ drop n ?A) ! n = ?A ! n" "(take n ?A @ drop n ?B) ! n = ?B ! n"
    using n by (simp_all add: nth_append)
  have up: "(take n ?B @ drop n ?A)[n := v] = take n ?B @ v # drop (Suc n) ?A"
    "(take n ?A @ drop n ?B)[n := v] = take n ?A @ v # drop (Suc n) ?B" for v
    using n by (simp_all add: list_update_append Cons_nth_drop_Suc [symmetric])
  have sh: "x\<lparr>sdata := sdata y, smem := smem y, svolatile := svolatile y\<rparr> = y" for x y :: shard by simp
  have tk: "take (Suc n) ?A = take n ?A @ [?A ! n]" "take (Suc n) ?B = take n ?B @ [?B ! n]"
    using n by (simp_all add: take_Suc_conv_app_nth)
  show ?case using Suc by (simp add: swap_shard_def Let_def at up sh tk)
qed simp

lemma SwapData_eq:
  assumes "mem_inv a" "mem_inv b" "length (shards b) = length (shards a)"
  shows "SwapData a b = (a\<lparr>shards := shards b, mem := mem b\<rparr>, b\<lparr>shards := shards a, mem := mem a\<rparr>)"
  using assms swap_upto [OF assms(3), of "length (shards a)"] by (simp add: SwapData_def mem_inv_def)

lemma SwapData_view:
  assumes "store_inv a" "store_inv b" "length (shards b) = length (shards a)" "SwapData a b = (a', b')"
  shows "get_slot a' k = get_slot b k" "get_slot b' k = get_slot a k"
    and "memTrack a = memTrack b \<Longrightarrow> store_inv a' \<and> store_inv b'"
proof -
  have e: "a' = a\<lparr>shards := shards b, mem := mem b\<rparr>" "b' = b\<lparr>shards := shards a, mem := mem a\<rparr>"
    using SwapData_eq [OF store_invD(2) [OF assms(1)] store_invD(2) [OF assms(2)] assms(3)] assms(4) by simp_all
  obtain n m where "length (shards a) = 2 ^ n" "unat (smask a) = 2 ^ n - 1" "length (shards b) = 2 ^ m" "unat (smask b) = 2 ^ m - 1"
    using store_invD(1) [OF assms(1)] store_invD(1) [OF assms(2)] by (auto simp: store_wf_def)
  then have "unat (smask a) = unat (smask b)" using assms(3) by simp
  then have m: "smask a = smask b" by (simp add: unsigned_word_eqI)
  show g: "get_slot a' k = get_slot b k" "get_slot b' k = get_slot a k"
    by (simp_all add: e get_slot_def getShard_def shardIndex_def m)
  show "memTrack a = memTrack b \<Longrightarrow> store_inv a' \<and> store_inv b'"
    using store_inv_cong(1) [of a' b] store_inv_cong(1) [of b' a] assms(1,2) by (simp add: e m)
qed

end
