(* ===== verification/Evict.thy ===== *)
theory Evict
  imports Databases
begin

text \<open>
  The eviction policies and the sampler of \<open>internal/store/evict.go\<close>, and the key cap of
  \<open>internal/store/store.go\<close>. The lemmas show that a refusal to evict means that there is nothing the
  policy may evict, that a victim is one of its candidates and, when the sample covers the shard, one
  of the lowest rank, and that the cap is reached.
\<close>

subsection \<open>Policies\<close>

fun policyNames :: "EvictionPolicy \<Rightarrow> bytes" where
  "policyNames PolicyNoEviction = ''noeviction''"
| "policyNames PolicyAllKeysLRU = ''allkeys-lru''"
| "policyNames PolicyAllKeysLFU = ''allkeys-lfu''"
| "policyNames PolicyAllKeysRandom = ''allkeys-random''"
| "policyNames PolicyVolatileLRU = ''volatile-lru''"
| "policyNames PolicyVolatileLFU = ''volatile-lfu''"
| "policyNames PolicyVolatileRandom = ''volatile-random''"
| "policyNames PolicyVolatileTTL = ''volatile-ttl''"

definition all_policies :: "EvictionPolicy list" where
  "all_policies =
     [PolicyNoEviction, PolicyAllKeysLRU, PolicyAllKeysLFU, PolicyAllKeysRandom,
      PolicyVolatileLRU, PolicyVolatileLFU, PolicyVolatileRandom, PolicyVolatileTTL]"

text \<open>Lower case where the result is ASCII: the capital letters, the Kelvin sign and the dotted capital I.
  Any other character keeps a byte outside ASCII and so equals no policy name.\<close>

fun ToLower :: "bytes \<Rightarrow> bytes" where
  "ToLower [] = []"
| "ToLower (c # s) =
     (if c = CHR 0xE2 \<and> take 2 s = [CHR 0x84, CHR 0xAA] then CHR ''k'' # ToLower (drop 2 s)
      else if c = CHR 0xC4 \<and> take 1 s = [CHR 0xB0] then CHR ''i'' # ToLower (drop 1 s)
      else (if 65 \<le> (of_char c :: nat) \<and> (of_char c :: nat) \<le> 90 then char_of ((of_char c :: nat) + 32) else c) # ToLower s)"

definition ParseEvictionPolicy :: "bytes \<Rightarrow> EvictionPolicy option" where
  "ParseEvictionPolicy name = (let n = ToLower name in List.find (\<lambda>p. policyNames p = n) all_policies)"

definition Evicts :: "EvictionPolicy \<Rightarrow> bool" where
  "Evicts p \<longleftrightarrow> p \<noteq> PolicyNoEviction"

fun volatileOnly :: "EvictionPolicy \<Rightarrow> bool" where
  "volatileOnly PolicyVolatileLRU = True"
| "volatileOnly PolicyVolatileLFU = True"
| "volatileOnly PolicyVolatileRandom = True"
| "volatileOnly PolicyVolatileTTL = True"
| "volatileOnly _ = False"

fun policy_tracking :: "EvictionPolicy \<Rightarrow> accessTracking" where
  "policy_tracking PolicyAllKeysLFU = trackFrequency"
| "policy_tracking PolicyVolatileLFU = trackFrequency"
| "policy_tracking PolicyAllKeysLRU = trackAccessTime"
| "policy_tracking PolicyVolatileLRU = trackAccessTime"
| "policy_tracking PolicyVolatileTTL = trackAccessTime"
| "policy_tracking _ = trackNothing"

subsection \<open>The access counter of a key\<close>

definition Freq :: "goenv \<Rightarrow> bytes \<Rightarrow> store \<Rightarrow> int option" where
  "Freq env key st =
     map_option (\<lambda>e. uint (lfuCounter (freq e) (lfuMinute (now env)) (lfuDecayTime st))) (liveEntry st key (now env))"

definition SetFreq :: "goenv \<Rightarrow> bytes \<Rightarrow> int \<Rightarrow> store \<Rightarrow> bool \<times> store" where
  "SetFreq env key counter st =
     (case liveEntry st key (now env) of
        None \<Rightarrow> (False, st)
      | Some e \<Rightarrow>
          let c = (if counter < 0 then 0 else counter); c = (if c > 255 then 255 else c)
          in (True, put_slot key (Some (e\<lparr>freq := lfuState (lfuMinute (now env)) (word_of_int c)\<rparr>)) st))"

subsection \<open>The sampler\<close>

definition victim_rank :: "store \<Rightarrow> EvictionPolicy \<Rightarrow> int \<Rightarrow> entry \<Rightarrow> int" where
  "victim_rank st p t e =
     (if p = PolicyAllKeysLFU \<or> p = PolicyVolatileLFU then uint (lfuCounter (freq e) (lfuMinute t) (lfuDecayTime st))
      else if p = PolicyVolatileTTL then wrap64 (the (expireAt e))
      else atime e)"

fun victim_loop :: "store \<Rightarrow> EvictionPolicy \<Rightarrow> int \<Rightarrow> int \<Rightarrow> (bytes, entry) gomap \<Rightarrow> bytes list \<Rightarrow>
    int \<Rightarrow> bytes option \<Rightarrow> int \<Rightarrow> bytes option" where
  "victim_loop st p t samples m [] best victim sampled = victim"
| "victim_loop st p t samples m (k # ks) best victim sampled =
     (let e = the (map_of m k)
      in if volatileOnly p \<and> expireAt e = None then victim_loop st p t samples m ks best victim sampled
         else if expired t e then Some k
         else if p = PolicyAllKeysRandom \<or> p = PolicyVolatileRandom then Some k
         else
           let rank = victim_rank st p t e;
               best' = (if rank < best then rank else best);
               victim' = (if rank < best then Some k else victim)
           in if sampled + 1 \<ge> samples then victim'
              else victim_loop st p t samples m ks best' victim' (sampled + 1))"

definition pickVictim :: "goenv \<Rightarrow> store \<Rightarrow> EvictionPolicy \<Rightarrow> int \<Rightarrow> shard \<Rightarrow> bytes option" where
  "pickVictim env st p samples sh =
     (if length (sdata sh) = 0 then None
      else if volatileOnly p \<and> memTrack st \<and> svolatile sh = 0 then None
      else victim_loop st p (now env) samples (sdata sh) (gkeys env (sdata sh)) max_int64 None 0)"

fun evict_from :: "goenv \<Rightarrow> EvictionPolicy \<Rightarrow> int \<Rightarrow> nat list \<Rightarrow> store \<Rightarrow> (bool \<times> event list) \<times> store" where
  "evict_from env p samples [] st = ((False, []), st)"
| "evict_from env p samples (i # is) st =
     (case pickVictim env st p samples (shards st ! i) of
        None \<Rightarrow> evict_from env p samples is st
      | Some k \<Rightarrow>
          let e = the (map_of (sdata (shards st ! i)) k);
              st' = uncharge k e (put_slot k None st)
          in ((True, [(k, True)]), st'\<lparr>evicted := evicted st' + 1\<rparr>))"

definition EvictOne :: "goenv \<Rightarrow> EvictionPolicy \<Rightarrow> store \<Rightarrow> (bool \<times> event list) \<times> store" where
  "EvictOne env p st =
     (if \<not> Evicts p then ((False, []), st)
      else
        let samples = (if evictSamples st < 1 then 1 else evictSamples st);
            n = length (shards st); start = Intn env 0 n
        in evict_from env p samples (map (\<lambda>i. (start + i) mod n) [0..<n]) st)"

text \<open>The loop of the key cap; every iteration reads the clock and the source of randomness anew.\<close>

fun evict_loop :: "(nat \<Rightarrow> goenv) \<Rightarrow> EvictionPolicy \<Rightarrow> nat \<Rightarrow> nat \<Rightarrow> store \<Rightarrow> event list \<times> store" where
  "evict_loop envs p i 0 st = ([], st)"
| "evict_loop envs p i (Suc n) st =
     (let ((ok, ev), st') = EvictOne (envs i) p st
      in if \<not> ok then (ev, st')
         else (let (ev', st'') = evict_loop envs p (Suc i) n st' in (ev @ ev', st'')))"

definition EvictToLimit :: "(nat \<Rightarrow> goenv) \<Rightarrow> store \<Rightarrow> event list \<times> store" where
  "EvictToLimit envs st =
     (if maxKeys st \<le> 0 then ([], st)
      else
        let p = (if \<not> Evicts (policy st) then PolicyAllKeysLRU else policy st)
        in evict_loop envs p 0 (nat (approxLen st - maxKeys st)) st)"

subsection \<open>Configuration\<close>

definition refreshTracking :: "store \<Rightarrow> store" where
  "refreshTracking st =
     (let mode = (if maxMemory st > 0 then policy_tracking (policy st) else trackNothing);
          mode = (if mode = trackNothing \<and> maxKeys st > 0 then trackAccessTime else mode)
      in st\<lparr>access := mode\<rparr>)"

definition SetMaxKeys :: "int \<Rightarrow> store \<Rightarrow> store" where
  "SetMaxKeys n st = refreshTracking (st\<lparr>maxKeys := (if n < 0 then 0 else n)\<rparr>)"

definition SetMaxMemory :: "goenv \<Rightarrow> int \<Rightarrow> store \<Rightarrow> store" where
  "SetMaxMemory env n st =
     (let n = (if n < 0 then 0 else n); st' = (if n > 0 then TrackMemory env st else st)
      in refreshTracking (st'\<lparr>maxMemory := n\<rparr>))"

definition SetEvictionPolicy :: "EvictionPolicy \<Rightarrow> store \<Rightarrow> store" where
  "SetEvictionPolicy p st = refreshTracking (st\<lparr>policy := p, policySet := True\<rparr>)"

definition SetEvictionSamples :: "int \<Rightarrow> store \<Rightarrow> store" where
  "SetEvictionSamples n st = st\<lparr>evictSamples := (if n < 1 then 1 else n)\<rparr>"

definition SetLFUParams :: "int \<Rightarrow> int \<Rightarrow> store \<Rightarrow> store" where
  "SetLFUParams logFactor decayTime st =
     st\<lparr>lfuLogFactor := (if logFactor < 0 then 0 else logFactor), lfuDecayTime := (if decayTime < 0 then 0 else decayTime)\<rparr>"

subsection \<open>What the sampler may choose\<close>

definition candidate :: "EvictionPolicy \<Rightarrow> entry \<Rightarrow> bool" where
  "candidate p e \<longleftrightarrow> (volatileOnly p \<longrightarrow> expireAt e \<noteq> None)"

text \<open>Every candidate ranks below the largest integer, the value the search starts from.\<close>

definition rankable :: "store \<Rightarrow> EvictionPolicy \<Rightarrow> int \<Rightarrow> bool" where
  "rankable st p t \<longleftrightarrow> (\<forall>k e. get_slot st k = Some e \<longrightarrow> candidate p e \<longrightarrow> victim_rank st p t e < max_int64)"

lemma rankable_LFU: "p = PolicyAllKeysLFU \<or> p = PolicyVolatileLFU \<Longrightarrow> rankable st p t"
proof -
  have "uint (c :: 8 word) < max_int64" for c
    using uint_lt2p [of c] by simp
  then show "p = PolicyAllKeysLFU \<or> p = PolicyVolatileLFU \<Longrightarrow> rankable st p t"
    by (simp add: rankable_def victim_rank_def)
qed

lemma victim_loop_some:
  "victim_loop st p t n m ks best v s = Some k \<Longrightarrow> v = Some k \<or> (k \<in> set ks \<and> candidate p (the (map_of m k)))"
proof (induction ks arbitrary: best v s)
  case (Cons a ks)
  show ?case using Cons.prems Cons.IH
    by (simp add: Let_def candidate_def split: if_splits) blast+
qed simp

lemma victim_loop_keeps: "v \<noteq> None \<Longrightarrow> victim_loop st p t n m ks best v s \<noteq> None"
proof (induction ks arbitrary: best v s)
  case (Cons a ks)
  then show ?case by (simp add: Let_def)
qed simp

lemma victim_loop_none:
  assumes "victim_loop st p t n m ks max_int64 None s = None"
    and "\<And>k. k \<in> set ks \<Longrightarrow> candidate p (the (map_of m k)) \<Longrightarrow> victim_rank st p t (the (map_of m k)) < max_int64"
  shows "k \<in> set ks \<Longrightarrow> \<not> candidate p (the (map_of m k))"
  using assms
proof (induction ks)
  case (Cons a ks)
  have "\<not> candidate p (the (map_of m a))"
  proof
    assume c: "candidate p (the (map_of m a))"
    with Cons.prems(3) [of a] have "victim_rank st p t (the (map_of m a)) < max_int64" by simp
    with c Cons.prems(2) show False
      by (auto simp: Let_def candidate_def victim_loop_keeps split: if_splits)
  qed
  moreover from this have "victim_loop st p t n m ks max_int64 None s = None"
    using Cons.prems(2) by (simp add: candidate_def)
  ultimately show ?case using Cons.IH Cons.prems(1,3) by auto
qed simp

text \<open>When the sample covers the candidates the victim is one of the lowest rank.\<close>

lemma victim_loop_best:
  assumes "victim_loop st p t n m ks best v s = Some k"
    and "p \<noteq> PolicyAllKeysRandom" "p \<noteq> PolicyVolatileRandom"
    and "\<And>k. k \<in> set ks \<Longrightarrow> candidate p (the (map_of m k)) \<Longrightarrow> \<not> expired t (the (map_of m k))"
    and "s + int (length (filter (\<lambda>k. candidate p (the (map_of m k))) ks)) \<le> n"
    and "\<And>k. v = Some k \<Longrightarrow> victim_rank st p t (the (map_of m k)) = best"
  defines "r \<equiv> victim_rank st p t (the (map_of m k))"
  shows "r \<le> best \<and>
    (\<forall>k' \<in> set ks. candidate p (the (map_of m k')) \<longrightarrow> r \<le> victim_rank st p t (the (map_of m k')))"
  using assms(1,4-6) unfolding r_def
proof (induction ks arbitrary: best v s)
  case (Cons a ks)
  let ?e = "the (map_of m a)" and ?R = "\<lambda>k. victim_rank st p t (the (map_of m k))"
  show ?case
  proof (cases "candidate p ?e")
    case False
    then have "\<not> \<not> (volatileOnly p \<and> expireAt ?e = None)" by (simp add: candidate_def)
    then show ?thesis using Cons.IH [of best v s] Cons.prems False by simp
  next
    case True
    have x: "\<not> expired t ?e" using Cons.prems(2) True by simp
    let ?b = "if ?R a < best then ?R a else best" and ?v = "if ?R a < best then Some a else v"
    have step: "victim_loop st p t n m (a # ks) best v s =
        (if s + 1 \<ge> n then ?v else victim_loop st p t n m ks ?b ?v (s + 1))"
      using True x assms(2,3) by (auto simp: candidate_def Let_def)
    have inv: "\<And>k. ?v = Some k \<Longrightarrow> ?R k = ?b" using Cons.prems(4) by (auto split: if_splits)
    show ?thesis
    proof (cases "s + 1 \<ge> n")
      case stop: True
      then have "length (filter (\<lambda>k. candidate p (the (map_of m k))) ks) = 0"
        using Cons.prems(3) True by (simp del: length_0_conv)
      then have none: "\<forall>k' \<in> set ks. \<not> candidate p (the (map_of m k'))" by (simp only: length_0_conv filter_empty_conv)
      have "?v = Some k" using Cons.prems(1) step stop by simp
      then show ?thesis using none inv [of k] Cons.prems(4) [of k] by (auto split: if_splits)
    next
      case False
      then have l: "victim_loop st p t n m ks ?b ?v (s + 1) = Some k" using Cons.prems(1) step by simp
      have x: "\<not> expired t (the (map_of m k'))" if "k' \<in> set ks" "candidate p (the (map_of m k'))" for k'
        using Cons.prems(2) that by simp
      have n: "s + 1 + int (length (filter (\<lambda>k. candidate p (the (map_of m k))) ks)) \<le> n"
        using Cons.prems(3) True by simp
      have "?R k \<le> ?b \<and> (\<forall>k' \<in> set ks. candidate p (the (map_of m k')) \<longrightarrow> ?R k \<le> ?R k')"
        by (rule Cons.IH [OF l x n inv])
      then show ?thesis using inv [of k] Cons.prems(4) [of k] by (auto split: if_splits)
    qed
  qed
qed auto

lemma sum_volatile: "gsum entryVolatile m = 0 \<Longrightarrow> (k, e) \<in> set m \<Longrightarrow> expireAt e = None"
proof (induction m)
  case (Cons a m)
  obtain k' e' where a: "a = (k', e')" by (cases a)
  have "0 \<le> gsum entryVolatile m" by (auto simp: gsum_def entryVolatile_def intro!: sum_list_nonneg)
  moreover have "0 \<le> entryVolatile k' e'" by (simp add: entryVolatile_def)
  ultimately have "entryVolatile k' e' = 0 \<and> gsum entryVolatile m = 0" using Cons.prems(1) a by simp
  then show ?case using Cons a by (auto simp: entryVolatile_def split: if_splits)
qed simp

lemma pickVictim_some:
  assumes "fair_iter env" "gmap_wf (sdata sh)" "pickVictim env st p n sh = Some k"
  obtains e where "map_of (sdata sh) k = Some e" "candidate p e"
proof -
  have "k \<in> set (gkeys env (sdata sh))" "candidate p (the (map_of (sdata sh) k))"
    using assms(3) by (auto simp: pickVictim_def dest!: victim_loop_some split: if_splits)
  moreover from this obtain e where "(k, e) \<in> set (sdata sh)"
    by (auto simp: gkeys_props(1) [OF assms(1)])
  ultimately show thesis using assms(2) by (intro that [of e]) (simp_all add: gmap_wf_lookup)
qed

lemma pickVictim_none:
  assumes "fair_iter env" "gmap_wf (sdata sh)" "pickVictim env st p n sh = None"
    and "memTrack st \<Longrightarrow> svolatile sh = gsum entryVolatile (sdata sh)"
    and "\<And>k e. map_of (sdata sh) k = Some e \<Longrightarrow> candidate p e \<Longrightarrow> victim_rank st p (now env) e < max_int64"
    and e: "map_of (sdata sh) k = Some e"
  shows "\<not> candidate p e"
proof (cases "volatileOnly p \<and> memTrack st \<and> svolatile sh = 0")
  case True
  then have "gsum entryVolatile (sdata sh) = 0" using assms(4) by simp
  then show ?thesis using sum_volatile [OF _ map_of_SomeD [OF e]] True by (simp add: candidate_def)
next
  case False
  then have l: "victim_loop st p (now env) n (sdata sh) (gkeys env (sdata sh)) max_int64 None 0 = None"
    using assms(3) e by (auto simp: pickVictim_def split: if_splits)
  have k: "k' \<in> set (gkeys env (sdata sh)) \<longleftrightarrow> map_of (sdata sh) k' \<noteq> None" for k'
    by (simp add: gkeys_props(1) [OF assms(1)] map_of_eq_None_iff)
  have "\<not> candidate p (the (map_of (sdata sh) k))"
    by (rule victim_loop_none [OF l]) (use k e assms(5) in auto)
  then show ?thesis using e by simp
qed

subsection \<open>One eviction\<close>

lemma set_key_sdata:
  assumes "store_wf st"
  shows "map sdata (shards (snd (set_key k v st))) =
    (map sdata (shards st))[shardIndex st k := gset k v (sdata (getShard st k))]"
proof (rule nth_equalityI)
  fix i assume "i < length (map sdata (shards (snd (set_key k v st))))"
  then have i: "i < length (shards st)" by (simp flip: settle_set_key)
  have "sdata (shards (snd (set_key k v st)) ! i) = sdata (shards (put_slot k v st) ! i)"
  proof (cases "memTrack st")
    case True
    then show ?thesis using settle_shard(1) [OF put_slot_wf [OF assms], of k v i k "charge st k"] i
      by (simp flip: settle_set_key)
  next
    case False
    then show ?thesis by (simp add: settle_def flip: settle_set_key)
  qed
  then show "map sdata (shards (snd (set_key k v st))) ! i =
      (map sdata (shards st))[shardIndex st k := gset k v (sdata (getShard st k))] ! i"
    using i by (simp add: shards_put_slot [OF assms] nth_list_update getShard_def flip: settle_set_key)
qed (simp flip: settle_set_key)

lemma approxLen_sum: "approxLen st = int (sum_list (map length (map sdata (shards st))))"
proof -
  have "approxLen st = sum_list (map (\<lambda>sh. int (length (sdata sh))) (shards st))"
    unfolding approxLen_def by (subst fold_shards) simp
  moreover have "sum_list (map (\<lambda>sh. int (length (sdata sh))) shs) = int (sum_list (map length (map sdata shs)))" for shs :: "shard list"
    by (induction shs) simp_all
  ultimately show ?thesis by simp
qed

lemma approxLen_drop:
  assumes "store_wf st" "get_slot st k = Some e"
  shows "approxLen (snd (set_key k None st)) = approxLen st - 1"
proof -
  let ?i = "shardIndex st k" and ?L = "map length (map sdata (shards st))"
  have i: "?i < length (shards st)" by (rule shardIndex_bound [OF assms(1)])
  have l: "length (gdel k (sdata (getShard st k))) = ?L ! ?i - 1" "0 < ?L ! ?i"
    using length_gdel [OF wf_gmap [OF assms(1) i], of k] assms(2) i by (auto simp: get_slot_def getShard_def)
  have "map length (map sdata (shards (snd (set_key k None st)))) = ?L[?i := ?L ! ?i - 1]"
    by (simp only: set_key_sdata [OF assms(1)] gset_simps map_update l(1))
  then have "sum_list (map length (map sdata (shards (snd (set_key k None st))))) = sum_list ?L + (?L ! ?i - 1) - ?L ! ?i"
    by (simp only: sum_list_update i length_map)
  moreover have "?L ! ?i \<le> sum_list ?L" by (rule elem_le_sum_list) (simp add: i)
  ultimately show ?thesis using l(2) unfolding approxLen_sum by linarith
qed

text \<open>What one eviction does: it removes one candidate and counts it, or changes nothing.\<close>

definition evicts_key :: "EvictionPolicy \<Rightarrow> bytes \<Rightarrow> store \<Rightarrow> store \<Rightarrow> bool" where
  "evicts_key p k st st' \<longleftrightarrow>
     (\<exists>e. get_slot st k = Some e \<and> candidate p e) \<and>
     st' = (snd (set_key k None st))\<lparr>evicted := evicted (snd (set_key k None st)) + 1\<rparr>"

lemma evict_from_cases:
  assumes "store_wf st" "fair_iter env" "\<And>i. i \<in> set is \<Longrightarrow> i < length (shards st)"
    and "evict_from env p n is st = ((ok, ev), st')"
  shows "(\<not> ok \<and> ev = [] \<and> st' = st \<and> (\<forall>i \<in> set is. pickVictim env st p n (shards st ! i) = None)) \<or>
    (ok \<and> (\<exists>k. ev = [(k, True)] \<and> evicts_key p k st st'))"
  using assms(3,4)
proof (induction "is")
  case (Cons i "is")
  show ?case
  proof (cases "pickVictim env st p n (shards st ! i)")
    case None
    then show ?thesis using Cons by simp
  next
    case (Some k)
    have i: "i < length (shards st)" using Cons.prems(1) by simp
    obtain e where e: "map_of (sdata (shards st ! i)) k = Some e" "candidate p e"
      by (rule pickVictim_some [OF assms(2) wf_gmap [OF assms(1) i] Some])
    have "shardIndex st k = i" by (rule wf_index [OF assms(1) i]) (simp add: e)
    then have g: "get_slot st k = Some e" using e(1) by (simp add: slot_shard)
    have "ok \<and> ev = [(k, True)] \<and> evicts_key p k st st'"
      using Cons.prems(2) Some e g
      by (auto simp: Let_def uncharge_settle [OF assms(1) g] settle_set_key evicts_key_def)
    then show ?thesis by blast
  qed
qed simp

lemma evicts_key_props:
  assumes "evicts_key p k st st'" "store_inv st"
  shows "store_inv st'" "get_slot st' k = None" "\<And>k'. k' \<noteq> k \<Longrightarrow> get_slot st' k' = get_slot st k'"
    "approxLen st' = approxLen st - 1" "lfuDecayTime st' = lfuDecayTime st" "maxKeys st' = maxKeys st"
proof -
  let ?S = "snd (set_key k None st)"
  have st': "st' = ?S\<lparr>evicted := evicted ?S + 1\<rparr>" using assms(1) by (simp add: evicts_key_def)
  obtain e where e: "get_slot st k = Some e" using assms(1) by (auto simp: evicts_key_def)
  note w = store_invD(1) [OF assms(2)]
  have c: "store_inv st' = store_inv ?S" "get_slot st' k' = get_slot ?S k'" for k'
    unfolding st' by (rule store_inv_cong; simp)+
  show "store_inv st'" unfolding c by (rule setkey.inv_if) (simp_all add: assms(2))
  show "get_slot st' k = None" "\<And>k'. k' \<noteq> k \<Longrightarrow> get_slot st' k' = get_slot st k'"
    unfolding c by (simp_all add: setkey.slot [OF w] setkey.frame [OF w])
  have "approxLen st' = approxLen ?S" by (simp add: st' approxLen_def)
  then show "approxLen st' = approxLen st - 1" by (simp add: approxLen_drop [OF w e])
  show "lfuDecayTime st' = lfuDecayTime st" "maxKeys st' = maxKeys st"
    using restD [OF setkey.rest_same [OF w, of k None]] by (simp_all add: st')
qed

lemma all_shards_visited:
  "j < n \<Longrightarrow> 0 < n \<Longrightarrow> j \<in> set (map (\<lambda>i. (Intn env 0 n + i) mod n) [0..<n])"
proof -
  assume j: "j < n" "0 < n"
  let ?s = "Intn env 0 n" and ?i = "(j + (n - Intn env 0 n)) mod n"
  have "(?s + ?i) mod n = (?s + (j + (n - ?s))) mod n" by (simp only: mod_add_right_eq)
  also have "\<dots> = j" using j Intn_less [OF j(2), of env 0] by simp
  finally have "j = (?s + ?i) mod n" by simp
  then show ?thesis using j by (auto intro!: image_eqI [of _ _ ?i])
qed

lemma EvictOne_result:
  assumes "store_inv st" "fair_iter env" "EvictOne env p st = ((ok, ev), st')"
  shows "ok \<Longrightarrow> \<exists>k. ev = [(k, True)] \<and> evicts_key p k st st'"
    and "\<not> ok \<Longrightarrow> ev = [] \<and> st' = st"
    and "\<not> ok \<Longrightarrow> Evicts p \<Longrightarrow> rankable st p (now env) \<Longrightarrow> get_slot st k = Some e \<Longrightarrow> \<not> candidate p e"
proof -
  note w = store_invD(1) [OF assms(1)]
  let ?N = "length (shards st)" and ?n = "if evictSamples st < 1 then 1 else evictSamples st"
  let ?is = "map (\<lambda>i. (Intn env 0 ?N + i) mod ?N) [0..<?N]"
  have N: "0 < ?N" using shardIndex_bound [OF w, of k] by linarith
  have E: "evict_from env p ?n ?is st = ((ok, ev), st')" if "Evicts p" using assms(3) that by (simp add: EvictOne_def Let_def)
  have b: "i < ?N" if "i \<in> set ?is" for i using that N by auto
  note C = evict_from_cases [OF w assms(2) b E]
  show "ok \<Longrightarrow> \<exists>k. ev = [(k, True)] \<and> evicts_key p k st st'" "\<not> ok \<Longrightarrow> ev = [] \<and> st' = st"
    using C assms(3) by (cases "Evicts p"; simp add: EvictOne_def; blast)+
  assume a: "\<not> ok" "Evicts p" "rankable st p (now env)" "get_slot st k = Some e"
  let ?j = "shardIndex st k"
  have j: "?j < ?N" by (rule shardIndex_bound [OF w])
  have "\<forall>i \<in> set ?is. pickVictim env st p ?n (shards st ! i) = None" using C [OF _ a(2)] a(1) by blast
  then have pv: "pickVictim env st p ?n (shards st ! ?j) = None" using all_shards_visited [OF j N] by blast
  have r: "victim_rank st p (now env) e' < max_int64"
    if m: "map_of (sdata (shards st ! ?j)) k' = Some e'" "candidate p e'" for k' e'
  proof -
    have "shardIndex st k' = ?j" by (rule wf_index [OF w j]) (simp add: m)
    then have "get_slot st k' = Some e'" using m by (simp add: slot_shard)
    then show ?thesis using a(3) m(2) by (auto simp: rankable_def)
  qed
  have v: "svolatile (shards st ! ?j) = gsum entryVolatile (sdata (shards st ! ?j))" if "memTrack st"
    using store_invD(2) [OF assms(1)] that j by (simp add: mem_inv_def)
  have m: "map_of (sdata (shards st ! ?j)) k = Some e" using a(4) by (simp add: slot_shard)
  show "\<not> candidate p e" by (rule pickVictim_none [OF assms(2) wf_gmap [OF w j] pv v r m])
qed

lemma EvictOne_inv:
  assumes "store_inv st" "fair_iter env"
  shows "store_inv (snd (EvictOne env p st))"
proof -
  obtain ok ev st' where E: "EvictOne env p st = ((ok, ev), st')" by (metis prod.exhaust)
  show ?thesis
  proof (cases ok)
    case True
    then obtain k where "evicts_key p k st st'" using EvictOne_result(1) [OF assms E] by blast
    then show ?thesis using evicts_key_props(1) [OF _ assms(1)] E by simp
  next
    case False
    then show ?thesis using EvictOne_result(2) [OF assms E] assms(1) E by simp
  qed
qed

text \<open>A sample that covers its shard takes a candidate of the lowest rank.\<close>

lemma pickVictim_best:
  assumes "fair_iter env" "gmap_wf (sdata sh)" "pickVictim env st p n sh = Some k"
    and "p \<noteq> PolicyAllKeysRandom" "p \<noteq> PolicyVolatileRandom" "int (length (sdata sh)) \<le> n"
    and "\<And>k e. map_of (sdata sh) k = Some e \<Longrightarrow> candidate p e \<Longrightarrow> \<not> expired (now env) e"
    and "map_of (sdata sh) k' = Some e'" "candidate p e'"
  shows "victim_rank st p (now env) (the (map_of (sdata sh) k)) \<le> victim_rank st p (now env) e'"
proof -
  have l: "victim_loop st p (now env) n (sdata sh) (gkeys env (sdata sh)) max_int64 None 0 = Some k"
    using assms(3) by (auto simp: pickVictim_def split: if_splits)
  have ks: "x \<in> set (gkeys env (sdata sh)) \<longleftrightarrow> map_of (sdata sh) x \<noteq> None" for x
    by (simp add: gkeys_props(1) [OF assms(1)] map_of_eq_None_iff)
  have n: "0 + int (length (filter (\<lambda>k. candidate p (the (map_of (sdata sh) k))) (gkeys env (sdata sh)))) \<le> n"
    using length_filter_le [of "\<lambda>k. candidate p (the (map_of (sdata sh) k))" "gkeys env (sdata sh)"]
      gkeys_props(3) [OF assms(1), of "sdata sh"] assms(6) by linarith
  have "\<forall>x \<in> set (gkeys env (sdata sh)). candidate p (the (map_of (sdata sh) x)) \<longrightarrow>
      victim_rank st p (now env) (the (map_of (sdata sh) k)) \<le> victim_rank st p (now env) (the (map_of (sdata sh) x))"
    using victim_loop_best [OF l assms(4,5) _ n] ks assms(7) by auto
  then show ?thesis using ks [of k'] assms(8,9) by auto
qed

subsection \<open>The key cap\<close>

lemma rankable_mono:
  assumes "evicts_key p k st st'" "store_inv st" "rankable st p t"
  shows "rankable st' p t"
proof -
  note P = evicts_key_props [OF assms(1,2)]
  have "get_slot st' k' = Some e \<Longrightarrow> get_slot st k' = Some e" for k' e using P(2,3) by (cases "k' = k") auto
  moreover have "victim_rank st' p t e = victim_rank st p t e" for e by (simp add: victim_rank_def P(5))
  ultimately show ?thesis using assms(3) unfolding rankable_def by metis
qed

lemma evict_loop_result:
  assumes "store_inv st" "\<And>i. fair_iter (envs i)" "\<And>i. rankable st p (now (envs i))" "Evicts p"
    and "evict_loop envs p i n st = (ev, st')"
  shows "store_inv st' \<and> length ev \<le> n \<and> approxLen st' = approxLen st - int (length ev) \<and>
    (length ev = n \<or> (\<forall>k e. get_slot st' k = Some e \<longrightarrow> \<not> candidate p e)) \<and>
    (\<forall>k. get_slot st' k \<noteq> get_slot st k \<longrightarrow> (k, True) \<in> set ev \<and> get_slot st' k = None \<and>
       (\<exists>e. get_slot st k = Some e \<and> candidate p e))"
  using assms(1,3,5)
proof (induction n arbitrary: i st ev)
  case (Suc n)
  obtain ok ev1 st1 where E: "EvictOne (envs i) p st = ((ok, ev1), st1)" by (metis prod.exhaust)
  note R = EvictOne_result [OF Suc.prems(1) assms(2) E]
  show ?case
  proof (cases ok)
    case False
    then show ?thesis using R(2,3) Suc.prems assms(4) E by (auto simp: Let_def)
  next
    case True
    obtain ev2 where L: "evict_loop envs p (Suc i) n st1 = (ev2, st')" "ev = ev1 @ ev2"
      using Suc.prems(3) E True by (auto simp: Let_def split: prod.splits)
    obtain k where k: "ev1 = [(k, True)]" "evicts_key p k st st1" using R(1) True by blast
    note P = evicts_key_props [OF k(2) Suc.prems(1)]
    have IH: "store_inv st' \<and> length ev2 \<le> n \<and> approxLen st' = approxLen st1 - int (length ev2) \<and>
        (length ev2 = n \<or> (\<forall>k e. get_slot st' k = Some e \<longrightarrow> \<not> candidate p e)) \<and>
        (\<forall>k. get_slot st' k \<noteq> get_slot st1 k \<longrightarrow> (k, True) \<in> set ev2 \<and> get_slot st' k = None \<and>
          (\<exists>e. get_slot st1 k = Some e \<and> candidate p e))"
      by (rule Suc.IH [OF P(1) rankable_mono [OF k(2) Suc.prems(1,2)] L(1)])
    have "(k', True) \<in> set ev \<and> get_slot st' k' = None \<and> (\<exists>e. get_slot st k' = Some e \<and> candidate p e)"
      if "get_slot st' k' \<noteq> get_slot st k'" for k'
    proof (cases "k' = k")
      case True
      have "get_slot st' k = None"
      proof (rule ccontr)
        assume "get_slot st' k \<noteq> None"
        then show False using IH P(2) by metis
      qed
      then show ?thesis using True k L(2) by (simp add: evicts_key_def)
    next
      case False
      note same = P(3) [OF False]
      have "get_slot st' k' \<noteq> get_slot st1 k'" using that by (simp add: same)
      then have "(k', True) \<in> set ev2 \<and> get_slot st' k' = None \<and> (\<exists>e. get_slot st1 k' = Some e \<and> candidate p e)"
        using IH by blast
      then show ?thesis by (simp add: same L(2))
    qed
    then show ?thesis using IH P(4) k(1) L(2) by auto
  qed
qed simp

lemma EvictToLimit_bound:
  assumes "store_inv st" "\<And>i. fair_iter (envs i)" "0 < maxKeys st"
    and "p = (if Evicts (policy st) then policy st else PolicyAllKeysLRU)"
    and "\<And>i. rankable st p (now (envs i))" "EvictToLimit envs st = (ev, st')"
  shows "store_inv st'" "approxLen st' \<le> maxKeys st \<or> (\<forall>k e. get_slot st' k = Some e \<longrightarrow> \<not> candidate p e)"
    "approxLen st' = approxLen st - int (length ev)" "maxKeys st \<le> approxLen st' \<or> st' = st"
proof -
  have E: "evict_loop envs p 0 (nat (approxLen st - maxKeys st)) st = (ev, st')"
    using assms(3,4,6) by (simp add: EvictToLimit_def Let_def split: if_splits)
  have "Evicts p" using assms(4) by (simp add: Evicts_def)
  note R = evict_loop_result [OF assms(1,2,5) this E]
  show "store_inv st'" "approxLen st' = approxLen st - int (length ev)" using R by simp_all
  show "approxLen st' \<le> maxKeys st \<or> (\<forall>k e. get_slot st' k = Some e \<longrightarrow> \<not> candidate p e)"
  proof (cases "length ev = nat (approxLen st - maxKeys st)")
    case True
    then have "approxLen st' \<le> maxKeys st" using R by linarith
    then show ?thesis ..
  next
    case False
    then show ?thesis using R by blast
  qed
  show "maxKeys st \<le> approxLen st' \<or> st' = st"
  proof (cases "approxLen st \<le> maxKeys st")
    case True
    then show ?thesis using E by simp
  next
    case False
    then show ?thesis using R by linarith
  qed
qed

subsection \<open>Names\<close>

lemma policyNames_inj: "policyNames p = policyNames q \<longleftrightarrow> p = q"
  by (cases p; cases q) simp_all

lemma ParseEvictionPolicy_names: "ParseEvictionPolicy (policyNames p) = Some p"
  by (induct p; code_simp)

lemma refreshTracking_inv [simp]: "store_inv (refreshTracking st) = store_inv st"
  by (rule store_inv_cong(1)) (simp_all add: refreshTracking_def Let_def)

lemma limits_inv [simp]:
  "store_inv (st\<lparr>maxKeys := n\<rparr>) = store_inv st" "store_inv (st\<lparr>maxMemory := n\<rparr>) = store_inv st"
  "store_inv (st\<lparr>policy := p, policySet := b\<rparr>) = store_inv st" "store_inv (st\<lparr>evictSamples := n\<rparr>) = store_inv st"
  "store_inv (st\<lparr>lfuLogFactor := n, lfuDecayTime := d\<rparr>) = store_inv st"
  by (rule store_inv_cong(1); simp)+

lemma configuration_inv:
  "store_inv st \<Longrightarrow> store_inv (SetMaxKeys n st)" "store_inv st \<Longrightarrow> store_inv (SetEvictionPolicy p st)"
  "store_inv st \<Longrightarrow> store_inv (SetEvictionSamples n st)" "store_inv st \<Longrightarrow> store_inv (SetLFUParams f d st)"
  by (simp_all add: SetMaxKeys_def SetEvictionPolicy_def SetEvictionSamples_def SetLFUParams_def)

lemma SetFreq_result:
  assumes "store_inv st" "SetFreq env key c st = (ok, st')"
  shows "store_inv st'" "ok \<longleftrightarrow> liveEntry st key (now env) \<noteq> None"
    "ok \<Longrightarrow> Freq env key st' = Some (max 0 (min 255 c))"
proof -
  show "ok \<longleftrightarrow> liveEntry st key (now env) \<noteq> None" using assms(2) by (auto simp: SetFreq_def Let_def split: option.splits)
  have "store_inv (snd (SetFreq env key c st))" using assms(1)
    by (auto simp: SetFreq_def Let_def same_value_def dest: liveEntry_Some intro!: put_same_inv split: option.split)
  then show "store_inv st'" using assms(2) by simp
  have c: "uint (word_of_int (min 255 (max 0 c)) :: 8 word) = max 0 (min 255 c)" by (auto simp: uint_word_of_int_eq take_bit_int_eq_self)
  assume ok
  then obtain e where e: "liveEntry st key (now env) = Some e" using \<open>ok \<longleftrightarrow> _\<close> by blast
  define n where "n = min 255 (max 0 c)"
  have n: "(let c = (if c < 0 then 0 else c) in if c > 255 then 255 else c) = n" by (simp add: n_def Let_def)
  have st': "st' = put_slot key (Some (e\<lparr>freq := lfuState (lfuMinute (now env)) (word_of_int n)\<rparr>)) st"
    using assms(2) e n by (simp add: SetFreq_def Let_def del: if_split)
  have "liveEntry st' key (now env) = Some (e\<lparr>freq := lfuState (lfuMinute (now env)) (word_of_int n)\<rparr>)"
    using liveEntry_Some [OF e] store_invD(1) [OF assms(1)]
    by (simp add: st' liveEntry_def get_put_slot liveSlot_def expired_def)
  then show "Freq env key st' = Some (max 0 (min 255 c))"
    using c by (simp add: Freq_def lfuCounter_fresh n_def)
qed

end
