(* ===== verification/StreamOps.thy ===== *)
theory StreamOps
  imports Evict
begin

text \<open>
  The stream log operations of \<open>internal/store/stream.go\<close>. A stream write does not declare its key to the
  byte accounting, so it is a plain slot update (\<open>mutate_key\<close>): the keyspace stays well formed, and the
  accounting stays exact unless the write creates or drops the key while the accounting runs.
  The lemmas show that added ids grow, that ranges and reads are the entries between their bounds,
  and what deletion, trimming and \<open>XSetID\<close> leave.
\<close>

subsection \<open>Writes that the accounting does not see\<close>

definition mutate_key :: "bytes \<Rightarrow> (entry option \<Rightarrow> entry option \<times> 'r) \<Rightarrow> store \<Rightarrow> 'r \<times> store" where
  "mutate_key key body st = (let (slot, r) = body (get_slot st key) in (r, put_slot key slot st))"

definition slot_cost :: "entry option \<Rightarrow> (int \<times> bool) option" where
  "slot_cost slot = map_option (\<lambda>e. (entryPayload e, expireAt e \<noteq> None)) slot"

text \<open>What holds of a store whatever its byte counts are.\<close>

definition store_ok :: "store \<Rightarrow> bool" where
  "store_ok st \<longleftrightarrow> store_wf st \<and> totals_ok st \<and> (\<forall>k. slot_ok (get_slot st k))"

lemma store_inv_ok: "store_inv st \<Longrightarrow> store_ok st"
  by (simp add: store_ok_def store_inv_def totals_ok_def mem_inv_def)

lemma store_ok_heals: "store_ok st \<Longrightarrow> fair_iter env \<Longrightarrow> store_inv (snd (maintain env ex st))"
  by (rule maintain_heals) (simp_all add: store_ok_def)

lemma chargeOf_slot_cost:
  "chargeOf st k =
     (case slot_cost (get_slot st k) of
        None \<Rightarrow> noCost
      | Some (p, v) \<Rightarrow> \<lparr>kcBytes = memEntryOverhead + int (length k) + p, kcVolatile = v, kcPresent = True\<rparr>)"
  by (cases "get_slot st k") (simp_all add: chargeOf_def slot_cost_def entryCharge_def)

lemma mutate_key_write:
  assumes "store_wf st" "\<not> memTrack st \<or> slot_cost (fst (body (get_slot st key))) = slot_cost (get_slot st key)"
  shows "mutate_key key body st = write_key key body st"
proof -
  let ?T = "put_slot key (fst (body (get_slot st key))) st"
  have "settle key (charge st key) ?T = ?T"
  proof (cases "memTrack st")
    case True
    have "chargeOf ?T key = chargeOf st key"
      using assms True by (simp add: chargeOf_slot_cost get_put_slot)
    then show ?thesis using True assms(1) by (intro settle_unchanged) (simp_all add: put_slot_wf charge_def)
  next
    case False
    then show ?thesis by (simp add: settle_def)
  qed
  then show ?thesis by (simp add: mutate_key_def write_key_def Let_def split_def)
qed

locale key_mutator =
  fixes op :: "store \<Rightarrow> 'r \<times> store" and key :: bytes
    and body :: "store \<Rightarrow> entry option \<Rightarrow> entry option \<times> 'r"
  assumes op_eq: "op st = mutate_key key (body st) st"
    and body_ok: "slot_ok slot \<Longrightarrow> slot_ok (fst (body st slot))"
begin

lemma result: "fst (op st) = snd (body st (get_slot st key))"
  by (simp add: op_eq mutate_key_def Let_def split_def)

lemma slot: "store_wf st \<Longrightarrow> get_slot (snd (op st)) key = fst (body st (get_slot st key))"
  by (simp add: op_eq mutate_key_def Let_def split_def get_put_slot)

lemma frame: "store_wf st \<Longrightarrow> k \<noteq> key \<Longrightarrow> get_slot (snd (op st)) k = get_slot st k"
  by (simp add: op_eq mutate_key_def Let_def split_def get_put_slot)

lemma ok:
  assumes "store_ok st"
  shows "store_ok (snd (op st))"
proof -
  have w: "store_wf st" using assms by (simp add: store_ok_def)
  let ?T = "put_slot key (fst (body st (get_slot st key))) st"
  have "map smem (shards ?T) = map smem (shards st)"
    by (rule nth_equalityI) (simp_all add: shards_put_slot [OF w])
  then show ?thesis using assms
    by (simp add: op_eq mutate_key_def Let_def split_def store_ok_def put_slot_wf get_put_slot totals_ok_def body_ok)
qed

lemma inv:
  assumes "store_inv st" "\<not> memTrack st \<or> slot_cost (fst (body st (get_slot st key))) = slot_cost (get_slot st key)"
  shows "store_inv (snd (op st))"
proof -
  note w = store_invD(1) [OF assms(1)]
  have "op st = write_key key (body st) st" unfolding op_eq using assms(2) by (rule mutate_key_write [OF w])
  then show ?thesis using assms(1) body_ok by (simp add: store_inv_def write_key_props write_key_mem)
qed

end

subsection \<open>Errors and options\<close>

datatype stream_error =
    StoreErr error | ErrStreamIDSmaller | ErrStreamIDExhausted | ErrStreamSetIDSmaller
  | ErrNoGroup | ErrBusyGroup | ErrNoSuchStreamKey

type_synonym 'a sres = "stream_error + 'a"

record XAddOptions =
  addID :: StreamID
  Auto :: bool
  AutoSeq :: bool
  NoMkStream :: bool
  Trim :: TrimOptions

record XSetIDOptions =
  HasEntriesAdded :: bool
  EntriesAdded :: int
  HasMaxDeleted :: bool
  MaxDeleted :: StreamID

subsection \<open>Appending\<close>

definition xadd_id :: "int \<Rightarrow> XAddOptions \<Rightarrow> stream \<Rightarrow> StreamID sres" where
  "xadd_id nowMs o' x =
     (if Auto o' then (case nextID nowMs x of None \<Rightarrow> Inl ErrStreamIDExhausted | Some i \<Rightarrow> Inr i)
      else if AutoSeq o' then (case seqForMs (Ms (addID o')) x of None \<Rightarrow> Inl ErrStreamIDSmaller | Some i \<Rightarrow> Inr i)
      else if addID o' = zeroStreamID then Inl ErrStreamIDSmaller
      else if (entries x \<noteq> [] \<or> added x > 0 \<or> lastID x \<noteq> zeroStreamID) \<and> Compare (addID o') (lastID x) \<le> 0
      then Inl ErrStreamIDSmaller
      else Inr (addID o'))"

definition append_entry :: "StreamID \<Rightarrow> slice list \<Rightarrow> stream \<Rightarrow> stream" where
  "append_entry i fs x =
     x\<lparr>entries := entries x @ [\<lparr>ID = i, Fields = map (\<lambda>f. copyBytes (sbytes f)) fs\<rparr>], lastID := i, added := added x + 1\<rparr>"

definition xAdd_body :: "goenv \<Rightarrow> XAddOptions \<Rightarrow> slice list \<Rightarrow> store \<Rightarrow> entry option \<Rightarrow>
    entry option \<times> (StreamID \<times> int \<times> bool) sres" where
  "xAdd_body env o' fs st slot =
     (let append = \<lambda>e x.
        (case xadd_id (UnixMilli (now env)) o' x of
           Inl err \<Rightarrow> (if entries x = [] \<and> added x = 0 \<and> groups x = [] then None else Some e, Inl err)
         | Inr i \<Rightarrow>
             let (x', trimmed) = stream_trim (Trim o') (append_entry i fs x)
             in (Some (touch env st (e\<lparr>val := VStream x'\<rparr>)), Inr (i, trimmed, True)))
      in case liveSlot (now env) slot of
           None \<Rightarrow>
             if NoMkStream o' then (slot, Inr (zeroStreamID, 0, False))
             else append (new_entry (VStream newStream)) newStream
         | Some e \<Rightarrow>
             (case val e of
                VStream x \<Rightarrow> append e x
              | _ \<Rightarrow> (slot, Inl (StoreErr ErrWrongType))))"

definition XAdd :: "goenv \<Rightarrow> bytes \<Rightarrow> XAddOptions \<Rightarrow> slice list \<Rightarrow> store \<Rightarrow> (StreamID \<times> int \<times> bool) sres \<times> store" where
  "XAdd env key o' fs st = mutate_key key (xAdd_body env o' fs st) st"

subsection \<open>Reads\<close>

definition xread_body :: "(stream \<Rightarrow> 'r) \<Rightarrow> entry \<Rightarrow> entry \<times> 'r sres" where
  "xread_body f e = (e, case val e of VStream x \<Rightarrow> Inr (f x) | _ \<Rightarrow> Inl (StoreErr ErrWrongType))"

definition readStream :: "goenv \<Rightarrow> bytes \<Rightarrow> store \<Rightarrow> stream option sres \<times> store" where
  "readStream env key st = read_key env key (Inr None) (xread_body Some) st"

definition XLen :: "goenv \<Rightarrow> bytes \<Rightarrow> store \<Rightarrow> int sres \<times> store" where
  "XLen env key st = read_key env key (Inr 0) (xread_body (\<lambda>x. int (length (entries x)))) st"

definition limit_entries :: "int \<Rightarrow> 'a list \<Rightarrow> 'a list" where
  "limit_entries cnt xs = (if cnt > 0 then take (nat cnt) xs else xs)"

definition range_entries :: "StreamID \<Rightarrow> StreamID \<Rightarrow> int \<Rightarrow> bool \<Rightarrow> stream \<Rightarrow> StreamEntry list" where
  "range_entries start end' cnt rev' x =
     (if Compare start end' > 0 then []
      else
        let lo = firstIndexAtOrAfter start x; hi = firstIndexAtOrAfter (Next end') x
        in if lo \<ge> hi then []
           else
             let es = take (hi - lo) (drop lo (entries x))
             in map StreamEntry_clone (limit_entries cnt (if rev' then rev es else es)))"

definition XRange :: "goenv \<Rightarrow> bytes \<Rightarrow> StreamID \<Rightarrow> StreamID \<Rightarrow> int \<Rightarrow> bool \<Rightarrow> store \<Rightarrow> StreamEntry list sres \<times> store" where
  "XRange env key start end' cnt rev' st =
     read_key env key (Inr []) (xread_body (range_entries start end' cnt rev')) st"

definition XReadAfter :: "goenv \<Rightarrow> bytes \<Rightarrow> StreamID \<Rightarrow> int \<Rightarrow> store \<Rightarrow> StreamEntry list sres \<times> store" where
  "XReadAfter env key after cnt st = XRange env key (Next after) maxStreamID cnt False st"

definition XLastID :: "goenv \<Rightarrow> bytes \<Rightarrow> store \<Rightarrow> (StreamID \<times> bool) sres \<times> store" where
  "XLastID env key st = read_key env key (Inr (zeroStreamID, False)) (xread_body (\<lambda>x. (lastID x, True))) st"

subsection \<open>Deleting, trimming and moving the last id\<close>

fun xdel_loop :: "StreamID list \<Rightarrow> stream \<Rightarrow> int \<Rightarrow> stream \<times> int" where
  "xdel_loop [] x n = (x, n)"
| "xdel_loop (i # is) x n =
     (case find_entry i x of
        None \<Rightarrow> xdel_loop is x n
      | Some k \<Rightarrow>
          xdel_loop is
            (x\<lparr>maxDeleted := (if Compare i (maxDeleted x) > 0 then i else maxDeleted x),
               entries := take k (entries x) @ drop (Suc k) (entries x)\<rparr>) (n + 1))"

definition xDel_body :: "goenv \<Rightarrow> StreamID list \<Rightarrow> store \<Rightarrow> entry option \<Rightarrow> entry option \<times> int sres" where
  "xDel_body env is st slot =
     (case liveSlot (now env) slot of
        None \<Rightarrow> (slot, Inr 0)
      | Some e \<Rightarrow>
          (case val e of
             VStream x \<Rightarrow>
               let (x', n) = xdel_loop is x 0; e' = e\<lparr>val := VStream x'\<rparr>
               in (Some (if n > 0 then touch env st e' else e'), Inr n)
           | _ \<Rightarrow> (slot, Inl (StoreErr ErrWrongType))))"

definition XDel :: "goenv \<Rightarrow> bytes \<Rightarrow> StreamID list \<Rightarrow> store \<Rightarrow> int sres \<times> store" where
  "XDel env key is st = mutate_key key (xDel_body env is st) st"

definition xTrim_body :: "goenv \<Rightarrow> TrimOptions \<Rightarrow> store \<Rightarrow> entry option \<Rightarrow> entry option \<times> int sres" where
  "xTrim_body env opt st slot =
     (case liveSlot (now env) slot of
        None \<Rightarrow> (slot, Inr 0)
      | Some e \<Rightarrow>
          (case val e of
             VStream x \<Rightarrow>
               let (x', n) = stream_trim opt x; e' = e\<lparr>val := VStream x'\<rparr>
               in (Some (if n > 0 then touch env st e' else e'), Inr n)
           | _ \<Rightarrow> (slot, Inl (StoreErr ErrWrongType))))"

definition XTrim :: "goenv \<Rightarrow> bytes \<Rightarrow> TrimOptions \<Rightarrow> store \<Rightarrow> int sres \<times> store" where
  "XTrim env key opt st = mutate_key key (xTrim_body env opt st) st"

definition set_last :: "StreamID \<Rightarrow> XSetIDOptions \<Rightarrow> stream \<Rightarrow> stream" where
  "set_last i o' x =
     x\<lparr>lastID := i,
       added := (if HasEntriesAdded o' then word_of_int (max (EntriesAdded o') 0) else added x),
       maxDeleted := (if HasMaxDeleted o' then MaxDeleted o' else maxDeleted x)\<rparr>"

definition xSetID_body :: "goenv \<Rightarrow> StreamID \<Rightarrow> XSetIDOptions \<Rightarrow> store \<Rightarrow> entry option \<Rightarrow> entry option \<times> unit sres" where
  "xSetID_body env i o' st slot =
     (case liveSlot (now env) slot of
        None \<Rightarrow> (slot, Inl ErrNoSuchStreamKey)
      | Some e \<Rightarrow>
          (case val e of
             VStream x \<Rightarrow>
               if entries x \<noteq> [] \<and> Compare (ID (last (entries x))) i > 0 then (slot, Inl ErrStreamSetIDSmaller)
               else (Some (touch env st (e\<lparr>val := VStream (set_last i o' x)\<rparr>)), Inr ())
           | _ \<Rightarrow> (slot, Inl (StoreErr ErrWrongType))))"

definition XSetID :: "goenv \<Rightarrow> bytes \<Rightarrow> StreamID \<Rightarrow> XSetIDOptions \<Rightarrow> store \<Rightarrow> unit sres \<times> store" where
  "XSetID env key i o' st = mutate_key key (xSetID_body env i o' st) st"

subsection \<open>Streams stay well formed\<close>

lemma xadd_id_greater: "xadd_id ms o' x = Inr i \<Longrightarrow> lastID x < i"
proof -
  have z: "j = zeroStreamID \<or> zeroStreamID < j" for j
    by (cases j) (auto simp: less_StreamID_iff word_gt_0)
  assume "xadd_id ms o' x = Inr i"
  then show ?thesis using z [of i]
    by (auto simp: xadd_id_def linorder_not_le dest: nextID_greater seqForMs_greater split: if_splits option.splits)
qed

lemma append_entry_ok: "stream_ok x \<Longrightarrow> lastID x < i \<Longrightarrow> stream_ok (append_entry i fs x)"
  by (auto simp: stream_ok_def append_entry_def sorted_wrt_append)

lemma delete_at_ok:
  "stream_ok x \<Longrightarrow> stream_ok (x\<lparr>maxDeleted := m, entries := take k (entries x) @ drop (Suc k) (entries x)\<rparr>)"
proof -
  assume "stream_ok x"
  then have s: "sorted_wrt (<) (map ID (entries x))" and l: "\<forall>e \<in> set (entries x). ID e \<le> lastID x"
    and g: "gmap_wf (groups x) \<and> (\<forall>n g. map_of (groups x) n = Some g \<longrightarrow> group_ok g)"
    by (simp_all add: stream_ok_def)
  let ?L = "map ID (entries x)"
  have "sorted_wrt (<) (take k ?L @ drop k ?L)" using s by simp
  then have "sorted_wrt (<) (take k ?L @ drop (Suc k) ?L)"
    using set_drop_subset_set_drop [OF le_SucI [OF order_refl, of k], of ?L] sorted_wrt_drop [OF s, of "Suc k"] by (auto simp only: sorted_wrt_append)
  then have "sorted_wrt (<) (map ID (take k (entries x)) @ map ID (drop (Suc k) (entries x)))"
    by (simp only: take_map drop_map)
  then show ?thesis using l g by (auto simp: stream_ok_def dest: in_set_takeD in_set_dropD)
qed

lemma xdel_loop_ok: "stream_ok x \<Longrightarrow> stream_ok (fst (xdel_loop is x n))"
  by (induction "is" x n rule: xdel_loop.induct) (auto simp: delete_at_ok split: option.split)

lemma set_last_ok:
  assumes "stream_ok x" "entries x = [] \<or> ID (last (entries x)) \<le> i"
  shows "stream_ok (set_last i o' x)"
proof -
  have "ID e \<le> i" if e: "e \<in> set (entries x)" for e
  proof -
    have ne: "entries x \<noteq> []" using e by auto
    then have "sorted_wrt (<) (map ID (butlast (entries x) @ [last (entries x)]))" using assms(1) by (simp add: stream_ok_def)
    moreover have "e \<in> set (butlast (entries x)) \<or> e = last (entries x)"
      using e ne append_butlast_last_id [OF ne] by (metis Un_iff empty_iff empty_set insert_iff list.simps(15) set_append)
    ultimately have "ID e \<le> ID (last (entries x))" by (auto simp: sorted_wrt_append less_imp_le)
    then show ?thesis using assms(2) ne by (auto intro: order_trans)
  qed
  then show ?thesis using assms(1) by (simp add: stream_ok_def set_last_def)
qed

lemma stream_entry_ok:
  "slot_ok slot \<Longrightarrow> liveSlot t slot = Some e \<Longrightarrow> val e = VStream x \<Longrightarrow> stream_ok x"
  using liveSlot_SomeD [of t slot e] by (auto simp: entry_ok_def)

lemma put_stream_ok [simp]: "entry_ok (e\<lparr>val := VStream x\<rparr>) = stream_ok x"
  by (simp add: entry_ok_def)

lemma new_stream_ok: "entry_ok (new_entry (VStream x)) = stream_ok x"
  by (simp add: entry_ok_def new_entry_def)

lemma stream_bodies_ok:
  assumes "slot_ok slot"
  shows "slot_ok (fst (xAdd_body env o' fs st slot))" "slot_ok (fst (xDel_body env is st slot))"
    "slot_ok (fst (xTrim_body env opt st slot))" "slot_ok (fst (xSetID_body env i so st slot))"
proof -
  note ok = stream_entry_ok [OF assms]
  have a: "stream_ok x \<Longrightarrow> xadd_id ms o' x = Inr i \<Longrightarrow> stream_ok (fst (stream_trim (Trim o') (append_entry i fs x)))" for x ms i
    by (intro stream_trim_ok append_entry_ok xadd_id_greater)
  have s: "liveSlot (now env) slot = Some e \<Longrightarrow> slot_ok (Some e)" for e using liveSlot_SomeD [of "now env" slot e] assms by auto
  show "slot_ok (fst (xAdd_body env o' fs st slot))"
    using assms ok a s a [OF newStream_ok]
    by (auto simp: xAdd_body_def Let_def split_def entry_ok_touch new_stream_ok split: option.split val.split sum.split)
  show "slot_ok (fst (xDel_body env is st slot))"
    using assms ok by (auto simp: xDel_body_def Let_def split_def entry_ok_touch xdel_loop_ok split: option.split val.split)
  show "slot_ok (fst (xTrim_body env opt st slot))"
    using assms ok by (auto simp: xTrim_body_def Let_def split_def entry_ok_touch stream_trim_ok split: option.split val.split)
  show "slot_ok (fst (xSetID_body env i so st slot))"
    using assms ok by (auto simp: xSetID_body_def entry_ok_touch linorder_not_less intro!: set_last_ok split: option.split val.split)
qed

interpretation xadd: key_mutator "XAdd env key o' fs" key "xAdd_body env o' fs" for env key o' fs
  by unfold_locales (simp_all add: XAdd_def stream_bodies_ok)

interpretation xdel: key_mutator "XDel env key is" key "xDel_body env is" for env key "is"
  by unfold_locales (simp_all add: XDel_def stream_bodies_ok)

interpretation xtrim: key_mutator "XTrim env key opt" key "xTrim_body env opt" for env key opt
  by unfold_locales (simp_all add: XTrim_def stream_bodies_ok)

interpretation xsetid: key_mutator "XSetID env key i so" key "xSetID_body env i so" for env key i so
  by unfold_locales (simp_all add: XSetID_def stream_bodies_ok)

lemma xread_same: "same_value e (fst (xread_body f e))"
  by (simp add: xread_body_def same_value_refl)

interpretation readstream: key_reader "\<lambda>env. readStream env key" key "Inr None" "\<lambda>env st. xread_body Some" for key
  by unfold_locales (simp_all add: readStream_def xread_same)

interpretation xlen: key_reader "\<lambda>env. XLen env key" key "Inr 0" "\<lambda>env st. xread_body (\<lambda>x. int (length (entries x)))" for key
  by unfold_locales (simp_all add: XLen_def xread_same)

interpretation xrange: key_reader "\<lambda>env. XRange env key s t c r" key "Inr []" "\<lambda>env st. xread_body (range_entries s t c r)"
  for key s t c r
  by unfold_locales (simp_all add: XRange_def xread_same)

interpretation xlast: key_reader "\<lambda>env. XLastID env key" key "Inr (zeroStreamID, False)" "\<lambda>env st. xread_body (\<lambda>x. (lastID x, True))" for key
  by unfold_locales (simp_all add: XLastID_def xread_same)

text \<open>A write to a live stream costs the key nothing that the accounting counts.\<close>

lemma stream_cost: "val e = VStream x \<Longrightarrow> slot_cost (Some (e\<lparr>val := VStream x'\<rparr>)) = slot_cost (Some e)"
  "slot_cost (Some (touch env st e)) = slot_cost (Some e)"
  by (simp_all add: slot_cost_def entryPayload_def split: val.split)

lemma stream_writes_inv:
  assumes "store_inv st"
  shows "store_inv (snd (XDel env key is st))" "store_inv (snd (XTrim env key opt st))" "store_inv (snd (XSetID env key i so st))"
proof -
  have l: "liveSlot t slot = Some e \<Longrightarrow> slot = Some e" for t slot e using liveSlot_SomeD [of t slot e] by auto
  show "store_inv (snd (XDel env key is st))" using assms
    by (rule xdel.inv) (auto simp: xDel_body_def Let_def split_def stream_cost split: option.split val.split dest: l)
  show "store_inv (snd (XTrim env key opt st))" using assms
    by (rule xtrim.inv) (auto simp: xTrim_body_def Let_def split_def stream_cost split: option.split val.split dest: l)
  show "store_inv (snd (XSetID env key i so st))" using assms
    by (rule xsetid.inv) (auto simp: xSetID_body_def stream_cost split: option.split val.split dest: l)
qed

subsection \<open>What a stream holds afterwards\<close>

definition stream_at :: "int \<Rightarrow> store \<Rightarrow> bytes \<Rightarrow> stream option" where
  "stream_at t st key =
     (case liveEntry st key t of Some e \<Rightarrow> (case val e of VStream x \<Rightarrow> Some x | _ \<Rightarrow> None) | None \<Rightarrow> None)"

lemma stream_at_ok: "store_ok st \<Longrightarrow> stream_at t st key = Some x \<Longrightarrow> stream_ok x"
  using stream_entry_ok [of "get_slot st key" t]
  by (auto simp: stream_at_def liveEntry_def store_ok_def split: option.splits val.splits)

lemma XAdd_added:
  assumes "store_ok st" "XAdd env key o' fs st = (Inr (i, n, True), st')"
  defines "x \<equiv> (case stream_at (now env) st key of None \<Rightarrow> newStream | Some x \<Rightarrow> x)"
  shows "stream_at (now env) st' key = Some (fst (stream_trim (Trim o') (append_entry i fs x)))"
    "lastID x < i" "n = snd (stream_trim (Trim o') (append_entry i fs x))" "stream_ok (append_entry i fs x)"
    "xadd_id (UnixMilli (now env)) o' x = Inr i"
proof -
  have w: "store_wf st" using assms(1) by (simp add: store_ok_def)
  have r: "snd (xAdd_body env o' fs st (get_slot st key)) = Inr (i, n, True)"
    using xadd.result [of env key o' fs st] assms(2) by simp
  have s: "get_slot st' key = fst (xAdd_body env o' fs st (get_slot st key))"
    using xadd.slot [OF w, of env key o' fs] assms(2) by simp
  let ?T = "stream_trim (Trim o') (append_entry i fs x)"
  have C: "\<exists>e. xadd_id (UnixMilli (now env)) o' x = Inr i \<and> n = snd ?T \<and> \<not> expired (now env) e \<and>
      get_slot st' key = Some (touch env st (e\<lparr>val := VStream (fst ?T)\<rparr>))"
  proof (cases "liveSlot (now env) (get_slot st key)")
    case None
    then have "x = newStream" by (simp add: x_def stream_at_def liveEntry_def)
    then show ?thesis using r s None
      by (intro exI [of _ "new_entry (VStream newStream)"])
        (auto simp: xAdd_body_def Let_def split_def expired_def new_entry_def split: if_splits sum.splits)
  next
    case (Some e)
    then obtain y where y: "val e = VStream y" using r by (cases "val e") (auto simp: xAdd_body_def)
    then have "x = y" using Some by (simp add: x_def stream_at_def liveEntry_def)
    then show ?thesis using r s Some y liveSlot_SomeD [OF Some]
      by (intro exI [of _ e]) (auto simp: xAdd_body_def Let_def split_def split: sum.splits)
  qed
  show id: "xadd_id (UnixMilli (now env)) o' x = Inr i" using C by blast
  then show lt: "lastID x < i" by (rule xadd_id_greater)
  show "n = snd ?T" using C by blast
  show "stream_at (now env) st' key = Some (fst ?T)"
    using C by (auto simp: stream_at_def liveEntry_def liveSlot_def expired_touch expired_def)
  have "stream_ok x" using stream_at_ok [OF assms(1)] by (auto simp: x_def split: option.split)
  then show "stream_ok (append_entry i fs x)" using lt by (rule append_entry_ok)
qed

lemma XAdd_refused:
  assumes "store_wf st" "XAdd env key o' fs st = (Inl err, st')"
  shows "stream_at (now env) st' key = stream_at (now env) st key \<or>
    (\<exists>x. stream_at (now env) st key = Some x \<and> entries x = [] \<and> added x = 0 \<and> groups x = [])"
proof -
  have r: "snd (xAdd_body env o' fs st (get_slot st key)) = Inl err"
    using xadd.result [of env key o' fs st] assms(2) by simp
  have s: "get_slot st' key = fst (xAdd_body env o' fs st (get_slot st key))"
    using xadd.slot [OF assms(1), of env key o' fs] assms(2) by simp
  show ?thesis
  proof (cases "liveSlot (now env) (get_slot st key)")
    case None
    then have "get_slot st' key = None" using r s
      by (auto simp: xAdd_body_def Let_def split_def newStream_def split: if_splits sum.splits)
    then show ?thesis using None by (simp add: stream_at_def liveEntry_def)
  next
    case (Some e)
    then have "get_slot st' key = get_slot st key \<or> (\<exists>x. val e = VStream x \<and> entries x = [] \<and> added x = 0 \<and> groups x = [])"
      using r s liveSlot_SomeD [OF Some] by (auto simp: xAdd_body_def Let_def split_def split: val.splits sum.splits)
    then show ?thesis using Some by (auto simp: stream_at_def liveEntry_def)
  qed
qed

lemma XAdd_inv:
  assumes "store_inv st" "\<not> memTrack st \<or> (\<exists>x. stream_at (now env) st key = Some x \<and> (entries x \<noteq> [] \<or> added x \<noteq> 0 \<or> groups x \<noteq> []))"
  shows "store_inv (snd (XAdd env key o' fs st))"
proof -
  have l: "liveSlot t slot = Some e \<Longrightarrow> slot = Some e" for t slot e using liveSlot_SomeD [of t slot e] by auto
  have "\<not> memTrack st \<or> slot_cost (fst (xAdd_body env o' fs st (get_slot st key))) = slot_cost (get_slot st key)"
    using assms(2)
    by (auto simp: xAdd_body_def Let_def split_def stream_at_def liveEntry_def stream_cost
        split: option.splits val.splits sum.splits dest: l)
  then show ?thesis by (rule xadd.inv [OF assms(1)])
qed

text \<open>The two searches of a range cut out the entries between its bounds.\<close>

lemma sorted_between:
  fixes f :: "'a \<Rightarrow> 'b :: linorder"
  assumes "sorted_wrt (<) (map f xs)" "a \<le> b"
  shows "take (length (takeWhile (\<lambda>x. f x < b) xs) - length (takeWhile (\<lambda>x. f x < a) xs)) (drop (length (takeWhile (\<lambda>x. f x < a) xs)) xs) =
    filter (\<lambda>x. a \<le> f x \<and> f x < b) xs"
  using assms(1)
proof (induction xs)
  case (Cons x xs)
  have hi: "\<And>y. y \<in> set xs \<Longrightarrow> f x < f y" using Cons.prems by auto
  consider "f x < a" | "a \<le> f x" "f x < b" | "b \<le> f x" using linorder_not_less by blast
  then show ?case
  proof cases
    case 1
    then have "f x < b" using assms(2) by simp
    then show ?thesis using 1 Cons by simp
  next
    case 2
    have "\<And>y. y \<in> set xs \<Longrightarrow> \<not> f y < a" using hi 2(1) by (meson less_le_not_le order_trans less_imp_le not_less)
    then have n: "takeWhile (\<lambda>x. f x < a) xs = []" by (cases xs) auto
    have "take (length (takeWhile (\<lambda>x. f x < b) xs)) xs = filter (\<lambda>x. a \<le> f x \<and> f x < b) xs" using Cons n by simp
    then show ?thesis using 2 by simp
  next
    case 3
    have "\<And>y. y \<in> set xs \<Longrightarrow> \<not> f y < b" using hi 3 by (meson less_imp_le not_le order_trans)
    then show ?thesis using 3 assms(2) by (auto simp: filter_empty_conv)
  qed
qed simp

lemma range_entries_between:
  assumes "stream_ok x"
  shows "range_entries a b c r x =
    map StreamEntry_clone (limit_entries c ((if r then rev else id) (filter (\<lambda>e. a \<le> ID e \<and> ID e < Next b \<and> a \<le> b) (entries x))))"
proof -
  have s: "sorted_wrt (<) (map ID (entries x))" using assms by (simp add: stream_ok_def)
  show ?thesis
  proof (cases "a \<le> b")
    case True
    have "b \<le> Next b" by (cases "b = maxStreamID") (auto intro: less_imp_le Next_greater)
    then have ab: "a \<le> Next b" using True by (rule order_trans [rotated])
    show ?thesis using True sorted_between [OF s ab]
      by (auto simp: range_entries_def Let_def firstIndexAtOrAfter_eq [OF s] limit_entries_def linorder_not_less dest: sym)
  next
    case False
    then show ?thesis by (simp add: range_entries_def linorder_not_le limit_entries_def)
  qed
qed

lemma less_Next: "b \<noteq> maxStreamID \<Longrightarrow> i < Next b \<longleftrightarrow> i \<le> b"
  using Next_greater [of b] Next_least [of b i] by (meson leD le_less_trans not_le)

lemma range_entries_eq:
  assumes "stream_ok x" "b \<noteq> maxStreamID"
  shows "range_entries a b c r x =
    map StreamEntry_clone (limit_entries c ((if r then rev else id) (filter (\<lambda>e. a \<le> ID e \<and> ID e \<le> b) (entries x))))"
proof -
  have p: "(\<lambda>e. a \<le> ID e \<and> ID e < Next b \<and> a \<le> b) = (\<lambda>e. a \<le> ID e \<and> ID e \<le> b)"
    using less_Next [OF assms(2)] by (auto intro: order_trans)
  show ?thesis unfolding range_entries_between [OF assms(1)] p ..
qed

lemma range_entries_top:
  assumes "stream_ok x"
  shows "range_entries a maxStreamID c r x =
    map StreamEntry_clone (limit_entries c ((if r then rev else id) (filter (\<lambda>e. a \<le> ID e \<and> ID e \<noteq> maxStreamID) (entries x))))"
proof -
  have p: "(\<lambda>e. a \<le> ID e \<and> ID e < Next maxStreamID \<and> a \<le> maxStreamID) = (\<lambda>e. a \<le> ID e \<and> ID e \<noteq> maxStreamID)"
    using maxStreamID_top by (auto simp: less_le)
  show ?thesis unfolding range_entries_between [OF assms] p ..
qed

lemma delete_at_filter:
  assumes "stream_ok x" "find_entry i x = Some k"
  shows "take k (entries x) @ drop (Suc k) (entries x) = filter (\<lambda>e. ID e \<noteq> i) (entries x)"
    "length (filter (\<lambda>e. ID e \<noteq> i) (entries x)) = length (entries x) - 1" "k < length (entries x)"
proof -
  have s: "sorted_wrt (<) (map ID (entries x))" using assms(1) by (simp add: stream_ok_def)
  have k: "k < length (entries x)" "ID (entries x ! k) = i" using assms(2) by (simp_all add: find_entry_eq [OF s])
  have e: "entries x = take k (entries x) @ entries x ! k # drop (Suc k) (entries x)" using k by (simp add: id_take_nth_drop [symmetric])
  have d: "distinct (map ID (entries x))" using s by (simp add: strict_sorted_iff)
  have "distinct (map ID (take k (entries x) @ entries x ! k # drop (Suc k) (entries x)))" using d e by simp
  then have "i \<notin> ID ` set (take k (entries x)) \<union> ID ` set (drop (Suc k) (entries x))" using k(2) by auto
  then have "ID y \<noteq> i" if "y \<in> set (take k (entries x)) \<or> y \<in> set (drop (Suc k) (entries x))" for y
    using that by (metis UnI1 UnI2 imageI)
  then have "filter (\<lambda>e. ID e \<noteq> i) (take k (entries x) @ entries x ! k # drop (Suc k) (entries x)) =
      take k (entries x) @ drop (Suc k) (entries x)"
    using k(2) by (auto simp: filter_id_conv)
  then show f: "take k (entries x) @ drop (Suc k) (entries x) = filter (\<lambda>e. ID e \<noteq> i) (entries x)" using e by simp
  show "length (filter (\<lambda>e. ID e \<noteq> i) (entries x)) = length (entries x) - 1" using k(1) by (simp flip: f)
  show "k < length (entries x)" by (rule k(1))
qed

lemma find_entry_None: "stream_ok x \<Longrightarrow> find_entry i x = None \<Longrightarrow> filter (\<lambda>e. ID e \<noteq> i) (entries x) = entries x"
proof -
  assume a: "stream_ok x" "find_entry i x = None"
  have "ID (entries x ! k) \<noteq> i" if "k < length (entries x)" for k
    using find_entry_eq [of x i k] a that by (auto simp: stream_ok_def)
  then have "\<forall>e \<in> set (entries x). ID e \<noteq> i" by (metis in_set_conv_nth)
  then show ?thesis by (simp add: filter_id_conv)
qed

lemma xdel_loop_result:
  assumes "stream_ok x"
  shows "entries (fst (xdel_loop is x n)) = filter (\<lambda>e. ID e \<notin> set is) (entries x) \<and>
    snd (xdel_loop is x n) = n + int (length (entries x)) - int (length (filter (\<lambda>e. ID e \<notin> set is) (entries x))) \<and>
    lastID (fst (xdel_loop is x n)) = lastID x \<and> groups (fst (xdel_loop is x n)) = groups x \<and>
    added (fst (xdel_loop is x n)) = added x \<and> maxDeleted x \<le> maxDeleted (fst (xdel_loop is x n)) \<and>
    (\<forall>e \<in> set (entries x). ID e \<in> set is \<longrightarrow> ID e \<le> maxDeleted (fst (xdel_loop is x n)))"
  using assms
proof (induction "is" x n rule: xdel_loop.induct)
  case (2 i "is" x n)
  have f: "filter (\<lambda>e. ID e \<notin> set (i # is)) xs = filter (\<lambda>e. ID e \<notin> set is) (filter (\<lambda>e. ID e \<noteq> i) xs)" for xs
    by (auto intro: filter_cong)
  show ?case
  proof (cases "find_entry i x")
    case None
    have "i \<notin> ID ` set (entries x)" using find_entry_None [OF 2(3) None] by (auto simp: filter_id_conv)
    then show ?thesis using 2(1) [OF None 2(3)] None find_entry_None [OF 2(3) None] unfolding f by auto
  next
    case (Some k)
    note D = delete_at_filter [OF 2(3) Some]
    let ?x = "x\<lparr>maxDeleted := (if Compare i (maxDeleted x) > 0 then i else maxDeleted x),
      entries := take k (entries x) @ drop (Suc k) (entries x)\<rparr>"
    obtain y c where y: "xdel_loop is ?x (n + 1) = (y, c)" by (cases "xdel_loop is ?x (n + 1)")
    note IH = 2(2) [OF Some delete_at_ok [OF 2(3)], unfolded y fst_conv snd_conv]
    have E: "entries ?x = filter (\<lambda>e. ID e \<noteq> i) (entries x)" using D(1) by simp
    have m: "maxDeleted x \<le> maxDeleted ?x" "i \<le> maxDeleted ?x" by (auto simp: linorder_not_less less_imp_le)
    have md: "maxDeleted ?x \<le> maxDeleted y" using IH by blast
    have "ID e \<le> maxDeleted y" if "e \<in> set (entries x)" "ID e \<in> set (i # is)" for e
    proof (cases "ID e = i")
      case True
      then show ?thesis using m(2) md by simp
    next
      case False
      then have "e \<in> set (entries ?x)" unfolding E using that by simp
      then show ?thesis using IH False that(2) by auto
    qed
    moreover have "maxDeleted x \<le> maxDeleted y" using m(1) md by (rule order_trans)
    moreover have "xdel_loop (i # is) x n = (y, c)" using Some y by simp
    ultimately show ?thesis using IH D(2,3) unfolding f E by simp
  qed
qed simp

lemma XDel_view:
  assumes "store_ok st" "stream_at (now env) st key = Some x" "XDel env key is st = (r, st')"
  shows "stream_at (now env) st' key = Some (fst (xdel_loop is x 0))" "r = Inr (snd (xdel_loop is x 0))"
proof -
  have w: "store_wf st" using assms(1) by (simp add: store_ok_def)
  obtain e where e: "liveSlot (now env) (get_slot st key) = Some e" "val e = VStream x"
    using assms(2) by (auto simp: stream_at_def liveEntry_def split: option.splits val.splits)
  have r: "r = snd (xDel_body env is st (get_slot st key))" using xdel.result [of env key "is" st] assms(3) by simp
  have s: "get_slot st' key = fst (xDel_body env is st (get_slot st key))" using xdel.slot [OF w, of env key "is"] assms(3) by simp
  show "r = Inr (snd (xdel_loop is x 0))" using r e by (simp add: xDel_body_def Let_def split_def)
  show "stream_at (now env) st' key = Some (fst (xdel_loop is x 0))"
    using s e liveSlot_SomeD [OF e(1)]
    by (auto simp: xDel_body_def Let_def split_def stream_at_def liveEntry_def liveSlot_def expired_touch expired_def)
qed

text \<open>A read of a live stream, by what it returns.\<close>

lemma stream_reads:
  assumes "stream_at (now env) st key = Some x"
  shows "fst (XLen env key st) = Inr (int (length (entries x)))" "fst (XLastID env key st) = Inr (lastID x, True)"
    "fst (XRange env key a b c r st) = Inr (range_entries a b c r x)"
    "fst (XReadAfter env key a c st) = Inr (range_entries (Next a) maxStreamID c False x)"
  using assms
  by (auto simp: XReadAfter_def xlen.result xlast.result xrange.result xread_body_def stream_at_def split: option.splits val.splits)

end
