(* ===== verification/StreamGroups.thy ===== *)
theory StreamGroups
  imports StreamOps
begin

text \<open>
  Consumer groups: \<open>internal/store/stream_groups.go\<close>. The group and the owning consumer reach the same
  NACK, so a pending-entries map holds addresses into the group's NACK list and a claim updates the NACK in place.
  The lemmas show that every operation keeps the maps leading to the right NACKs, and when an
  operation keeps the stronger property that a consumer's map is exactly its share of the group's.
\<close>

subsection \<open>Operations on a group\<close>

definition nack_at :: "streamGroup \<Rightarrow> StreamID \<Rightarrow> streamNACK option" where
  "nack_at g i = map_option (\<lambda>a. nacks g ! a) (map_of (gpel g) i)"

definition upd_consumer :: "bytes \<Rightarrow> (streamConsumer \<Rightarrow> streamConsumer) \<Rightarrow> streamGroup \<Rightarrow> streamGroup" where
  "upd_consumer name f g =
     (case map_of (consumers g) name of
        None \<Rightarrow> g
      | Some c \<Rightarrow> g\<lparr>consumers := gput name (f c) (consumers g)\<rparr>)"

definition group_body :: "goenv \<Rightarrow> bytes \<Rightarrow> 'r sres \<Rightarrow> 'r sres \<Rightarrow> (stream \<Rightarrow> streamGroup \<Rightarrow> streamGroup option \<times> bool \<times> 'r) \<Rightarrow>
    store \<Rightarrow> entry option \<Rightarrow> entry option \<times> 'r sres" where
  "group_body env grp nokey nogroup f st slot =
     (case liveSlot (now env) slot of
        None \<Rightarrow> (slot, nokey)
      | Some e \<Rightarrow>
          (case val e of
             VStream x \<Rightarrow>
               (case map_of (groups x) grp of
                  None \<Rightarrow> (slot, nogroup)
                | Some g \<Rightarrow>
                    let (g', touched, r) = f x g; e' = e\<lparr>val := VStream (x\<lparr>groups := gset grp g' (groups x)\<rparr>)\<rparr>
                    in (Some (if touched then touch env st e' else e'), Inr r))
           | _ \<Rightarrow> (slot, Inl (StoreErr ErrWrongType))))"

subsection \<open>Creating, moving and destroying groups\<close>

definition xGroupCreate_body :: "goenv \<Rightarrow> bytes \<Rightarrow> StreamID \<Rightarrow> bool \<Rightarrow> int \<Rightarrow> bool \<Rightarrow> store \<Rightarrow> entry option \<Rightarrow>
    entry option \<times> unit sres" where
  "xGroupCreate_body env grp start mkstream n has st slot =
     (let create = \<lambda>e x.
        (case map_of (groups x) grp of
           Some _ \<Rightarrow> (Some e, Inl ErrBusyGroup)
         | None \<Rightarrow>
             (Some (touch env st (e\<lparr>val := VStream (x\<lparr>groups := gput grp (newStreamGroup start n has) (groups x)\<rparr>)\<rparr>)), Inr ()))
      in case liveSlot (now env) slot of
           None \<Rightarrow> if \<not> mkstream then (slot, Inl ErrNoSuchStreamKey) else create (new_entry (VStream newStream)) newStream
         | Some e \<Rightarrow> (case val e of VStream x \<Rightarrow> create e x | _ \<Rightarrow> (slot, Inl (StoreErr ErrWrongType))))"

definition XGroupCreate :: "goenv \<Rightarrow> bytes \<Rightarrow> bytes \<Rightarrow> StreamID \<Rightarrow> bool \<Rightarrow> int \<Rightarrow> bool \<Rightarrow> store \<Rightarrow> unit sres \<times> store" where
  "XGroupCreate env key grp start mkstream n has st =
     mutate_key key (xGroupCreate_body env grp start mkstream n has st) st"

definition XGroupSetID :: "goenv \<Rightarrow> bytes \<Rightarrow> bytes \<Rightarrow> StreamID \<Rightarrow> bool \<Rightarrow> int \<Rightarrow> store \<Rightarrow> unit sres \<times> store" where
  "XGroupSetID env key grp i has n st =
     mutate_key key
       (group_body env grp (Inl ErrNoSuchStreamKey) (Inl ErrNoGroup)
          (\<lambda>x g. (Some (g\<lparr>lastDelivered := i, entriesRead := n, hasEntriesRead := has\<rparr>), True, ())) st) st"

definition XGroupDestroy :: "goenv \<Rightarrow> bytes \<Rightarrow> bytes \<Rightarrow> store \<Rightarrow> bool sres \<times> store" where
  "XGroupDestroy env key grp st =
     mutate_key key
       (group_body env grp (Inl ErrNoSuchStreamKey) (Inr False) (\<lambda>x g. (None, True, True)) st) st"

definition XGroupCreateConsumer :: "goenv \<Rightarrow> bytes \<Rightarrow> bytes \<Rightarrow> bytes \<Rightarrow> store \<Rightarrow> bool sres \<times> store" where
  "XGroupCreateConsumer env key grp consumer st =
     mutate_key key
       (group_body env grp (Inl ErrNoSuchStreamKey) (Inl ErrNoGroup)
          (\<lambda>x g. let (g', created) = consumerFor consumer (UnixMilli (now env)) g in (Some g', created, created)) st) st"

definition del_consumer :: "bytes \<Rightarrow> streamGroup \<Rightarrow> streamGroup option \<times> bool \<times> int" where
  "del_consumer consumer g =
     (case map_of (consumers g) consumer of
        None \<Rightarrow> (Some g, False, 0)
      | Some c \<Rightarrow>
          (Some (g\<lparr>gpel := fold (\<lambda>(i, _). gdel i) (cpel c) (gpel g), consumers := gdel consumer (consumers g)\<rparr>),
           True, int (length (cpel c))))"

definition XGroupDelConsumer :: "goenv \<Rightarrow> bytes \<Rightarrow> bytes \<Rightarrow> bytes \<Rightarrow> store \<Rightarrow> int sres \<times> store" where
  "XGroupDelConsumer env key grp consumer st =
     mutate_key key
       (group_body env grp (Inl ErrNoSuchStreamKey) (Inl ErrNoGroup) (\<lambda>x g. del_consumer consumer g) st) st"

subsection \<open>Reading for a consumer\<close>

record StreamDelivery =
  dConsumer :: bytes
  dDeliveryMs :: int
  dDeliveryCount :: int

record XReadGroupResult =
  rEntries :: "StreamEntry list"
  rDelivery :: "StreamDelivery list"
  rLastDelivered :: StreamID
  rEntriesRead :: int
  rConsumerCreated :: bool

text \<open>The ids of a pending-entries map that satisfy a condition, in id order; the order in which the map is
  walked does not show.\<close>

definition pel_ids :: "(StreamID \<Rightarrow> bool) \<Rightarrow> (StreamID, nat) gomap \<Rightarrow> StreamID list" where
  "pel_ids P pel = sort (filter P (map fst pel))"

definition history_entry :: "stream \<Rightarrow> StreamID \<Rightarrow> StreamEntry" where
  "history_entry x i =
     (case find_entry i x of None \<Rightarrow> \<lparr>ID = i, Fields = []\<rparr> | Some k \<Rightarrow> StreamEntry_clone (entries x ! k))"

definition read_history :: "bytes \<Rightarrow> StreamID \<Rightarrow> int \<Rightarrow> stream \<Rightarrow> streamGroup \<Rightarrow> StreamEntry list \<times> StreamDelivery list" where
  "read_history consumer after cnt x g =
     (let pel = cpel (the (map_of (consumers g) consumer));
          ids = limit_entries cnt (pel_ids (\<lambda>i. Compare i after > 0) pel)
      in (map (history_entry x) ids,
          map (\<lambda>i. let nack = nacks g ! the (map_of pel i)
                in \<lparr>dConsumer = consumer, dDeliveryMs = deliveryMs nack, dDeliveryCount = deliveryCount nack\<rparr>) ids))"

text \<open>The delivery of one new entry, at index \<open>i\<close> of the log.\<close>

definition deliver :: "int \<Rightarrow> bytes \<Rightarrow> bool \<Rightarrow> stream \<Rightarrow> nat \<Rightarrow> streamGroup \<Rightarrow> streamGroup" where
  "deliver nowMs consumer noack x i g =
     (let ent = entries x ! i;
          g = g\<lparr>lastDelivered := ID ent,
                entriesRead := (if hasEntriesRead g then wrap64 (entriesRead g + 1)
                                else wrap64 (sint (added x) - (int (length (entries x)) - 1 - int i))),
                hasEntriesRead := True\<rparr>;
          g = upd_consumer consumer (\<lambda>c. c\<lparr>activeMs := nowMs\<rparr>) g
      in if noack then g
         else
           let a = length (nacks g);
               g = g\<lparr>nacks := nacks g @ [\<lparr>nackID = ID ent, nackConsumer = consumer, deliveryMs = nowMs, deliveryCount = 1\<rparr>],
                     gpel := gput (ID ent) a (gpel g)\<rparr>
           in upd_consumer consumer (\<lambda>c. c\<lparr>cpel := gput (ID ent) a (cpel c)\<rparr>) g)"

definition new_indexes :: "int \<Rightarrow> stream \<Rightarrow> streamGroup \<Rightarrow> nat list" where
  "new_indexes cnt x g =
     limit_entries cnt [firstIndexAtOrAfter (Next (lastDelivered g)) x ..< length (entries x)]"

definition read_group :: "goenv \<Rightarrow> bytes \<Rightarrow> bool \<Rightarrow> StreamID \<Rightarrow> int \<Rightarrow> bool \<Rightarrow> stream \<Rightarrow> streamGroup \<Rightarrow>
    streamGroup option \<times> bool \<times> XReadGroupResult" where
  "read_group env consumer newOnly after cnt noack x g =
     (let nowMs = UnixMilli (now env); (g, created) = consumerFor consumer nowMs g
      in if \<not> newOnly then
           let (es, ds) = read_history consumer after cnt x g
           in (Some g, False,
               \<lparr>rEntries = es, rDelivery = ds, rLastDelivered = lastDelivered g, rEntriesRead = entriesRead g,
                rConsumerCreated = created\<rparr>)
         else
           let is = new_indexes cnt x g;
               g' = fold (deliver nowMs consumer noack x) is g;
               d = (if noack then \<lparr>dConsumer = consumer, dDeliveryMs = 0, dDeliveryCount = 0\<rparr>
                    else \<lparr>dConsumer = consumer, dDeliveryMs = nowMs, dDeliveryCount = 1\<rparr>)
           in (Some g', is \<noteq> [],
               \<lparr>rEntries = map (\<lambda>i. StreamEntry_clone (entries x ! i)) is, rDelivery = map (\<lambda>_. d) is,
                rLastDelivered = lastDelivered g', rEntriesRead = entriesRead g', rConsumerCreated = created\<rparr>))"

definition XReadGroup :: "goenv \<Rightarrow> bytes \<Rightarrow> bytes \<Rightarrow> bytes \<Rightarrow> bool \<Rightarrow> StreamID \<Rightarrow> int \<Rightarrow> bool \<Rightarrow> store \<Rightarrow>
    XReadGroupResult sres \<times> store" where
  "XReadGroup env key grp consumer newOnly after cnt noack st =
     mutate_key key
       (group_body env grp (Inl ErrNoSuchStreamKey) (Inl ErrNoGroup)
          (read_group env consumer newOnly after cnt noack) st) st"

subsection \<open>Acknowledging\<close>

definition drop_pending :: "StreamID \<Rightarrow> streamNACK \<Rightarrow> streamGroup \<Rightarrow> streamGroup" where
  "drop_pending i nack g =
     upd_consumer (nackConsumer nack) (\<lambda>c. c\<lparr>cpel := gdel i (cpel c)\<rparr>) (g\<lparr>gpel := gdel i (gpel g)\<rparr>)"

fun ack_loop :: "StreamID list \<Rightarrow> streamGroup \<Rightarrow> int \<Rightarrow> streamGroup \<times> int" where
  "ack_loop [] g n = (g, n)"
| "ack_loop (i # is) g n =
     (case nack_at g i of
        None \<Rightarrow> ack_loop is g n
      | Some nack \<Rightarrow> ack_loop is (drop_pending i nack g) (n + 1))"

definition XAck :: "goenv \<Rightarrow> bytes \<Rightarrow> bytes \<Rightarrow> StreamID list \<Rightarrow> store \<Rightarrow> int sres \<times> store" where
  "XAck env key grp is st =
     mutate_key key
       (group_body env grp (Inr 0) (Inr 0) (\<lambda>x g. let (g', n) = ack_loop is g 0 in (Some g', n > 0, n)) st) st"

subsection \<open>Reporting what is pending\<close>

record StreamPending =
  pID :: StreamID
  pConsumer :: bytes
  ElapsedMs :: int
  pDeliveryCount :: int

record StreamPendingSummary =
  sumCount :: int
  sumMin :: StreamID
  sumMax :: StreamID
  sumConsumers :: "(bytes \<times> int) list"
  StreamGone :: bool

definition group_read :: "bytes \<Rightarrow> (streamGroup \<Rightarrow> 'r) \<Rightarrow> entry \<Rightarrow> entry \<times> 'r sres" where
  "group_read grp f e =
     (e, case val e of
           VStream x \<Rightarrow> (case map_of (groups x) grp of None \<Rightarrow> Inl ErrNoGroup | Some g \<Rightarrow> Inr (f g))
         | _ \<Rightarrow> Inl (StoreErr ErrWrongType))"

definition pending_summary :: "goenv \<Rightarrow> streamGroup \<Rightarrow> StreamPendingSummary" where
  "pending_summary env g =
     (if gpel g = [] then \<lparr>sumCount = 0, sumMin = zeroStreamID, sumMax = zeroStreamID, sumConsumers = [], StreamGone = False\<rparr>
      else
        let (_, mn, mx) =
          fold (\<lambda>i (first, mn, mx).
              (False, if first \<or> Compare i mn < 0 then i else mn, if first \<or> Compare i mx > 0 then i else mx))
            (map fst (gpel g)) (True, zeroStreamID, zeroStreamID)
        in \<lparr>sumCount = int (length (gpel g)), sumMin = mn, sumMax = mx,
            sumConsumers =
              sort_key fst
                (map (\<lambda>name. (name, int (length (cpel (the (map_of (consumers g) name))))))
                  (filter (\<lambda>name. cpel (the (map_of (consumers g) name)) \<noteq> []) (gkeys env (consumers g)))),
            StreamGone = False\<rparr>)"

definition XPendingSummary :: "goenv \<Rightarrow> bytes \<Rightarrow> bytes \<Rightarrow> store \<Rightarrow> StreamPendingSummary sres \<times> store" where
  "XPendingSummary env key grp st = read_key env key (Inl ErrNoGroup) (group_read grp (pending_summary env)) st"

definition pending_range :: "goenv \<Rightarrow> StreamID \<Rightarrow> StreamID \<Rightarrow> int \<Rightarrow> bytes \<Rightarrow> int \<Rightarrow> streamGroup \<Rightarrow> StreamPending list" where
  "pending_range env start end' cnt consumer minIdleMs g =
     (let nowMs = UnixMilli (now env);
          rows = \<lambda>pel.
            map (\<lambda>i. let nack = nacks g ! the (map_of pel i)
                  in \<lparr>pID = i, pConsumer = nackConsumer nack, ElapsedMs = wrap64 (nowMs - deliveryMs nack),
                      pDeliveryCount = deliveryCount nack\<rparr>)
              (limit_entries cnt
                (pel_ids
                  (\<lambda>i. \<not> (Compare i start < 0 \<or> Compare i end' > 0) \<and>
                     \<not> wrap64 (nowMs - deliveryMs (nacks g ! the (map_of pel i))) < minIdleMs) pel))
      in if consumer \<noteq> [] then (case map_of (consumers g) consumer of None \<Rightarrow> [] | Some c \<Rightarrow> rows (cpel c))
         else rows (gpel g))"

definition XPendingRange :: "goenv \<Rightarrow> bytes \<Rightarrow> bytes \<Rightarrow> StreamID \<Rightarrow> StreamID \<Rightarrow> int \<Rightarrow> bytes \<Rightarrow> int \<Rightarrow> store \<Rightarrow>
    StreamPending list sres \<times> store" where
  "XPendingRange env key grp start end' cnt consumer minIdleMs st =
     read_key env key (Inl ErrNoGroup) (group_read grp (pending_range env start end' cnt consumer minIdleMs)) st"

subsection \<open>Claiming\<close>

record XClaimOptions =
  MinIdleMs :: int
  HasIdle :: bool
  IdleMs :: int
  HasTime :: bool
  TimeMs :: int
  HasRetryCount :: bool
  RetryCount :: int
  Force :: bool
  JustID :: bool
  HasLastID :: bool
  claimLastID :: StreamID

record XClaimResult =
  claimEntry :: StreamEntry
  Present :: bool
  claimDeliveryMs :: int
  claimDeliveryCount :: int

text \<open>Handing one pending entry, at index \<open>k\<close> of the log, to the consumer.\<close>

definition claim_time :: "int \<Rightarrow> XClaimOptions \<Rightarrow> int" where
  "claim_time nowMs o' = (if HasTime o' then TimeMs o' else if HasIdle o' then wrap64 (nowMs - IdleMs o') else nowMs)"

definition claim_count :: "XClaimOptions \<Rightarrow> int \<Rightarrow> int" where
  "claim_count o' n = (if HasRetryCount o' then RetryCount o' else if \<not> JustID o' then wrap64 (n + 1) else n)"

definition hand_over :: "int \<Rightarrow> bytes \<Rightarrow> StreamID \<Rightarrow> int \<Rightarrow> (int \<Rightarrow> int) \<Rightarrow> streamGroup \<Rightarrow> streamGroup" where
  "hand_over nowMs consumer i t f g =
     (let a = the (map_of (gpel g) i); nack = nacks g ! a;
          g = (if nackConsumer nack \<noteq> consumer
               then upd_consumer (nackConsumer nack) (\<lambda>c. c\<lparr>cpel := gdel i (cpel c)\<rparr>) g else g);
          g = g\<lparr>nacks := (nacks g)[a := nack\<lparr>nackConsumer := consumer, deliveryMs := t,
                                     deliveryCount := f (deliveryCount nack)\<rparr>]\<rparr>
      in upd_consumer consumer (\<lambda>c. c\<lparr>cpel := gput i a (cpel c), activeMs := nowMs\<rparr>) g)"

definition claim_result :: "stream \<Rightarrow> nat \<Rightarrow> StreamID \<Rightarrow> streamGroup \<Rightarrow> XClaimResult" where
  "claim_result x k i g =
     (let nack = the (nack_at g i)
      in \<lparr>claimEntry = StreamEntry_clone (entries x ! k), Present = True, claimDeliveryMs = deliveryMs nack,
          claimDeliveryCount = deliveryCount nack\<rparr>)"

type_synonym claim_state = "streamGroup \<times> XClaimResult list \<times> StreamID list"

definition force_nack :: "int \<Rightarrow> bytes \<Rightarrow> XClaimOptions \<Rightarrow> stream \<Rightarrow> StreamID \<Rightarrow> streamGroup \<Rightarrow> streamGroup" where
  "force_nack nowMs consumer o' x i g =
     (if nack_at g i = None \<and> Force o' \<and> find_entry i x \<noteq> None
      then g\<lparr>nacks := nacks g @ [\<lparr>nackID = i, nackConsumer = consumer, deliveryMs = nowMs, deliveryCount = 0\<rparr>],
             gpel := gput i (length (nacks g)) (gpel g)\<rparr>
      else g)"

definition claim_step :: "int \<Rightarrow> bytes \<Rightarrow> int \<Rightarrow> int \<Rightarrow> (int \<Rightarrow> int) \<Rightarrow> stream \<Rightarrow> StreamID \<Rightarrow> claim_state \<Rightarrow> claim_state" where
  "claim_step nowMs consumer minIdle t f x i s =
     (let (g, claimed, deleted) = s
      in case nack_at g i of
           None \<Rightarrow> s
         | Some nack \<Rightarrow>
             if wrap64 (nowMs - deliveryMs nack) < minIdle then s
             else
               (case find_entry i x of
                  None \<Rightarrow> (drop_pending i nack g, claimed, deleted @ [i])
                | Some k \<Rightarrow>
                    let g' = hand_over nowMs consumer i t f g
                    in (g', claimed @ [claim_result x k i g'], deleted)))"

definition xclaim_step :: "int \<Rightarrow> bytes \<Rightarrow> XClaimOptions \<Rightarrow> stream \<Rightarrow> StreamID \<Rightarrow> claim_state \<Rightarrow> claim_state" where
  "xclaim_step nowMs consumer o' x i s =
     (let (g, claimed, deleted) = s
      in claim_step nowMs consumer (MinIdleMs o') (claim_time nowMs o') (claim_count o') x i
           (force_nack nowMs consumer o' x i g, claimed, deleted))"

definition claim_group :: "goenv \<Rightarrow> bytes \<Rightarrow> StreamID list \<Rightarrow> XClaimOptions \<Rightarrow> stream \<Rightarrow> streamGroup \<Rightarrow>
    streamGroup option \<times> bool \<times> XClaimResult list \<times> StreamID list \<times> bool" where
  "claim_group env consumer is o' x g =
     (let nowMs = UnixMilli (now env); (g, created) = consumerFor consumer nowMs g;
          (g, claimed, deleted) = fold (xclaim_step nowMs consumer o' x) is (g, [], []);
          g = (if HasLastID o' \<and> Compare (claimLastID o') (lastDelivered g) > 0 then g\<lparr>lastDelivered := claimLastID o'\<rparr> else g)
      in (Some g, claimed \<noteq> [] \<or> deleted \<noteq> [] \<or> created, claimed, deleted, created))"

definition XClaim :: "goenv \<Rightarrow> bytes \<Rightarrow> bytes \<Rightarrow> bytes \<Rightarrow> StreamID list \<Rightarrow> XClaimOptions \<Rightarrow> store \<Rightarrow>
    (XClaimResult list \<times> StreamID list \<times> bool) sres \<times> store" where
  "XClaim env key grp consumer is o' st =
     mutate_key key (group_body env grp (Inl ErrNoGroup) (Inl ErrNoGroup) (claim_group env consumer is o') st) st"

fun auto_loop :: "int \<Rightarrow> bytes \<Rightarrow> int \<Rightarrow> int \<Rightarrow> int \<Rightarrow> bool \<Rightarrow> stream \<Rightarrow> nat \<Rightarrow> StreamID list \<Rightarrow> claim_state \<Rightarrow> claim_state \<times> StreamID" where
  "auto_loop nowMs consumer minIdle cnt attempts justID x n [] s = (s, zeroStreamID)"
| "auto_loop nowMs consumer minIdle cnt attempts justID x n (i # is) s =
     (let (g, claimed, deleted) = s
      in if int (length claimed) + int (length deleted) \<ge> cnt \<or> int n \<ge> attempts then (s, i)
         else auto_loop nowMs consumer minIdle cnt attempts justID x (Suc n) is
                (claim_step nowMs consumer minIdle nowMs (\<lambda>m. if justID then m else wrap64 (m + 1)) x i s))"

definition auto_claim :: "goenv \<Rightarrow> bytes \<Rightarrow> StreamID \<Rightarrow> int \<Rightarrow> int \<Rightarrow> bool \<Rightarrow> stream \<Rightarrow> streamGroup \<Rightarrow>
    streamGroup option \<times> bool \<times> XClaimResult list \<times> StreamID list \<times> StreamID \<times> bool" where
  "auto_claim env consumer start minIdle cnt justID x g =
     (let nowMs = UnixMilli (now env); (g, created) = consumerFor consumer nowMs g;
          ids = pel_ids (\<lambda>i. Compare i start \<ge> 0) (gpel g);
          ((g, claimed, deleted), cursor) =
            auto_loop nowMs consumer minIdle cnt (wrap64 (cnt * 10)) justID x 0 ids (g, [], [])
      in (Some g, claimed \<noteq> [] \<or> deleted \<noteq> [] \<or> created, claimed, deleted, cursor, created))"

definition XAutoClaim :: "goenv \<Rightarrow> bytes \<Rightarrow> bytes \<Rightarrow> bytes \<Rightarrow> StreamID \<Rightarrow> int \<Rightarrow> int \<Rightarrow> bool \<Rightarrow> store \<Rightarrow>
    (XClaimResult list \<times> StreamID list \<times> StreamID \<times> bool) sres \<times> store" where
  "XAutoClaim env key grp consumer start minIdle cnt justID st =
     mutate_key key
       (group_body env grp (Inl ErrNoGroup) (Inl ErrNoGroup) (auto_claim env consumer start minIdle cnt justID) st) st"

subsection \<open>Pending-entries maps lead to their NACKs\<close>

lemma pel_ok_del: "pel_ok ns pel \<Longrightarrow> pel_ok ns (gdel i pel)"
  by (auto simp: pel_ok_def split: if_splits)

lemma pel_ok_update: "pel_ok ns pel \<Longrightarrow> nackID n = nackID (ns ! a) \<Longrightarrow> pel_ok (ns[a := n]) pel"
  by (cases "a < length ns") (auto simp: pel_ok_def nth_list_update list_update_beyond)

lemma group_okD:
  assumes "group_ok g"
  shows "pel_ok (nacks g) (gpel g)" "gmap_wf (consumers g)"
    "map_of (consumers g) n = Some c \<Longrightarrow> cname c = n" "map_of (consumers g) n = Some c \<Longrightarrow> pel_ok (nacks g) (cpel c)"
  using assms by (auto simp: group_ok_def)

lemma upd_consumer_simps [simp]:
  "lastDelivered (upd_consumer n f g) = lastDelivered g" "entriesRead (upd_consumer n f g) = entriesRead g"
  "hasEntriesRead (upd_consumer n f g) = hasEntriesRead g" "nacks (upd_consumer n f g) = nacks g" "gpel (upd_consumer n f g) = gpel g"
  "map_of (consumers (upd_consumer n f g)) m = (if m = n then map_option f (map_of (consumers g) n) else map_of (consumers g) m)"
  by (auto simp: upd_consumer_def split: option.split)

lemma upd_consumer_wf: "gmap_wf (consumers g) \<Longrightarrow> gmap_wf (consumers (upd_consumer n f g))"
  by (auto simp: upd_consumer_def split: option.split)

lemma upd_consumer_ok:
  assumes "group_ok g" "\<And>c. cname (f c) = cname c"
    and "\<And>c. map_of (consumers g) n = Some c \<Longrightarrow> pel_ok (nacks g) (cpel (f c))"
  shows "group_ok (upd_consumer n f g)"
  using assms group_okD [OF assms(1)] by (auto simp: group_ok_def upd_consumer_wf split: if_splits)

lemma consumerFor_ok: "group_ok g \<Longrightarrow> group_ok (fst (consumerFor n t g))"
  by (auto simp: consumerFor_def group_ok_def pel_ok_def split: option.split)

lemma consumerFor_simps [simp]:
  "gpel (fst (consumerFor n t g)) = gpel g" "nacks (fst (consumerFor n t g)) = nacks g"
  "lastDelivered (fst (consumerFor n t g)) = lastDelivered g" "hasEntriesRead (fst (consumerFor n t g)) = hasEntriesRead g"
  "entriesRead (fst (consumerFor n t g)) = entriesRead g"
  "map_of (consumers (fst (consumerFor n t g))) m =
     (if m = n then Some (case map_of (consumers g) n of
         None \<Rightarrow> \<lparr>cname = n, seenMs = t, activeMs = t, cpel = []\<rparr> | Some c \<Rightarrow> c\<lparr>seenMs := t\<rparr>)
      else map_of (consumers g) m)"
  by (auto simp: consumerFor_def split: option.split)

lemma fold_gdel: "map_of (fold (\<lambda>(i, _). gdel i) xs m) i = (if i \<in> fst ` set xs then None else map_of m i)"
  by (induction xs arbitrary: m) auto

lemma del_consumer_ok: "group_ok g \<Longrightarrow> fst (del_consumer n g) = Some g' \<Longrightarrow> group_ok g'"
proof -
  have "pel_ok ns pel \<Longrightarrow> pel_ok ns (fold (\<lambda>(i, _). gdel i) xs pel)" for ns pel and xs :: "(StreamID \<times> nat) list"
    by (induction xs arbitrary: pel) (auto intro: pel_ok_del)
  then show "group_ok g \<Longrightarrow> fst (del_consumer n g) = Some g' \<Longrightarrow> group_ok g'"
    by (auto simp: del_consumer_def group_ok_def split: option.splits if_splits)
qed

lemma add_nack_ok:
  assumes "group_ok g" "nackID n = i"
  shows "group_ok (g\<lparr>nacks := nacks g @ [n], gpel := gput i (length (nacks g)) (gpel g)\<rparr>)"
  using group_okD [OF assms(1)] assms(2) pel_ok_put [OF pel_ok_append [OF group_okD(1) [OF assms(1)]], of "length (nacks g)" "[n]" i]
  by (auto simp: group_ok_def nth_append intro!: pel_ok_append)

lemma deliver_ok: "group_ok g \<Longrightarrow> group_ok (deliver t n b x k g)"
proof -
  assume g: "group_ok g"
  let ?g = "upd_consumer n (\<lambda>c. c\<lparr>activeMs := t\<rparr>) (g\<lparr>lastDelivered := ID (entries x ! k),
    entriesRead := (if hasEntriesRead g then wrap64 (entriesRead g + 1) else wrap64 (sint (added x) - (int (length (entries x)) - 1 - int k))),
    hasEntriesRead := True\<rparr>)"
  let ?n = "\<lparr>nackID = ID (entries x ! k), nackConsumer = n, deliveryMs = t, deliveryCount = 1\<rparr>"
  let ?h = "?g\<lparr>nacks := nacks ?g @ [?n], gpel := gput (ID (entries x ! k)) (length (nacks ?g)) (gpel ?g)\<rparr>"
  have "group_ok (g\<lparr>lastDelivered := i, entriesRead := m, hasEntriesRead := b\<rparr>)" for i m b using g by (simp add: group_ok_def)
  then have g': "group_ok ?g" using g by (intro upd_consumer_ok) (auto simp: group_ok_def)
  have h: "group_ok ?h" by (rule add_nack_ok [OF g']) simp
  have p: "pel_ok (nacks g @ [?n]) (gput (ID (entries x ! k)) (length (nacks g)) pel)" if "pel_ok (nacks g) pel" for pel
    using pel_ok_put [OF pel_ok_append [OF that, of "[?n]"], of "length (nacks g)"] by (simp add: nth_append)
  have "group_ok (upd_consumer n (\<lambda>c. c\<lparr>cpel := gput (ID (entries x ! k)) (length (nacks ?g)) (cpel c)\<rparr>) ?h)"
    by (rule upd_consumer_ok [OF h]) (auto intro!: p dest: group_okD(4) [OF g])
  with g' show "group_ok (deliver t n b x k g)" by (simp add: deliver_def Let_def)
qed

lemma fold_deliver_ok: "group_ok g \<Longrightarrow> group_ok (fold (deliver t n b x) ks g)"
  by (induction ks arbitrary: g) (simp_all add: deliver_ok)

lemma drop_pending_ok: "group_ok g \<Longrightarrow> group_ok (drop_pending i nack g)"
  unfolding drop_pending_def
  by (rule upd_consumer_ok) (auto simp: group_ok_def intro: pel_ok_del)

lemma ack_loop_ok: "group_ok g \<Longrightarrow> group_ok (fst (ack_loop is g n))"
  by (induction "is" g n rule: ack_loop.induct) (auto simp: drop_pending_ok split: option.split)

lemma hand_over_ok:
  assumes "group_ok g" "nack_at g i \<noteq> None"
  shows "group_ok (hand_over t n i t' f g)"
proof -
  obtain a where a: "map_of (gpel g) i = Some a" using assms(2) by (auto simp: nack_at_def)
  have b: "a < length (nacks g)" "nackID (nacks g ! a) = i" using group_okD(1) [OF assms(1)] a by (auto simp: pel_ok_def)
  let ?g = "if nackConsumer (nacks g ! a) \<noteq> n
    then upd_consumer (nackConsumer (nacks g ! a)) (\<lambda>c. c\<lparr>cpel := gdel i (cpel c)\<rparr>) g else g"
  let ?n = "(nacks g ! a)\<lparr>nackConsumer := n, deliveryMs := t', deliveryCount := f (deliveryCount (nacks g ! a))\<rparr>"
  obtain G where G: "?g = G" "group_ok G" "nacks G = nacks g"
  proof (rule that [of ?g])
    have "group_ok (upd_consumer m (\<lambda>c. c\<lparr>cpel := gdel i (cpel c)\<rparr>) g)" for m
      by (rule upd_consumer_ok [OF assms(1)]) (simp_all add: pel_ok_del group_okD(4) [OF assms(1)])
    then show "group_ok ?g" using assms(1) by simp
    show "nacks ?g = nacks g" by simp
  qed simp
  have u: "pel_ok ((nacks g)[a := ?n]) pel" if "pel_ok (nacks g) pel" for pel by (rule pel_ok_update [OF that]) simp
  have h: "group_ok (G\<lparr>nacks := (nacks g)[a := ?n]\<rparr>)"
    using G(2) u unfolding group_ok_def by (simp add: G(3))
  have "group_ok (upd_consumer n (\<lambda>c. c\<lparr>cpel := gput i a (cpel c), activeMs := t\<rparr>) (G\<lparr>nacks := (nacks g)[a := ?n]\<rparr>))"
  proof (rule upd_consumer_ok [OF h])
    fix c assume "map_of (consumers (G\<lparr>nacks := (nacks g)[a := ?n]\<rparr>)) n = Some c"
    then have "pel_ok ((nacks g)[a := ?n]) (cpel c)" using group_okD(4) [OF h] by simp
    then show "pel_ok (nacks (G\<lparr>nacks := (nacks g)[a := ?n]\<rparr>)) (cpel (c\<lparr>cpel := gput i a (cpel c), activeMs := t\<rparr>))"
      using b by (simp add: pel_ok_put)
  qed simp
  moreover have "hand_over t n i t' f g = upd_consumer n (\<lambda>c. c\<lparr>cpel := gput i a (cpel c), activeMs := t\<rparr>) (G\<lparr>nacks := (nacks g)[a := ?n]\<rparr>)"
    unfolding hand_over_def Let_def a option.sel G(1) G(3) ..
  ultimately show ?thesis by simp
qed

lemma force_nack_ok: "group_ok g \<Longrightarrow> group_ok (force_nack t n o' x i g)"
  by (auto simp: force_nack_def intro: add_nack_ok)

lemma claim_step_ok: "group_ok (fst s) \<Longrightarrow> group_ok (fst (claim_step t n m t' f x i s))"
  by (cases s) (auto simp: claim_step_def Let_def intro: drop_pending_ok hand_over_ok split: option.split)

lemma fold_claim_ok: "group_ok (fst s) \<Longrightarrow> group_ok (fst (fold (xclaim_step t n o' x) is s))"
proof (induction "is" arbitrary: s)
  case (Cons i "is")
  have "group_ok (fst (xclaim_step t n o' x i s))"
    using Cons.prems by (cases s) (auto simp: xclaim_step_def Let_def intro!: claim_step_ok force_nack_ok)
  then show ?case using Cons.IH by simp
qed simp

lemma auto_loop_ok: "group_ok (fst s) \<Longrightarrow> group_ok (fst (fst (auto_loop t n m cnt att j x k is s)))"
proof (induction "is" arbitrary: s k)
  case (Cons i "is")
  then show ?case by (cases s) (auto simp: Let_def intro!: Cons.IH claim_step_ok)
qed simp

lemma group_updates_ok:
  assumes "group_ok g"
  shows "fst (read_group env n b i c na x g) = Some g' \<Longrightarrow> group_ok g'"
    "fst (claim_group env n is o' x g) = Some g' \<Longrightarrow> group_ok g'"
    "fst (auto_claim env n i m c j x g) = Some g' \<Longrightarrow> group_ok g'"
proof -
  let ?t = "UnixMilli (now env)"
  have c: "group_ok (fst (consumerFor n ?t g))" by (rule consumerFor_ok [OF assms])
  then show "fst (read_group env n b i c na x g) = Some g' \<Longrightarrow> group_ok g'"
    by (auto simp: read_group_def Let_def split_def fold_deliver_ok split: if_splits)
  have l: "group_ok (h\<lparr>lastDelivered := j\<rparr>) = group_ok h" for h j by (simp add: group_ok_def)
  have "group_ok (fst (fold (xclaim_step ?t n o' x) is (fst (consumerFor n ?t g), [], [])))"
    by (rule fold_claim_ok) (simp add: c)
  then show "fst (claim_group env n is o' x g) = Some g' \<Longrightarrow> group_ok g'"
    by (auto simp: claim_group_def Let_def split_def l)
  have "group_ok (fst (fst (auto_loop ?t n m c (wrap64 (c * 10)) j x 0 is (fst (consumerFor n ?t g), [], []))))" for "is"
    by (rule auto_loop_ok) (simp add: c)
  then show "fst (auto_claim env n i m c j x g) = Some g' \<Longrightarrow> group_ok g'"
    by (auto simp: auto_claim_def Let_def split_def)
qed

text \<open>A group operation is a plain slot update that keeps the group well formed.\<close>

locale group_update =
  fixes op :: "store \<Rightarrow> 'r sres \<times> store" and env :: goenv and key grp :: bytes and nokey nogroup :: "'r sres"
    and f :: "stream \<Rightarrow> streamGroup \<Rightarrow> streamGroup option \<times> bool \<times> 'r"
  assumes op_eq: "op st = mutate_key key (group_body env grp nokey nogroup f st) st"
    and f_ok: "group_ok g \<Longrightarrow> fst (f x g) = Some g' \<Longrightarrow> group_ok g'"
begin

lemma body_ok: "slot_ok slot \<Longrightarrow> slot_ok (fst (group_body env grp nokey nogroup f st slot))"
proof -
  assume s: "slot_ok slot"
  have "stream_ok (x\<lparr>groups := gset grp (fst (f x g)) (groups x)\<rparr>)"
    if "stream_ok x" "map_of (groups x) grp = Some g" for x g
    using that f_ok [of g x] by (cases "fst (f x g)") (auto simp: stream_ok_def split: if_splits)
  with s show ?thesis using stream_entry_ok [OF s]
    by (auto simp: group_body_def Let_def split_def entry_ok_touch split: option.split val.split)
qed

lemma cost: "slot_cost (fst (group_body env grp nokey nogroup f st slot)) = slot_cost slot"
  using liveSlot_SomeD [of "now env" slot]
  by (auto simp: group_body_def Let_def split_def stream_cost split: option.split val.split)

lemma view:
  assumes "store_wf st" "stream_at (now env) st key = Some x" "map_of (groups x) grp = Some g" "f x g = (g', tch, r)"
  shows "fst (op st) = Inr r"
    "stream_at (now env) (snd (op st)) key = Some (x\<lparr>groups := gset grp g' (groups x)\<rparr>)"
proof -
  obtain e where e: "liveSlot (now env) (get_slot st key) = Some e" "val e = VStream x"
    using assms(2) by (auto simp: stream_at_def liveEntry_def split: option.splits val.splits)
  show "fst (op st) = Inr r" using e assms(3,4) by (simp add: op_eq mutate_key_def Let_def split_def group_body_def)
  show "stream_at (now env) (snd (op st)) key = Some (x\<lparr>groups := gset grp g' (groups x)\<rparr>)"
    using e assms liveSlot_SomeD [OF e(1)]
    by (auto simp: op_eq mutate_key_def Let_def split_def group_body_def get_put_slot stream_at_def liveEntry_def liveSlot_def
        expired_touch expired_def)
qed

end

sublocale group_update \<subseteq> upd: key_mutator op key "group_body env grp nokey nogroup f"
  by unfold_locales (rule op_eq, rule body_ok)

context group_update
begin

lemma inv: "store_inv st \<Longrightarrow> store_inv (snd (op st))"
  by (rule upd.inv) (simp_all add: cost)

end

interpretation xgsetid: group_update "XGroupSetID env key grp i has n" env key grp "Inl ErrNoSuchStreamKey" "Inl ErrNoGroup"
  "\<lambda>x g. (Some (g\<lparr>lastDelivered := i, entriesRead := n, hasEntriesRead := has\<rparr>), True, ())" for env key grp i has n
  by unfold_locales (auto simp: XGroupSetID_def group_ok_def)

interpretation xgdestroy: group_update "XGroupDestroy env key grp" env key grp "Inl ErrNoSuchStreamKey" "Inr False"
  "\<lambda>x g. (None, True, True)" for env key grp
  by unfold_locales (simp_all add: XGroupDestroy_def)

interpretation xgcc: group_update "XGroupCreateConsumer env key grp c" env key grp "Inl ErrNoSuchStreamKey" "Inl ErrNoGroup"
  "\<lambda>x g. let (g', created) = consumerFor c (UnixMilli (now env)) g in (Some g', created, created)" for env key grp c
  by unfold_locales (auto simp: XGroupCreateConsumer_def Let_def split_def consumerFor_ok)

interpretation xgdel: group_update "XGroupDelConsumer env key grp c" env key grp "Inl ErrNoSuchStreamKey" "Inl ErrNoGroup"
  "\<lambda>x g. del_consumer c g" for env key grp c
  by unfold_locales (simp_all add: XGroupDelConsumer_def del_consumer_ok)

interpretation xrg: group_update "XReadGroup env key grp c b i n na" env key grp "Inl ErrNoSuchStreamKey" "Inl ErrNoGroup"
  "read_group env c b i n na" for env key grp c b i n na
  by unfold_locales (simp add: XReadGroup_def, rule group_updates_ok(1))

interpretation xack: group_update "XAck env key grp is" env key grp "Inr 0" "Inr 0"
  "\<lambda>x g. let (g', n) = ack_loop is g 0 in (Some g', n > 0, n)" for env key grp "is"
  by unfold_locales (auto simp: XAck_def Let_def split_def ack_loop_ok)

interpretation xclaim: group_update "XClaim env key grp c is o'" env key grp "Inl ErrNoGroup" "Inl ErrNoGroup"
  "claim_group env c is o'" for env key grp c "is" o'
  by unfold_locales (simp add: XClaim_def, rule group_updates_ok(2))

interpretation xauto: group_update "XAutoClaim env key grp c i m n j" env key grp "Inl ErrNoGroup" "Inl ErrNoGroup"
  "auto_claim env c i m n j" for env key grp c i m n j
  by unfold_locales (simp add: XAutoClaim_def, rule group_updates_ok(3))

lemma xGroupCreate_ok: "slot_ok slot \<Longrightarrow> slot_ok (fst (xGroupCreate_body env grp i mk n has st slot))"
proof -
  assume s: "slot_ok slot"
  have "stream_ok (x\<lparr>groups := gput grp (newStreamGroup i n has) (groups x)\<rparr>)" if "stream_ok x" for x
    using that by (auto simp: stream_ok_def)
  with s show ?thesis using stream_entry_ok [OF s] liveSlot_SomeD [of "now env" slot]
    by (auto simp: xGroupCreate_body_def Let_def entry_ok_touch new_stream_ok split: option.split val.split)
qed

interpretation xgcreate: key_mutator "XGroupCreate env key grp i mk n has" key "xGroupCreate_body env grp i mk n has"
  for env key grp i mk n has
  by unfold_locales (simp_all add: XGroupCreate_def xGroupCreate_ok)

interpretation xpsum: key_reader "\<lambda>env. XPendingSummary env key grp" key "Inl ErrNoGroup"
  "\<lambda>env st. group_read grp (pending_summary env)" for key grp
  by unfold_locales (simp_all add: XPendingSummary_def group_read_def same_value_refl)

interpretation xprange: key_reader "\<lambda>env. XPendingRange env key grp a b c n m" key "Inl ErrNoGroup"
  "\<lambda>env st. group_read grp (pending_range env a b c n m)" for key grp a b c n m
  by unfold_locales (simp_all add: XPendingRange_def group_read_def same_value_refl)

subsection \<open>A consumer's share of the pending entries\<close>

definition owner :: "streamGroup \<Rightarrow> StreamID \<Rightarrow> bytes option" where
  "owner g i = map_option nackConsumer (nack_at g i)"

text \<open>Every pending entry belongs to a consumer of the group, and what a consumer holds is exactly what
  belongs to it.\<close>

definition shares_ok :: "streamGroup \<Rightarrow> bool" where
  "shares_ok g \<longleftrightarrow>
     group_ok g \<and> (\<forall>i n. owner g i = Some n \<longrightarrow> map_of (consumers g) n \<noteq> None) \<and>
     (\<forall>n c. map_of (consumers g) n = Some c \<longrightarrow>
        map_of (cpel c) = (\<lambda>i. if owner g i = Some n then map_of (gpel g) i else None))"

lemma sharesD:
  assumes "shares_ok g"
  shows "group_ok g" "owner g i = Some n \<Longrightarrow> map_of (consumers g) n \<noteq> None"
    "map_of (consumers g) n = Some c \<Longrightarrow> map_of (cpel c) i = (if owner g i = Some n then map_of (gpel g) i else None)"
  using assms by (auto simp: shares_ok_def)

lemma owner_cong: "gpel g' = gpel g \<Longrightarrow> nacks g' = nacks g \<Longrightarrow> owner g' = owner g"
  by (auto simp: owner_def nack_at_def)

lemma pending_addr: "group_ok g \<Longrightarrow> map_of (gpel g) i = Some a \<Longrightarrow> a < length (nacks g) \<and> nackID (nacks g ! a) = i"
  using group_okD(1) [of g] by (auto simp: pel_ok_def)

lemma newStreamGroup_shares: "shares_ok (newStreamGroup i n b)"
  by (simp add: shares_ok_def newStreamGroup_ok) (simp add: newStreamGroup_def owner_def nack_at_def)

lemma consumerFor_shares: "shares_ok g \<Longrightarrow> shares_ok (fst (consumerFor n t g))"
proof -
  assume s: "shares_ok g"
  have o: "owner (fst (consumerFor n t g)) = owner g" by (rule owner_cong) simp_all
  have "owner g i \<noteq> Some n" if "map_of (consumers g) n = None" for i using sharesD(2) [OF s, of i n] that by auto
  then show ?thesis using s
    by (auto simp: shares_ok_def o consumerFor_ok split: option.split)
qed

lemma setid_shares: "shares_ok g \<Longrightarrow> shares_ok (g\<lparr>lastDelivered := i, entriesRead := n, hasEntriesRead := b\<rparr>)"
  by (simp add: shares_ok_def group_ok_def owner_def nack_at_def cong: if_cong)

lemma upd_consumer_shares:
  assumes "shares_ok g" "\<And>c. cname (f c) = cname c \<and> cpel (f c) = cpel c"
  shows "shares_ok (upd_consumer n f g)"
proof -
  have o: "owner (upd_consumer n f g) = owner g" by (rule owner_cong) simp_all
  have "group_ok (upd_consumer n f g)"
    by (rule upd_consumer_ok [OF sharesD(1) [OF assms(1)]]) (simp_all add: assms(2) group_okD(4) [OF sharesD(1) [OF assms(1)]])
  then show ?thesis using assms by (auto simp: shares_ok_def o split: if_splits)
qed

lemma del_consumer_shares:
  assumes "shares_ok g" "fst (del_consumer n g) = Some g'"
  shows "shares_ok g'"
proof (cases "map_of (consumers g) n")
  case None
  then show ?thesis using assms by (simp add: del_consumer_def)
next
  case (Some c)
  have g': "g' = g\<lparr>gpel := fold (\<lambda>(i, _). gdel i) (cpel c) (gpel g), consumers := gdel n (consumers g)\<rparr>"
    using assms(2) Some by (simp add: del_consumer_def)
  have k: "i \<in> fst ` set (cpel c) \<longleftrightarrow> owner g i = Some n" for i
  proof -
    have "i \<in> fst ` set (cpel c) \<longleftrightarrow> map_of (cpel c) i \<noteq> None" by (simp add: map_of_eq_None_iff)
    then show ?thesis using sharesD(3) [OF assms(1) Some, of i] by (auto simp: owner_def nack_at_def)
  qed
  have p: "map_of (gpel g') i = (if owner g i = Some n then None else map_of (gpel g) i)" for i
    by (simp add: g' fold_gdel k)
  have o: "owner g' i = (if owner g i = Some n then None else owner g i)" for i
    by (auto simp: owner_def nack_at_def p) (simp add: g')
  have "group_ok g'" by (rule del_consumer_ok [OF sharesD(1) [OF assms(1)] assms(2)])
  moreover have "map_of (consumers g') m = (if m = n then None else map_of (consumers g) m)" for m
    using Some by (simp add: g')
  ultimately show ?thesis using assms(1) by (auto simp: shares_ok_def o p split: if_splits)
qed

lemma drop_pending_shares:
  assumes "shares_ok g" "nack_at g i = Some nack"
  shows "shares_ok (drop_pending i nack g)"
proof -
  let ?g = "drop_pending i nack g"
  have p: "map_of (gpel ?g) j = (if j = i then None else map_of (gpel g) j)" for j by (simp add: drop_pending_def)
  have n: "nacks ?g = nacks g" by (simp add: drop_pending_def)
  have o: "owner ?g j = (if j = i then None else owner g j)" for j by (simp add: owner_def nack_at_def p n)
  have i: "owner g i = Some (nackConsumer nack)" using assms(2) by (simp add: owner_def)
  have C: "map_of (consumers ?g) m = (if m = nackConsumer nack
      then map_option (\<lambda>c. c\<lparr>cpel := gdel i (cpel c)\<rparr>) (map_of (consumers g) m) else map_of (consumers g) m)" for m
    by (simp add: drop_pending_def)
  show ?thesis unfolding shares_ok_def
  proof (intro conjI allI impI)
    show "group_ok ?g" by (rule drop_pending_ok [OF sharesD(1) [OF assms(1)]])
    show "map_of (consumers ?g) m \<noteq> None" if "owner ?g j = Some m" for j m
      using that sharesD(2) [OF assms(1), of j m] by (auto simp: o C split: if_splits)
    show "map_of (cpel c) = (\<lambda>j. if owner ?g j = Some m then map_of (gpel ?g) j else None)"
      if "map_of (consumers ?g) m = Some c" for m c
      using that sharesD(3) [OF assms(1)] i by (auto simp: o p C fun_eq_iff split: if_splits)
  qed
qed

lemma ack_loop_shares: "shares_ok g \<Longrightarrow> shares_ok (fst (ack_loop is g n))"
  by (induction "is" g n rule: ack_loop.induct) (auto simp: drop_pending_shares split: option.split)

text \<open>A delivery keeps the shares when the entry is not pending yet.\<close>

lemma add_pending_shares:
  assumes "shares_ok g" "map_of (consumers g) n \<noteq> None" "map_of (gpel g) i = None" "nackID nack = i" "nackConsumer nack = n"
  defines "h \<equiv> g\<lparr>nacks := nacks g @ [nack], gpel := gput i (length (nacks g)) (gpel g)\<rparr>"
  shows "shares_ok (upd_consumer n (\<lambda>c. c\<lparr>cpel := gput i (length (nacks g)) (cpel c), activeMs := k c\<rparr>) h)"
proof -
  let ?a = "length (nacks g)" and ?g = "upd_consumer n (\<lambda>c. c\<lparr>cpel := gput i (length (nacks g)) (cpel c), activeMs := k c\<rparr>) h"
  note ok = sharesD(1) [OF assms(1)]
  have h: "group_ok h" unfolding h_def by (rule add_nack_ok [OF ok assms(4)])
  have p: "map_of (gpel ?g) j = (if j = i then Some ?a else map_of (gpel g) j)" for j by (simp add: h_def)
  have N: "nacks ?g = nacks g @ [nack]" by (simp add: h_def)
  have o: "owner ?g j = (if j = i then Some n else owner g j)" for j
    using pending_addr [OF ok, of j] assms(5)
    by (cases "map_of (gpel g) j") (auto simp: owner_def nack_at_def h_def nth_append)
  have C: "map_of (consumers ?g) m = (if m = n
      then map_option (\<lambda>c. c\<lparr>cpel := gput i ?a (cpel c), activeMs := k c\<rparr>) (map_of (consumers g) m)
      else map_of (consumers g) m)" for m by (simp add: h_def)
  have hc: "consumers h = consumers g" "gpel h = gput i ?a (gpel g)" by (simp_all add: h_def)
  have i: "owner g i = None" using assms(3) by (simp add: owner_def nack_at_def)
  have G: "group_ok ?g"
  proof (rule upd_consumer_ok [OF h])
    fix c assume "map_of (consumers h) n = Some c"
    then have "pel_ok (nacks h) (cpel c)" by (rule group_okD(4) [OF h])
    then show "pel_ok (nacks h) (cpel (c\<lparr>cpel := gput i ?a (cpel c), activeMs := k c\<rparr>))"
      using assms(4) by (simp add: pel_ok_put h_def nth_append)
  qed simp
  show ?thesis unfolding shares_ok_def
  proof (intro conjI allI impI)
    show "group_ok ?g" by (rule G)
    show "map_of (consumers ?g) m \<noteq> None" if "owner ?g j = Some m" for j m
      using that sharesD(2) [OF assms(1), of j m] assms(2) by (auto simp: o C hc split: if_splits)
    show "map_of (cpel c) = (\<lambda>j. if owner ?g j = Some m then map_of (gpel ?g) j else None)"
      if "map_of (consumers ?g) m = Some c" for m c
      using that sharesD(3) [OF assms(1)] i by (auto simp: o p C hc fun_eq_iff split: if_splits)
  qed
qed

lemma hand_over_shares:
  assumes "shares_ok g" "map_of (consumers g) n \<noteq> None" "map_of (gpel g) i = Some a"
  shows "shares_ok (hand_over t n i t' f g)"
proof -
  let ?g = "hand_over t n i t' f g" and ?p = "nackConsumer (nacks g ! a)"
  note ok = sharesD(1) [OF assms(1)]
  have a: "a < length (nacks g)" "nackID (nacks g ! a) = i" using pending_addr [OF ok assms(3)] by simp_all
  have p: "gpel ?g = gpel g" by (simp add: hand_over_def Let_def)
  have N: "nacks ?g = (nacks g)[a := (nacks g ! a)\<lparr>nackConsumer := n, deliveryMs := t', deliveryCount := f (deliveryCount (nacks g ! a))\<rparr>]"
    by (simp add: hand_over_def Let_def assms(3))
  have o: "owner ?g j = (if j = i then Some n else owner g j)" for j
    using pending_addr [OF ok, of j] a assms(3)
    by (cases "map_of (gpel g) j") (auto simp: owner_def nack_at_def p N nth_list_update)
  have C: "map_of (consumers ?g) m = map_option (\<lambda>c. if m = n then c\<lparr>cpel := gput i a (cpel c), activeMs := t\<rparr>
      else if m = ?p then c\<lparr>cpel := gdel i (cpel c)\<rparr> else c) (map_of (consumers g) m)" for m
    by (cases "map_of (consumers g) m") (auto simp: hand_over_def Let_def assms(3))
  have i: "owner g i = Some ?p" using assms(3) by (simp add: owner_def nack_at_def)
  show ?thesis unfolding shares_ok_def
  proof (intro conjI allI impI)
    show "group_ok ?g" by (rule hand_over_ok [OF ok]) (simp add: nack_at_def assms(3))
    show "map_of (consumers ?g) m \<noteq> None" if "owner ?g j = Some m" for j m
      using that sharesD(2) [OF assms(1), of j m] assms(2) by (auto simp: o C split: if_splits)
    show "map_of (cpel c) = (\<lambda>j. if owner ?g j = Some m then map_of (gpel ?g) j else None)"
      if c: "map_of (consumers ?g) m = Some c" for m c
    proof
      obtain z where z: "map_of (consumers g) m = Some z" using c by (cases "map_of (consumers g) m") (auto simp: C)
      fix j
      have "map_of (cpel c) j = (if m = n then (if j = i then Some a else map_of (cpel z) j)
          else if m = ?p then (if j = i then None else map_of (cpel z) j) else map_of (cpel z) j)"
        using c by (auto simp: C z)
      then show "map_of (cpel c) j = (if owner ?g j = Some m then map_of (gpel ?g) j else None)"
        using sharesD(3) [OF assms(1) z, of j] i assms(3) by (auto simp: o p)
    qed
  qed
qed

lemma claim_step_shares:
  assumes "shares_ok (fst s)" "map_of (consumers (fst s)) n \<noteq> None"
  shows "shares_ok (fst (claim_step t n m t' f x i s)) \<and> map_of (consumers (fst (claim_step t n m t' f x i s))) n \<noteq> None"
proof -
  obtain g cl del where s: "s = (g, cl, del)" by (cases s)
  have d: "shares_ok (drop_pending i nack g)" if "nack_at g i = Some nack" for nack
    using assms(1) that by (simp add: s drop_pending_shares)
  have h: "shares_ok (hand_over t n i t' f g)" if "nack_at g i = Some nack" for nack
    using assms that hand_over_shares [of g n i] by (auto simp: s nack_at_def)
  show ?thesis using assms d h
    by (auto simp: claim_step_def s Let_def drop_pending_def hand_over_def split: option.split)
qed

text \<open>A claim keeps the shares, forced or not, unless it forces an entry and then finds it not idle enough.\<close>

lemma xclaim_step_shares:
  assumes "shares_ok (fst s)" "map_of (consumers (fst s)) n \<noteq> None" "Force o' \<longrightarrow> MinIdleMs o' \<le> 0" "int64_range t"
  shows "shares_ok (fst (xclaim_step t n o' x i s)) \<and> map_of (consumers (fst (xclaim_step t n o' x i s))) n \<noteq> None"
proof -
  obtain g cl del where s: "s = (g, cl, del)" by (cases s)
  let ?cs = "claim_step t n (MinIdleMs o') (claim_time t o') (claim_count o') x i"
  show ?thesis
  proof (cases "nack_at g i = None \<and> Force o' \<and> find_entry i x \<noteq> None")
    case False
    then have "force_nack t n o' x i g = g" by (auto simp: force_nack_def)
    then show ?thesis using claim_step_shares [OF assms(1,2)] by (simp add: xclaim_step_def s)
  next
    case True
    then obtain k where k: "find_entry i x = Some k" by auto
    let ?n = "\<lparr>nackID = i, nackConsumer = n, deliveryMs = t, deliveryCount = 0\<rparr>" and ?a = "length (nacks g)"
    let ?h = "g\<lparr>nacks := nacks g @ [?n], gpel := gput i ?a (gpel g)\<rparr>"
    let ?m = "?n\<lparr>deliveryMs := claim_time t o', deliveryCount := claim_count o' 0\<rparr>"
    have f: "force_nack t n o' x i g = ?h" using True by (simp add: force_nack_def)
    have p: "map_of (gpel g) i = None" using True by (simp add: nack_at_def)
    have "wrap64 (t - t) = 0" by (simp add: wrap64_id int64_range_def)
    then have "fst (?cs (?h, cl, del)) = hand_over t n i (claim_time t o') (claim_count o') ?h"
      using assms(3) True k by (simp add: claim_step_def Let_def nack_at_def nth_append)
    also have "\<dots> = upd_consumer n (\<lambda>c. c\<lparr>cpel := gput i ?a (cpel c), activeMs := t\<rparr>)
        (g\<lparr>nacks := nacks g @ [?m], gpel := gput i ?a (gpel g)\<rparr>)"
      by (cases g) (simp add: hand_over_def Let_def nth_append)
    finally have e: "fst (xclaim_step t n o' x i s) = upd_consumer n (\<lambda>c. c\<lparr>cpel := gput i ?a (cpel c), activeMs := t\<rparr>)
        (g\<lparr>nacks := nacks g @ [?m], gpel := gput i ?a (gpel g)\<rparr>)" by (simp add: xclaim_step_def s f)
    have "shares_ok g" "map_of (consumers g) n \<noteq> None" using assms(1,2) by (simp_all add: s)
    then show ?thesis unfolding e
      using add_pending_shares [OF _ _ p, of n ?m "\<lambda>_. t"] by simp
  qed
qed

lemma fold_xclaim_shares:
  assumes "shares_ok (fst s)" "map_of (consumers (fst s)) n \<noteq> None" "Force o' \<longrightarrow> MinIdleMs o' \<le> 0" "int64_range t"
  shows "shares_ok (fst (fold (xclaim_step t n o' x) is s))"
  using assms(1,2)
proof (induction "is" arbitrary: s)
  case (Cons i "is")
  then show ?case using xclaim_step_shares [OF Cons.prems assms(3,4)] by (simp add: Cons.IH)
qed simp

lemma auto_loop_shares:
  assumes "shares_ok (fst s)" "map_of (consumers (fst s)) n \<noteq> None"
  shows "shares_ok (fst (fst (auto_loop t n m cnt att j x k is s)))"
  using assms
proof (induction "is" arbitrary: s k)
  case (Cons i "is")
  show ?case using claim_step_shares [OF Cons.prems] Cons.prems(1) Cons.IH by (simp add: Let_def split_def)
qed simp

lemma claims_shares:
  assumes "shares_ok g"
  shows "int64_range (UnixMilli (now env)) \<Longrightarrow> Force o' \<longrightarrow> MinIdleMs o' \<le> 0 \<Longrightarrow>
      fst (claim_group env n is o' x g) = Some g' \<Longrightarrow> shares_ok g'"
    and "fst (auto_claim env n i m c j x g) = Some g' \<Longrightarrow> shares_ok g'"
proof -
  let ?t = "UnixMilli (now env)" and ?g = "fst (consumerFor n (UnixMilli (now env)) g)"
  have l: "shares_ok (h\<lparr>lastDelivered := j\<rparr>) = shares_ok h" for h j
    by (simp add: shares_ok_def group_ok_def owner_def nack_at_def cong: if_cong)
  have g: "shares_ok (fst (?g, [], []))" "map_of (consumers (fst (?g, [], []))) n \<noteq> None"
    using consumerFor_shares [OF assms] by simp_all
  show "int64_range ?t \<Longrightarrow> Force o' \<longrightarrow> MinIdleMs o' \<le> 0 \<Longrightarrow> fst (claim_group env n is o' x g) = Some g' \<Longrightarrow> shares_ok g'"
    using fold_xclaim_shares [OF g] by (auto simp: claim_group_def Let_def split_def l)
  show "fst (auto_claim env n i m c j x g) = Some g' \<Longrightarrow> shares_ok g'"
    using auto_loop_shares [OF g] by (auto simp: auto_claim_def Let_def split_def)
qed

subsection \<open>New deliveries\<close>

text \<open>A group whose pending entries are all at or before its position, as every group is that was never moved back.\<close>

definition pel_behind :: "streamGroup \<Rightarrow> bool" where
  "pel_behind g \<longleftrightarrow> (\<forall>i. map_of (gpel g) i \<noteq> None \<longrightarrow> i \<le> lastDelivered g)"

lemma deliver_fields:
  "lastDelivered (deliver t n na x k g) = ID (entries x ! k)"
  "map_of (gpel (deliver t n na x k g)) j =
     (if \<not> na \<and> j = ID (entries x ! k) then Some (length (nacks g)) else map_of (gpel g) j)"
  "map_of (consumers (deliver t n na x k g)) m = None \<longleftrightarrow> map_of (consumers g) m = None"
  by (simp_all add: deliver_def Let_def)

lemma deliver_shares:
  assumes "shares_ok g" "map_of (consumers g) n \<noteq> None" "pel_behind g" "lastDelivered g < ID (entries x ! k)"
  shows "shares_ok (deliver t n na x k g)" "pel_behind (deliver t n na x k g)"
proof -
  let ?i = "ID (entries x ! k)"
  show "pel_behind (deliver t n na x k g)"
    using assms(3,4) by (auto simp: pel_behind_def deliver_fields split: if_splits intro: order_trans less_imp_le)
  let ?g = "upd_consumer n (\<lambda>c. c\<lparr>activeMs := t\<rparr>) (g\<lparr>lastDelivered := ?i,
    entriesRead := (if hasEntriesRead g then wrap64 (entriesRead g + 1) else wrap64 (sint (added x) - (int (length (entries x)) - 1 - int k))),
    hasEntriesRead := True\<rparr>)"
  have g: "shares_ok ?g" by (rule upd_consumer_shares [OF setid_shares [OF assms(1)]]) simp
  have p: "map_of (gpel ?g) ?i = None" using assms(3,4) by (auto simp: pel_behind_def leD)
  have c: "map_of (consumers ?g) n \<noteq> None" using assms(2) by simp
  have "shares_ok (upd_consumer n (\<lambda>c. c\<lparr>cpel := gput ?i (length (nacks ?g)) (cpel c), activeMs := activeMs c\<rparr>)
      (?g\<lparr>nacks := nacks ?g @ [\<lparr>nackID = ?i, nackConsumer = n, deliveryMs = t, deliveryCount = 1\<rparr>],
          gpel := gput ?i (length (nacks ?g)) (gpel ?g)\<rparr>))"
    by (rule add_pending_shares [OF g c p]) simp_all
  with g show "shares_ok (deliver t n na x k g)" by (simp add: deliver_def Let_def)
qed

lemma fold_deliver:
  fixes t :: int and na :: bool
  assumes "shares_ok g" "map_of (consumers g) n \<noteq> None" "pel_behind g" "stream_ok x"
    and "sorted_wrt (<) ks" "\<forall>k \<in> set ks. k < length (entries x) \<and> lastDelivered g < ID (entries x ! k)"
  defines "h \<equiv> fold (deliver t n na x) ks g"
  shows "shares_ok h \<and> pel_behind h \<and>
    lastDelivered h = (if ks = [] then lastDelivered g else ID (entries x ! last ks)) \<and>
    (\<forall>i. map_of (gpel h) i \<noteq> None \<longleftrightarrow> map_of (gpel g) i \<noteq> None \<or> \<not> na \<and> (\<exists>k \<in> set ks. i = ID (entries x ! k)))"
  using assms(1-3,5,6) unfolding h_def
proof (induction ks arbitrary: g)
  case (Cons k ks)
  let ?d = "deliver t n na x k g"
  have k: "lastDelivered g < ID (entries x ! k)" using Cons.prems(5) by simp
  note D = deliver_shares [OF Cons.prems(1-3) k, of t na]
  have s: "sorted_wrt (<) (map ID (entries x))" using assms(4) by (simp add: stream_ok_def)
  have "ID (entries x ! k) < ID (entries x ! k')" if "k' \<in> set ks" for k'
  proof -
    have "\<And>i j. i < j \<Longrightarrow> j < length (entries x) \<Longrightarrow> ID (entries x ! i) < ID (entries x ! j)"
      using s by (simp add: sorted_wrt_iff_nth_less)
    moreover have "k < k'" "k' < length (entries x)" using that Cons.prems(4,5) by simp_all
    ultimately show ?thesis by blast
  qed
  then have f: "\<forall>k' \<in> set ks. k' < length (entries x) \<and> lastDelivered ?d < ID (entries x ! k')"
    using Cons.prems(5) by (simp add: deliver_fields)
  have c: "map_of (consumers ?d) n \<noteq> None" using Cons.prems(2) by (simp add: deliver_fields)
  have srt: "sorted_wrt (<) ks" using Cons.prems(4) by simp
  note IH = Cons.IH [OF D(1) c D(2) srt f]
  show ?case using IH by (auto simp: deliver_fields)
qed simp

lemma sorted_from:
  fixes f :: "'a \<Rightarrow> 'b :: linorder"
  shows "sorted_wrt (<) (map f xs) \<Longrightarrow> drop (length (takeWhile (\<lambda>x. f x < a) xs)) xs = filter (\<lambda>x. a \<le> f x) xs"
proof (induction xs)
  case (Cons x xs)
  have "a \<le> f x \<Longrightarrow> y \<in> set xs \<Longrightarrow> a \<le> f y" for y using Cons.prems by (fastforce intro: less_imp_le order_trans)
  then show ?case using Cons by (auto simp: linorder_not_less intro!: filter_True [symmetric])
qed simp

lemma Next_le: "L \<noteq> maxStreamID \<Longrightarrow> Next L \<le> i \<longleftrightarrow> L < i"
  using Next_greater [of L] Next_least [of L i] by (meson less_le_trans)

lemma new_indexes_props:
  assumes "stream_ok x"
  shows "sorted_wrt (<) (new_indexes c x g)"
    "\<forall>k \<in> set (new_indexes c x g). k < length (entries x)"
    "map (\<lambda>k. entries x ! k) (new_indexes c x g) = limit_entries c (filter (\<lambda>e. Next (lastDelivered g) \<le> ID e) (entries x))"
proof -
  have s: "sorted_wrt (<) (map ID (entries x))" using assms by (simp add: stream_ok_def)
  let ?L = "lastDelivered g" and ?lo = "firstIndexAtOrAfter (Next (lastDelivered g)) x"
  have lo: "?lo = length (takeWhile (\<lambda>e. ID e < Next ?L) (entries x))" by (rule firstIndexAtOrAfter_eq [OF s])
  have m: "map (\<lambda>k. entries x ! k) [?lo ..< length (entries x)] = drop ?lo (entries x)"
    by (rule nth_equalityI) (simp_all add: add.commute)
  have d: "drop ?lo (entries x) = filter (\<lambda>e. Next ?L \<le> ID e) (entries x)" unfolding lo by (rule sorted_from [OF s])
  show "sorted_wrt (<) (new_indexes c x g)"
    by (simp add: new_indexes_def limit_entries_def sorted_wrt_take)
  show "map (\<lambda>k. entries x ! k) (new_indexes c x g) = limit_entries c (filter (\<lambda>e. Next ?L \<le> ID e) (entries x))"
    by (simp add: new_indexes_def limit_entries_def m d take_map [symmetric])
  show "\<forall>k \<in> set (new_indexes c x g). k < length (entries x)"
    by (auto simp: new_indexes_def limit_entries_def dest: in_set_takeD)
qed

text \<open>A read for new entries serves the entries after the group's position, in order, and makes exactly
  them pending; the position moves to the last of them.\<close>

lemma read_group_new:
  assumes "shares_ok g" "pel_behind g" "stream_ok x" "lastDelivered g \<noteq> maxStreamID"
    and "read_group env n True i c na x g = (g', tch, r)"
  defines "served \<equiv> limit_entries c (filter (\<lambda>e. lastDelivered g < ID e) (entries x))"
  shows "rEntries r = map StreamEntry_clone served"
    "\<exists>h. g' = Some h \<and> shares_ok h \<and> pel_behind h \<and>
       lastDelivered h = (if served = [] then lastDelivered g else ID (last served)) \<and>
       (\<forall>i. map_of (gpel h) i \<noteq> None \<longleftrightarrow> map_of (gpel g) i \<noteq> None \<or> \<not> na \<and> i \<in> ID ` set served)"
proof -
  let ?t = "UnixMilli (now env)"
  let ?g = "fst (consumerFor n ?t g)" and ?ks = "new_indexes c x g"
  have ks: "new_indexes c x ?g = ?ks" by (simp add: new_indexes_def)
  note N = new_indexes_props [OF assms(3), of c g]
  have sv: "map (\<lambda>k. entries x ! k) ?ks = served"
    unfolding served_def N(3) Next_le [OF assms(4)] ..
  have "r = snd (snd (read_group env n True i c na x g))" using assms(5) by simp
  then show "rEntries r = map StreamEntry_clone served"
    by (simp add: read_group_def Let_def split_def ks comp_def flip: sv)
  have p: "pel_behind ?g" "map_of (consumers ?g) n \<noteq> None" using assms(2) by (simp_all add: pel_behind_def)
  have "lastDelivered g < ID (entries x ! k)" if "k \<in> set ?ks" for k
  proof -
    have "entries x ! k \<in> set served" using that by (simp flip: sv)
    then show ?thesis by (auto simp: served_def limit_entries_def split: if_splits dest: in_set_takeD)
  qed
  then have f: "\<forall>k \<in> set ?ks. k < length (entries x) \<and> lastDelivered ?g < ID (entries x ! k)" using N(2) by simp
  let ?h = "fold (deliver ?t n na x) ?ks ?g"
  have g': "g' = Some ?h" using assms(5) by (auto simp: read_group_def Let_def split_def ks)
  have e: "served = [] \<longleftrightarrow> ?ks = []" "?ks \<noteq> [] \<Longrightarrow> last served = entries x ! last ?ks" by (auto simp flip: sv simp: last_map)
  have "i \<in> ID ` set served \<longleftrightarrow> (\<exists>k \<in> set ?ks. i = ID (entries x ! k))" for i by (auto simp flip: sv)
  then show "\<exists>h. g' = Some h \<and> shares_ok h \<and> pel_behind h \<and>
       lastDelivered h = (if served = [] then lastDelivered g else ID (last served)) \<and>
       (\<forall>i. map_of (gpel h) i \<noteq> None \<longleftrightarrow> map_of (gpel g) i \<noteq> None \<or> \<not> na \<and> i \<in> ID ` set served)"
    using fold_deliver [OF consumerFor_shares [OF assms(1)] p(2,1) assms(3) N(1) f, of ?t na] e g' by auto
qed

subsection \<open>Acknowledging and counting\<close>

lemma drop_pending_gpel: "map_of (gpel (drop_pending i nack g)) j = (if j = i then None else map_of (gpel g) j)"
  by (simp add: drop_pending_def)

lemma ack_loop_result:
  "map_of (gpel (fst (ack_loop is g n))) j = (if j \<in> set is then None else map_of (gpel g) j)"
  "snd (ack_loop is g n) = n + int (card (set is \<inter> dom (map_of (gpel g))))"
proof (induction "is" g n rule: ack_loop.induct)
  case (2 i "is" g n)
  {
    case 1
    then show ?case using "2.IH" by (auto simp: nack_at_def drop_pending_gpel split: option.split)
  next
    case 2
    show ?case
    proof (cases "nack_at g i")
      case None
      then have "i \<notin> dom (map_of (gpel g))" by (auto simp: nack_at_def)
      then show ?thesis using "2.IH"(2) [OF None] None by simp
    next
      case (Some nack)
      let ?D = "dom (map_of (gpel g))"
      have D: "dom (map_of (gpel (drop_pending i nack g))) = ?D - {i}" by (auto simp: drop_pending_gpel dom_def split: if_splits)
      have "i \<in> ?D" using Some by (auto simp: nack_at_def)
      then have "set (i # is) \<inter> ?D = insert i (set is \<inter> (?D - {i}))" by auto
      then have "card (set (i # is) \<inter> ?D) = Suc (card (set is \<inter> (?D - {i})))" by simp
      then show ?thesis using "2.IH"(4) [OF Some] Some D by simp
    qed
  }
qed simp_all

lemma card_map_of: "gmap_wf m \<Longrightarrow> card (dom (map_of m)) = length m"
proof -
  assume "gmap_wf m"
  then have "distinct (map fst m)" by (simp add: gmap_wf_def)
  then have "card (set (map fst m)) = length m" using distinct_card by fastforce
  then show ?thesis by (simp add: dom_map_of_conv_image_fst)
qed

text \<open>The per-consumer counts of the summary add up to its count.\<close>

lemma pending_summary_counts:
  assumes "shares_ok g" "fair_iter env"
  shows "sumCount (pending_summary env g) = sum_list (map snd (sumConsumers (pending_summary env g)))"
proof (cases "gpel g = []")
  case True
  then show ?thesis by (simp add: pending_summary_def)
next
  case False
  note ok = sharesD(1) [OF assms(1)]
  let ?N = "gkeys env (consumers g)" and ?c = "\<lambda>n. the (map_of (consumers g) n)"
  have N: "set ?N = dom (map_of (consumers g))" "distinct ?N"
    using gkeys_props [OF assms(2)] group_okD(2) [OF ok] by (simp_all add: dom_map_of_conv_image_fst)
  have w: "gmap_wf (gpel g)" using group_okD(1) [OF ok] by (simp add: pel_ok_def)
  have c: "length (cpel (?c n)) = card {i. owner g i = Some n}" if n: "n \<in> set ?N" for n
  proof -
    obtain c where c: "map_of (consumers g) n = Some c" using n N(1) by auto
    have "dom (map_of (cpel c)) = {i. owner g i = Some n}"
      using sharesD(3) [OF assms(1) c] by (auto simp: dom_def owner_def nack_at_def)
    then show ?thesis using card_map_of [of "cpel c"] group_okD(4) [OF ok c] c by (simp add: pel_ok_def)
  qed
  have f: "finite (dom (map_of (gpel g)))" by (rule finite_dom_map_of)
  have sub: "{i. owner g i = Some n} \<subseteq> dom (map_of (gpel g))" for n by (auto simp: owner_def nack_at_def)
  have "\<exists>n \<in> set ?N. owner g i = Some n" if "map_of (gpel g) i = Some a" for i a
  proof -
    have "owner g i = Some (nackConsumer (nacks g ! a))" using that by (simp add: owner_def nack_at_def)
    then show ?thesis using sharesD(2) [OF assms(1)] N(1) by blast
  qed
  then have "dom (map_of (gpel g)) = (\<Union>n \<in> set ?N. {i. owner g i = Some n})"
    using sub by blast
  then have "card (dom (map_of (gpel g))) = (\<Sum>n \<in> set ?N. card {i. owner g i = Some n})"
    using f sub by (simp, intro card_UN_disjoint) (auto intro: finite_subset)
  also have "\<dots> = sum_list (map (\<lambda>n. length (cpel (?c n))) ?N)" using c N(2) by (simp add: sum_list_distinct_conv_sum_set)
  finally have t: "length (gpel g) = sum_list (map (\<lambda>n. length (cpel (?c n))) ?N)" by (simp add: card_map_of [OF w])
  have z: "sum_list (map (\<lambda>n. int (length (cpel (?c n)))) (filter (\<lambda>n. cpel (?c n) \<noteq> []) ns)) =
      int (sum_list (map (\<lambda>n. length (cpel (?c n))) ns))" for ns by (induction ns) auto
  have sk: "sum_list (map snd (sort_key fst xs)) = sum_list (map snd xs)" for xs :: "(bytes \<times> int) list"
  proof -
    have "mset (map snd (sort_key fst xs)) = mset (map snd xs)" by simp
    then show ?thesis by (metis sum_mset_sum_list)
  qed
  show ?thesis using False t z [of ?N] by (simp add: pending_summary_def Let_def split_def sk comp_def)
qed

end
