(* ===== verification/StreamReports.thy ===== *)
theory StreamReports
  imports StreamGroups
begin

text \<open>
  The reports on a stream and its groups: \<open>internal/store/stream_info.go\<close>. They are reads; the lemmas
  show what the reported numbers are and when the lag of a group is the number of entries it has
  still to read.
\<close>

record StreamInfo =
  iLength :: int
  iGroups :: int
  iLastID :: StreamID
  iMaxDeletedID :: StreamID
  iEntriesAdded :: int
  iRecordedFirstID :: StreamID
  iFirst :: StreamEntry
  iLast :: StreamEntry
  iHasEntries :: bool

record StreamConsumerInfo =
  ciName :: bytes
  ciPending :: int
  ciIdleMs :: int
  ciInactiveMs :: int

record StreamGroupInfo =
  giName :: bytes
  giConsumers :: int
  giPending :: int
  giLastDelivered :: StreamID
  giEntriesRead :: int
  giHasEntriesRead :: bool
  giLag :: "int option"
  giConsumerDetails :: "StreamConsumerInfo list"

record StreamFullPending =
  fpID :: StreamID
  fpConsumer :: bytes
  fpDeliveryMs :: int
  fpDeliveryCount :: int

record StreamFullConsumerInfo =
  fcName :: bytes
  fcSeenMs :: int
  fcActiveMs :: int
  fcPelCount :: int
  fcPending :: "StreamFullPending list"

record StreamFullGroupInfo =
  fgName :: bytes
  fgLastDelivered :: StreamID
  fgEntriesRead :: int
  fgHasEntriesRead :: bool
  fgLag :: "int option"
  fgPelCount :: int
  fgPending :: "StreamFullPending list"
  fgConsumers :: "StreamFullConsumerInfo list"

record StreamFullInfo =
  fiLength :: int
  fiEntriesAdded :: int
  fiLastID :: StreamID
  fiMaxDeletedID :: StreamID
  fiRecordedFirstID :: StreamID
  fiEntries :: "StreamEntry list"
  fiGroups :: "StreamFullGroupInfo list"

abbreviation noEntry :: StreamEntry where "noEntry \<equiv> \<lparr>ID = zeroStreamID, Fields = []\<rparr>"

definition stream_info :: "stream \<Rightarrow> StreamInfo" where
  "stream_info x =
     \<lparr>iLength = int (length (entries x)), iGroups = int (length (groups x)), iLastID = lastID x,
      iMaxDeletedID = maxDeleted x, iEntriesAdded = sint (added x), iRecordedFirstID = firstID x,
      iFirst = (if entries x = [] then noEntry else StreamEntry_clone (hd (entries x))),
      iLast = (if entries x = [] then noEntry else StreamEntry_clone (last (entries x))),
      iHasEntries = (entries x \<noteq> [])\<rparr>"

definition XInfoStream :: "goenv \<Rightarrow> bytes \<Rightarrow> store \<Rightarrow> StreamInfo option sres \<times> store" where
  "XInfoStream env key st = read_key env key (Inr None) (xread_body (\<lambda>x. Some (stream_info x))) st"

definition consumer_info :: "int \<Rightarrow> streamGroup \<Rightarrow> bytes \<Rightarrow> StreamConsumerInfo" where
  "consumer_info nowMs g name =
     (let c = the (map_of (consumers g) name)
      in \<lparr>ciName = name, ciPending = int (length (cpel c)), ciIdleMs = wrap64 (nowMs - seenMs c),
          ciInactiveMs = wrap64 (nowMs - activeMs c)\<rparr>)"

definition consumerInfos :: "goenv \<Rightarrow> streamGroup \<Rightarrow> int \<Rightarrow> StreamConsumerInfo list" where
  "consumerInfos env g nowMs = sort_key ciName (map (consumer_info nowMs g) (gkeys env (consumers g)))"

definition group_info :: "goenv \<Rightarrow> bool \<Rightarrow> stream \<Rightarrow> bytes \<Rightarrow> StreamGroupInfo" where
  "group_info env withConsumers x name =
     (let g = the (map_of (groups x) name)
      in \<lparr>giName = name, giConsumers = int (length (consumers g)), giPending = int (length (gpel g)),
          giLastDelivered = lastDelivered g, giEntriesRead = entriesRead g, giHasEntriesRead = hasEntriesRead g,
          giLag = groupLag x g,
          giConsumerDetails = (if withConsumers then consumerInfos env g (UnixMilli (now env)) else [])\<rparr>)"

definition XInfoGroups :: "goenv \<Rightarrow> bytes \<Rightarrow> bool \<Rightarrow> store \<Rightarrow> StreamGroupInfo list option sres \<times> store" where
  "XInfoGroups env key withConsumers st =
     read_key env key (Inr None)
       (xread_body (\<lambda>x. Some (sort_key giName (map (group_info env withConsumers x) (gkeys env (groups x)))))) st"

definition XInfoConsumers :: "goenv \<Rightarrow> bytes \<Rightarrow> bytes \<Rightarrow> store \<Rightarrow> StreamConsumerInfo list sres \<times> store" where
  "XInfoConsumers env key grp st =
     read_key env key (Inl ErrNoSuchStreamKey) (group_read grp (\<lambda>g. consumerInfos env g (UnixMilli (now env)))) st"

definition pending_row :: "streamNACK list \<Rightarrow> (StreamID, nat) gomap \<Rightarrow> bool \<Rightarrow> StreamID \<Rightarrow> StreamFullPending" where
  "pending_row ns pel withConsumer i =
     (let nack = ns ! the (map_of pel i)
      in \<lparr>fpID = i, fpConsumer = (if withConsumer then nackConsumer nack else []), fpDeliveryMs = deliveryMs nack,
          fpDeliveryCount = deliveryCount nack\<rparr>)"

definition pendingList :: "streamNACK list \<Rightarrow> (StreamID, nat) gomap \<Rightarrow> bool \<Rightarrow> int \<Rightarrow> StreamFullPending list" where
  "pendingList ns pel withConsumer limit =
     (let out = sort_key fpID (map (pending_row ns pel withConsumer) (map fst pel))
      in if limit > 0 \<and> limit < int (length out) then take (nat limit) out else out)"

definition full_consumer :: "streamGroup \<Rightarrow> int \<Rightarrow> bytes \<Rightarrow> StreamFullConsumerInfo" where
  "full_consumer g cnt name =
     (let c = the (map_of (consumers g) name)
      in \<lparr>fcName = name, fcSeenMs = seenMs c, fcActiveMs = activeMs c, fcPelCount = int (length (cpel c)),
          fcPending = pendingList (nacks g) (cpel c) False cnt\<rparr>)"

definition full_group :: "goenv \<Rightarrow> stream \<Rightarrow> int \<Rightarrow> bytes \<Rightarrow> StreamFullGroupInfo" where
  "full_group env x cnt name =
     (let g = the (map_of (groups x) name)
      in \<lparr>fgName = name, fgLastDelivered = lastDelivered g, fgEntriesRead = entriesRead g,
          fgHasEntriesRead = hasEntriesRead g, fgLag = groupLag x g, fgPelCount = int (length (gpel g)),
          fgPending = pendingList (nacks g) (gpel g) True cnt,
          fgConsumers = sort_key fcName (map (full_consumer g cnt) (gkeys env (consumers g)))\<rparr>)"

definition full_info :: "goenv \<Rightarrow> int \<Rightarrow> stream \<Rightarrow> StreamFullInfo" where
  "full_info env cnt x =
     (let n = (if cnt > 0 \<and> cnt < int (length (entries x)) then nat cnt else length (entries x))
      in \<lparr>fiLength = int (length (entries x)), fiEntriesAdded = sint (added x), fiLastID = lastID x,
          fiMaxDeletedID = maxDeleted x, fiRecordedFirstID = firstID x,
          fiEntries = map StreamEntry_clone (take n (entries x)),
          fiGroups = sort_key fgName (map (full_group env x cnt) (gkeys env (groups x)))\<rparr>)"

definition XInfoStreamFull :: "goenv \<Rightarrow> bytes \<Rightarrow> int \<Rightarrow> store \<Rightarrow> StreamFullInfo option sres \<times> store" where
  "XInfoStreamFull env key cnt st = read_key env key (Inr None) (xread_body (\<lambda>x. Some (full_info env cnt x))) st"

subsection \<open>What the reports say\<close>

interpretation xinfo: key_reader "\<lambda>env. XInfoStream env key" key "Inr None" "\<lambda>env st. xread_body (\<lambda>x. Some (stream_info x))" for key
  by unfold_locales (simp_all add: XInfoStream_def xread_same)

interpretation xinfogroups: key_reader "\<lambda>env. XInfoGroups env key b" key "Inr None"
  "\<lambda>env st. xread_body (\<lambda>x. Some (sort_key giName (map (group_info env b x) (gkeys env (groups x)))))" for key b
  by unfold_locales (simp_all add: XInfoGroups_def xread_same)

interpretation xinfocons: key_reader "\<lambda>env. XInfoConsumers env key grp" key "Inl ErrNoSuchStreamKey"
  "\<lambda>env st. group_read grp (\<lambda>g. consumerInfos env g (UnixMilli (now env)))" for key grp
  by unfold_locales (simp_all add: XInfoConsumers_def group_read_def same_value_refl)

interpretation xinfofull: key_reader "\<lambda>env. XInfoStreamFull env key c" key "Inr None"
  "\<lambda>env st. xread_body (\<lambda>x. Some (full_info env c x))" for key c
  by unfold_locales (simp_all add: XInfoStreamFull_def xread_same)

text \<open>The lag of a group is what it has still to read, when its read counter (if it has one) is right.\<close>

definition unread :: "stream \<Rightarrow> streamGroup \<Rightarrow> int" where
  "unread x g = int (length (filter (\<lambda>e. lastDelivered g < ID e) (entries x)))"

lemma groupLag_unread:
  assumes "stream_ok x" "groupLag x g = Some n"
    and "hasEntriesRead g \<Longrightarrow> wrap64 (sint (added x) - entriesRead g) = unread x g"
  shows "n = unread x g"
proof (cases "entries x")
  case Nil
  then show ?thesis using assms(2) by (simp add: groupLag_def unread_def)
next
  case (Cons e es)
  have s: "sorted_wrt (<) (map ID (entries x))" "\<forall>e \<in> set (entries x). ID e \<le> lastID x"
    using assms(1) by (simp_all add: stream_ok_def)
  have hd: "ID e \<le> ID e'" if "e' \<in> set (entries x)" for e' using s(1) that Cons by (auto intro: less_imp_le)
  show ?thesis
  proof (cases "lastID x \<le> lastDelivered g")
    case True
    then have "\<forall>e \<in> set (entries x). \<not> lastDelivered g < ID e" using s(2) by (auto simp: linorder_not_less intro: order_trans)
    then have "filter (\<lambda>e. lastDelivered g < ID e) (entries x) = []" by (simp only: filter_empty_conv)
    then show ?thesis using assms(2) Cons True by (simp add: groupLag_def unread_def)
  next
    case False
    have "lastDelivered g < ID e \<Longrightarrow> filter (\<lambda>e. lastDelivered g < ID e) (entries x) = entries x"
      using hd by (auto simp: filter_id_conv intro: less_le_trans)
    then show ?thesis using assms(2,3) Cons False by (auto simp: groupLag_def unread_def split: if_splits)
  qed
qed

lemma pendingList_ids:
  "map fpID (pendingList ns pel b limit) =
     (if limit > 0 then take (nat limit) (sort (map fst pel)) else sort (map fst pel))"
proof -
  have m: "map fpID (map (pending_row ns pel b) ids) = ids" for ids by (induction ids) (simp_all add: pending_row_def Let_def)
  let ?o = "sort_key fpID (map (pending_row ns pel b) (map fst pel))"
  have "map fpID ?o = sort (map fpID (map (pending_row ns pel b) (map fst pel)))" 
    by (rule properties_for_sort [symmetric]) (simp_all add: multiset.map_comp)
  then have "map fpID ?o = sort (map fst pel)" by (simp only: m)
  then show ?thesis by (auto simp: pendingList_def Let_def take_map [symmetric])
qed

end
