(* ===== verification/Lcs.thy ===== *)
theory Lcs
  imports StreamReports "HOL-Library.Sublist"
begin

text \<open>
  The longest common subsequence of two string values: \<open>internal/store/lcs.go\<close>. The table is the flat
  array of the code, filled by two nested loops and walked back from its far corner. The
  lemmas show that the table holds the lengths of the reference recursion \<open>lcs_len\<close>, that the walk
  returns a common subsequence of that length, that none is longer, and that the reported runs
  are equal ranges of both values that spell the subsequence.
\<close>

record LCSMatch =
  AStart :: int
  AEnd :: int
  BStart :: int
  BEnd :: int
  mLen :: int

record LCSResult =
  lSeq :: bytes
  lLen :: int
  Matches :: "LCSMatch list"

abbreviation emptyLCS :: LCSResult where "emptyLCS \<equiv> \<lparr>lSeq = [], lLen = 0, Matches = []\<rparr>"

text \<open>The index of row \<open>i\<close>, column \<open>j\<close> in the flat table.\<close>

definition tcell :: "nat \<Rightarrow> nat \<Rightarrow> nat \<Rightarrow> nat" where
  "tcell stride i j = i * stride + j"

definition fill_cell :: "bytes \<Rightarrow> bytes \<Rightarrow> nat \<Rightarrow> nat \<Rightarrow> nat \<Rightarrow> int list \<Rightarrow> int list" where
  "fill_cell a b stride i j table =
     (let at = \<lambda>i j. table ! tcell stride i j
      in if a ! (i - 1) = b ! (j - 1) then table[tcell stride i j := at (i - 1) (j - 1) + 1]
         else
           let x = at (i - 1) j; y = at i (j - 1)
           in if x \<ge> y then table[tcell stride i j := x] else table[tcell stride i j := y])"

definition fill_table :: "bytes \<Rightarrow> bytes \<Rightarrow> int list" where
  "fill_table a b =
     (let stride = Suc (length b)
      in fold (\<lambda>i table. fold (fill_cell a b stride i) [1..<Suc (length b)] table) [1..<Suc (length a)]
           (replicate (Suc (length a) * stride) 0))"

definition extend_run :: "nat \<Rightarrow> nat \<Rightarrow> int \<Rightarrow> LCSMatch list \<Rightarrow> int \<times> LCSMatch list" where
  "extend_run i j run ms =
     (let (run, ms) =
        (if run < 0
         then (int (length ms), ms @ [\<lparr>AStart = 0, AEnd = int i - 1, BStart = 0, BEnd = int j - 1, mLen = 0\<rparr>])
         else (run, ms));
        m = ms ! nat run
      in (run, ms[nat run := m\<lparr>AStart := int i - 1, BStart := int j - 1, mLen := mLen m + 1\<rparr>]))"

function lcs_walk :: "bytes \<Rightarrow> bytes \<Rightarrow> bool \<Rightarrow> int list \<Rightarrow> nat \<Rightarrow> nat \<Rightarrow> nat \<Rightarrow> bytes \<Rightarrow> int \<Rightarrow> LCSMatch list \<Rightarrow>
    bytes \<times> LCSMatch list" where
  "lcs_walk a b want table i j idx sq run ms =
     (if i > 0 \<and> j > 0 then
        if a ! (i - 1) = b ! (j - 1) then
          let idx' = idx - 1; (run', ms') = (if want then extend_run i j run ms else (run, ms))
          in lcs_walk a b want table (i - 1) (j - 1) idx' (sq[idx' := a ! (i - 1)]) run' ms'
        else if table ! tcell (Suc (length b)) (i - 1) j > table ! tcell (Suc (length b)) i (j - 1)
        then lcs_walk a b want table (i - 1) j idx sq (-1) ms
        else lcs_walk a b want table i (j - 1) idx sq (-1) ms
      else (sq, ms))"
  by pat_completeness auto
termination
  by (relation "measure (\<lambda>(a, b, want, table, i, j, _). i + j)") auto

declare lcs_walk.simps [simp del]

definition lcs :: "bytes \<Rightarrow> bytes \<Rightarrow> bool \<Rightarrow> LCSResult" where
  "lcs a b want =
     (if length a = 0 \<or> length b = 0 then emptyLCS
      else
        let table = fill_table a b; tot = table ! tcell (Suc (length b)) (length a) (length b)
        in if tot = 0 then emptyLCS\<lparr>lLen := tot\<rparr>
           else
             let (sq, ms) = lcs_walk a b want table (length a) (length b) (nat tot) (replicate (nat tot) CHR 0x00) (-1) []
             in \<lparr>lSeq = sq, lLen = tot, Matches = ms\<rparr>)"

definition lcsOperand :: "goenv \<Rightarrow> bytes \<Rightarrow> store \<Rightarrow> bytes res \<times> store" where
  "lcsOperand env key st =
     read_key env key (Inr []) (\<lambda>e. (e, case val e of VString s \<Rightarrow> Inr (sbytes s) | _ \<Rightarrow> Inl ErrNotString)) st"

definition LCS :: "goenv \<Rightarrow> bytes \<Rightarrow> bytes \<Rightarrow> bool \<Rightarrow> store \<Rightarrow> LCSResult res \<times> store" where
  "LCS env a b want st =
     (case lcsOperand env a st of
        (Inl err, st') \<Rightarrow> (Inl err, st')
      | (Inr av, st') \<Rightarrow>
          (case lcsOperand env b st' of
             (Inl err, st'') \<Rightarrow> (Inl err, st'')
           | (Inr bv, st'') \<Rightarrow> (Inr (lcs av bv want), st'')))"

subsection \<open>The reference\<close>

text \<open>The length for the first \<open>i\<close> bytes of one value and the first \<open>j\<close> of the other.\<close>

fun lcs_len :: "bytes \<Rightarrow> bytes \<Rightarrow> nat \<Rightarrow> nat \<Rightarrow> nat" where
  "lcs_len a b 0 j = 0"
| "lcs_len a b (Suc i) 0 = 0"
| "lcs_len a b (Suc i) (Suc j) =
     (if a ! i = b ! j then Suc (lcs_len a b i j) else max (lcs_len a b i (Suc j)) (lcs_len a b (Suc i) j))"

lemma lcs_len_0 [simp]: "lcs_len a b i 0 = 0"
  by (cases i) simp_all

lemma take_Suc_rev: "i < length a \<Longrightarrow> rev (take (Suc i) a) = a ! i # rev (take i a)"
  by (simp add: take_Suc_conv_app_nth)

lemma lcs_len_maximal:
  assumes "subseq zs (rev (take i a))" "subseq zs (rev (take j b))" "i \<le> length a" "j \<le> length b"
  shows "length zs \<le> lcs_len a b i j"
  using assms
proof (induction a b i j arbitrary: zs rule: lcs_len.induct)
  case (3 a b i j)
  have s: "subseq zs (a ! i # rev (take i a))" "subseq zs (b ! j # rev (take j b))"
    using "3.prems" by (simp_all add: take_Suc_rev del: take_Suc)
  have ij: "i \<le> length a" "j \<le> length b" "Suc i \<le> length a" "Suc j \<le> length b" using "3.prems" by simp_all
  show ?case
  proof (cases zs)
    case (Cons z zs')
    show ?thesis
    proof (cases "a ! i = b ! j")
      case True
      have "subseq (if z = a ! i then zs' else zs) (rev (take i a))" "subseq (if z = a ! i then zs' else zs) (rev (take j b))"
        using s True Cons by (auto split: if_splits)
      then have "length (if z = a ! i then zs' else zs) \<le> lcs_len a b i j" by (rule "3.IH"(1) [OF True _ _ ij(1,2)])
      then show ?thesis using True Cons by (auto split: if_splits)
    next
      case False
      have "subseq zs (rev (take i a)) \<or> subseq zs (rev (take j b))"
        using s False Cons by (auto split: if_splits)
      then show ?thesis
      proof
        assume "subseq zs (rev (take i a))"
        then have "length zs \<le> lcs_len a b i (Suc j)" using "3.prems"(2) by (rule "3.IH"(2) [OF False _ _ ij(1,4)])
        then show ?thesis using False by simp
      next
        assume "subseq zs (rev (take j b))"
        with "3.prems"(1) have "length zs \<le> lcs_len a b (Suc i) j" by (rule "3.IH"(3) [OF False _ _ ij(3,2)])
        then show ?thesis using False by simp
      qed
    qed
  qed simp
qed (auto simp: list_emb_Nil2)

subsection \<open>The table\<close>

lemma cell_index: "j < n \<Longrightarrow> j' < n \<Longrightarrow> tcell n i j = tcell n i' j' \<longleftrightarrow> i = i' \<and> j = j'"
proof -
  assume j: "j < n" "j' < n"
  have d: "tcell n i j div n = i" "tcell n i' j' div n = i'" using j by (simp_all add: tcell_def)
  have m: "tcell n i j mod n = j" "tcell n i' j' mod n = j'" using j by (simp_all add: tcell_def)
  show ?thesis using d m by metis
qed

lemma cell_bound: "i \<le> la \<Longrightarrow> j < n \<Longrightarrow> tcell n i j < Suc la * n"
proof -
  assume "i \<le> la" "j < n"
  then have "i * n + j < i * n + n" "i * n \<le> la * n" by simp_all
  then show ?thesis unfolding tcell_def mult_Suc by linarith
qed

definition filled :: "bytes \<Rightarrow> bytes \<Rightarrow> (nat \<Rightarrow> nat \<Rightarrow> bool) \<Rightarrow> int list \<Rightarrow> bool" where
  "filled a b done table \<longleftrightarrow>
     length table = Suc (length a) * Suc (length b) \<and>
     (\<forall>i \<le> length a. \<forall>j \<le> length b. i = 0 \<or> j = 0 \<or> done i j \<longrightarrow>
        table ! tcell (Suc (length b)) i j = int (lcs_len a b i j))"

lemma filledD:
  assumes "filled a b done table"
  shows "length table = Suc (length a) * Suc (length b)"
    "i \<le> length a \<Longrightarrow> j \<le> length b \<Longrightarrow> i = 0 \<or> j = 0 \<or> done i j \<Longrightarrow> table ! tcell (Suc (length b)) i j = int (lcs_len a b i j)"
  using assms unfolding filled_def by blast+

lemma fill_cell_filled:
  assumes "filled a b done table" "i < length a" "j < length b"
    and "i = 0 \<or> j = 0 \<or> done i j" "i = 0 \<or> done i (Suc j)" "j = 0 \<or> done (Suc i) j"
  shows "filled a b (\<lambda>i' j'. done i' j' \<or> i' = Suc i \<and> j' = Suc j) (fill_cell a b (Suc (length b)) (Suc i) (Suc j) table)"
proof -
  let ?n = "Suc (length b)"
  let ?v = "int (lcs_len a b (Suc i) (Suc j))" and ?c = "tcell (Suc (length b)) (Suc i) (Suc j)"
  note len = filledD(1) [OF assms(1)] and at = filledD(2) [OF assms(1)]
  have "table ! tcell ?n i j = int (lcs_len a b i j)" using assms(2-4) by (intro at) simp_all
  moreover have "table ! tcell ?n i (Suc j) = int (lcs_len a b i (Suc j))" using assms(2,3,5) by (intro at) auto
  moreover have "table ! tcell ?n (Suc i) j = int (lcs_len a b (Suc i) j)" using assms(2,3,6) by (intro at) auto
  ultimately have t: "fill_cell a b ?n (Suc i) (Suc j) table = table[?c := ?v]" by (simp add: fill_cell_def Let_def max_def add.commute)
  have b: "?c < length table" unfolding len using assms(2,3) by (intro cell_bound) simp_all
  have "table[?c := ?v] ! tcell ?n i' j' = int (lcs_len a b i' j')"
    if c: "i' \<le> length a" "j' \<le> length b" "i' = 0 \<or> j' = 0 \<or> done i' j' \<or> i' = Suc i \<and> j' = Suc j" for i' j'
  proof (cases "i' = Suc i \<and> j' = Suc j")
    case True
    then show ?thesis using b by (metis nth_list_update_eq)
  next
    case False
    then have "?c \<noteq> tcell ?n i' j'" using cell_index [of "Suc j" ?n j' "Suc i" i'] assms(3) c(2) by auto
    then have "table[?c := ?v] ! tcell ?n i' j' = table ! tcell ?n i' j'" by (rule nth_list_update_neq)
    also have "\<dots> = int (lcs_len a b i' j')" using c False by (intro at) auto
    finally show ?thesis .
  qed
  then show ?thesis unfolding t filled_def length_list_update using len by blast
qed

lemma filled_cong:
  assumes "filled a b P table" "\<And>i j. i \<le> length a \<Longrightarrow> j \<le> length b \<Longrightarrow> Q i j \<Longrightarrow> i = 0 \<or> j = 0 \<or> P i j"
  shows "filled a b Q table"
  using assms unfolding filled_def by blast

lemma fill_row_filled:
  assumes "filled a b (\<lambda>i' j'. i' \<le> i) table" "i < length a" "j \<le> length b"
  shows "filled a b (\<lambda>i' j'. i' \<le> i \<or> i' = Suc i \<and> j' \<le> j) (fold (fill_cell a b (Suc (length b)) (Suc i)) [1..<Suc j] table)"
  using assms(3)
proof (induction j)
  case 0
  have "filled a b (\<lambda>i' j'. i' \<le> i \<or> i' = Suc i \<and> j' \<le> 0) table" using assms(1) by (rule filled_cong) auto
  then show ?case by simp
next
  case (Suc j)
  let ?D = "\<lambda>i' j'. i' \<le> i \<or> i' = Suc i \<and> j' \<le> j" and ?T = "fold (fill_cell a b (Suc (length b)) (Suc i)) [1..<Suc j] table"
  have "filled a b ?D ?T" using Suc by simp
  then have "filled a b (\<lambda>i' j'. ?D i' j' \<or> i' = Suc i \<and> j' = Suc j) (fill_cell a b (Suc (length b)) (Suc i) (Suc j) ?T)"
    using assms(2) Suc.prems by (intro fill_cell_filled) auto
  then have "filled a b (\<lambda>i' j'. i' \<le> i \<or> i' = Suc i \<and> j' \<le> Suc j) (fill_cell a b (Suc (length b)) (Suc i) (Suc j) ?T)"
    by (rule filled_cong) auto
  then show ?case by simp
qed

lemma fill_table_filled: "filled a b (\<lambda>i j. True) (fill_table a b)"
proof -
  let ?n = "Suc (length b)" and ?z = "replicate (Suc (length a) * Suc (length b)) (0 :: int)"
  let ?F = "\<lambda>i. fold (fill_cell a b (Suc (length b)) i) [1..<Suc (length b)]"
  have "filled a b (\<lambda>i' j'. i' \<le> i) (fold ?F [1..<Suc i] ?z)" if "i \<le> length a" for i
    using that
  proof (induction i)
    case 0
    have "?z ! tcell ?n i j = 0" if "i \<le> length a" "j \<le> length b" for i j
      using that by (intro nth_replicate cell_bound) simp_all
    then have "filled a b (\<lambda>i' j'. i' \<le> 0) ?z" unfolding filled_def length_replicate by auto
    then show ?case by simp
  next
    case (Suc i)
    have "filled a b (\<lambda>i' j'. i' \<le> i \<or> i' = Suc i \<and> j' \<le> length b) (?F (Suc i) (fold ?F [1..<Suc i] ?z))"
      using Suc by (intro fill_row_filled) simp_all
    then have "filled a b (\<lambda>i' j'. i' \<le> Suc i) (?F (Suc i) (fold ?F [1..<Suc i] ?z))" by (rule filled_cong) auto
    moreover have "fold ?F [1..<Suc (Suc i)] ?z = ?F (Suc i) (fold ?F [1..<Suc i] ?z)" by simp
    ultimately show ?case by (simp only:)
  qed
  from this [OF order_refl] have "filled a b (\<lambda>i' j'. i' \<le> length a) (fill_table a b)"
    unfolding fill_table_def Let_def .
  then show ?thesis by (rule filled_cong) auto
qed

lemma fill_table_at:
  "i \<le> length a \<Longrightarrow> j \<le> length b \<Longrightarrow> fill_table a b ! tcell (Suc (length b)) i j = int (lcs_len a b i j)"
  by (rule filledD(2) [OF fill_table_filled]) simp_all

subsection \<open>The walk back\<close>

fun lcs_back :: "bytes \<Rightarrow> bytes \<Rightarrow> nat \<Rightarrow> nat \<Rightarrow> bytes" where
  "lcs_back a b 0 j = []"
| "lcs_back a b (Suc i) 0 = []"
| "lcs_back a b (Suc i) (Suc j) =
     (if a ! i = b ! j then lcs_back a b i j @ [a ! i]
      else if lcs_len a b i (Suc j) > lcs_len a b (Suc i) j then lcs_back a b i (Suc j) else lcs_back a b (Suc i) j)"

lemma lcs_back_0 [simp]: "lcs_back a b i 0 = []"
  by (cases i) simp_all

lemma lcs_back_length: "length (lcs_back a b i j) = lcs_len a b i j"
  by (induction a b i j rule: lcs_back.induct) simp_all

lemma lcs_back_common:
  "i \<le> length a \<Longrightarrow> j \<le> length b \<Longrightarrow> subseq (lcs_back a b i j) (take i a) \<and> subseq (lcs_back a b i j) (take j b)"
proof (induction a b i j rule: lcs_back.induct)
  case (3 a b i j)
  have t: "take (Suc i) a = take i a @ [a ! i]" "take (Suc j) b = take j b @ [b ! j]"
    using "3.prems" by (simp_all add: take_Suc_conv_app_nth)
  show ?case
  proof (cases "a ! i = b ! j")
    case True
    then show ?thesis using 3 unfolding t by (auto intro: list_emb_append_mono)
  next
    case False
    have l: "subseq xs (take i a) \<Longrightarrow> subseq xs (take (Suc i) a)" "subseq xs (take j b) \<Longrightarrow> subseq xs (take (Suc j) b)" for xs
      unfolding t by (auto intro: list_emb_append2 subseq_order.order_trans)
    show ?thesis using 3 False l by auto
  qed
qed simp_all

lemma lcs_walk_seq:
  assumes "i \<le> length a" "j \<le> length b" "lcs_len a b i j \<le> length sq"
  shows "fst (lcs_walk a b want (fill_table a b) i j (lcs_len a b i j) sq run ms) = lcs_back a b i j @ drop (lcs_len a b i j) sq"
  using assms
proof (induction "i + j" arbitrary: i j sq run ms rule: less_induct)
  case less
  show ?case
  proof (cases "i > 0 \<and> j > 0")
    case False
    then show ?thesis by (subst lcs_walk.simps) auto
  next
    case True
    then obtain i' j' where ij: "i = Suc i'" "j = Suc j'" by (metis gr0_conv_Suc)
    have T: "fill_table a b ! tcell (Suc (length b)) i' j = int (lcs_len a b i' j)"
      "fill_table a b ! tcell (Suc (length b)) i j' = int (lcs_len a b i j')"
      using less.prems ij by (simp_all add: fill_table_at)
    show ?thesis
    proof (cases "a ! i' = b ! j'")
      case eq: True
      let ?k = "lcs_len a b i' j'"
      have k: "lcs_len a b i j = Suc ?k" "Suc ?k \<le> length sq" using less.prems eq ij by simp_all
      obtain run' ms' where r: "(if want then extend_run i j run ms else (run, ms)) = (run', ms')" by (metis prod.exhaust)
      have "fst (lcs_walk a b want (fill_table a b) i j (lcs_len a b i j) sq run ms) =
          fst (lcs_walk a b want (fill_table a b) i' j' ?k (sq[?k := a ! i']) run' ms')"
        using ij eq r k(1) by (subst lcs_walk.simps) (simp add: Let_def)
      also have "\<dots> = lcs_back a b i' j' @ drop ?k (sq[?k := a ! i'])"
        using less.prems ij k by (intro less.hyps) simp_all
      also have "drop ?k (sq[?k := a ! i']) = a ! i' # drop (Suc ?k) sq"
        using k(2) by (simp add: drop_update_swap Cons_nth_drop_Suc [symmetric])
      finally show ?thesis using ij eq by simp
    next
      case ne: False
      have "fst (lcs_walk a b want (fill_table a b) i' j (lcs_len a b i' j) sq (-1) ms) = lcs_back a b i' j @ drop (lcs_len a b i' j) sq"
        using less.prems ij ne by (intro less.hyps) simp_all
      moreover have "fst (lcs_walk a b want (fill_table a b) i j' (lcs_len a b i j') sq (-1) ms) = lcs_back a b i j' @ drop (lcs_len a b i j') sq"
        using less.prems ij ne by (intro less.hyps) simp_all
      ultimately show ?thesis using ij ne T by (subst lcs_walk.simps) (auto simp: max_def)
    qed
  qed
qed

subsection \<open>The reported runs\<close>

definition run_text :: "bytes \<Rightarrow> LCSMatch \<Rightarrow> bytes" where
  "run_text a m = take (nat (mLen m)) (drop (nat (AStart m)) a)"

definition run_ok :: "bytes \<Rightarrow> bytes \<Rightarrow> LCSMatch \<Rightarrow> bool" where
  "run_ok a b m \<longleftrightarrow>
     0 \<le> AStart m \<and> 0 \<le> BStart m \<and> 0 < mLen m \<and> AEnd m = AStart m + mLen m - 1 \<and> BEnd m = BStart m + mLen m - 1 \<and>
     AEnd m < int (length a) \<and> BEnd m < int (length b) \<and>
     run_text a m = take (nat (mLen m)) (drop (nat (BStart m)) b)"

text \<open>The state of the walk at \<open>(i, j)\<close>: the runs so far spell \<open>done\<close>, and an open run starts right there.\<close>

definition runs_inv :: "bytes \<Rightarrow> bytes \<Rightarrow> nat \<Rightarrow> nat \<Rightarrow> bytes \<Rightarrow> int \<Rightarrow> LCSMatch list \<Rightarrow> bool" where
  "runs_inv a b i j done run ms \<longleftrightarrow>
     (\<forall>m \<in> set ms. run_ok a b m) \<and> concat (map (run_text a) (rev ms)) = done \<and>
     (run < 0 \<or> (ms \<noteq> [] \<and> run = int (length ms) - 1 \<and> AStart (last ms) = int i \<and> BStart (last ms) = int j))"

lemma run_ok_one: "i < length a \<Longrightarrow> j < length b \<Longrightarrow> a ! i = b ! j \<Longrightarrow>
    run_ok a b \<lparr>AStart = int i, AEnd = int i, BStart = int j, BEnd = int j, mLen = 1\<rparr> \<and>
    run_text a \<lparr>AStart = int i, AEnd = int i, BStart = int j, BEnd = int j, mLen = 1\<rparr> = [a ! i]"
  by (simp add: run_ok_def run_text_def take_Suc_conv_app_nth hd_drop_conv_nth take_Suc)

lemma run_ok_more:
  assumes "run_ok a b m" "AStart m = int (Suc i)" "BStart m = int (Suc j)" "a ! i = b ! j"
  defines "m' \<equiv> m\<lparr>AStart := int i, BStart := int j, mLen := mLen m + 1\<rparr>"
  shows "run_ok a b m' \<and> run_text a m' = a ! i # run_text a m"
proof -
  have l: "0 < mLen m" "Suc i < length a" "Suc j < length b" using assms(1-3) by (auto simp: run_ok_def)
  have n: "nat (mLen m + 1) = Suc (nat (mLen m))" using l(1) by simp
  have x: "take (nat (mLen m + 1)) (drop i a) = a ! i # take (nat (mLen m)) (drop (Suc i) a)"
    "take (nat (mLen m + 1)) (drop j b) = b ! j # take (nat (mLen m)) (drop (Suc j) b)"
    unfolding n using l by (simp_all add: Cons_nth_drop_Suc [symmetric])
  have "nat (AStart m) = Suc i" "nat (BStart m) = Suc j" using assms(2,3) by simp_all
  then show ?thesis using assms(1-4) x by (auto simp: run_ok_def run_text_def m'_def)
qed

lemma extend_run_inv:
  assumes "runs_inv a b (Suc i) (Suc j) done run ms" "i < length a" "j < length b" "a ! i = b ! j"
    and "extend_run (Suc i) (Suc j) run ms = (run', ms')"
  shows "runs_inv a b i j (a ! i # done) run' ms'"
proof (cases "run < 0")
  case True
  let ?m = "\<lparr>AStart = int i, AEnd = int i, BStart = int j, BEnd = int j, mLen = 1\<rparr>"
  have "run' = int (length ms)" "ms' = ms @ [?m]" using assms(5) True by (auto simp: extend_run_def Let_def)
  then show ?thesis using assms(1) run_ok_one [OF assms(2-4)] by (simp add: runs_inv_def)
next
  case False
  then obtain ns m where ms: "ms = ns @ [m]" and r: "run = int (length ns)" "AStart m = int (Suc i)" "BStart m = int (Suc j)"
    using assms(1) by (cases ms rule: rev_cases) (auto simp: runs_inv_def)
  let ?m = "m\<lparr>AStart := int i, BStart := int j, mLen := mLen m + 1\<rparr>"
  have e: "run' = run" "ms' = ns @ [?m]" using assms(5) False ms r by (auto simp: extend_run_def Let_def)
  have "run_ok a b m" using assms(1) ms by (simp add: runs_inv_def)
  note M = run_ok_more [OF this r(2,3) assms(4)]
  show ?thesis using assms(1) M r(1) unfolding e by (auto simp: runs_inv_def ms)
qed

lemma lcs_walk_runs:
  assumes "i \<le> length a" "j \<le> length b" "lcs_len a b i j \<le> length sq"
    and "runs_inv a b i j (drop (lcs_len a b i j) sq) run ms"
    and "lcs_walk a b True (fill_table a b) i j (lcs_len a b i j) sq run ms = (sq', ms')"
  shows "(\<forall>m \<in> set ms'. run_ok a b m) \<and> concat (map (run_text a) (rev ms')) = sq'"
  using assms
proof (induction "i + j" arbitrary: i j sq run ms rule: less_induct)
  case less
  show ?case
  proof (cases "i > 0 \<and> j > 0")
    case False
    then have "sq' = sq" "ms' = ms" using less.prems(5) by (subst (asm) lcs_walk.simps, simp)+
    then show ?thesis using less.prems(4) False by (auto simp: runs_inv_def)
  next
    case True
    then obtain i' j' where ij: "i = Suc i'" "j = Suc j'" by (metis gr0_conv_Suc)
    have T: "fill_table a b ! tcell (Suc (length b)) i' j = int (lcs_len a b i' j)"
      "fill_table a b ! tcell (Suc (length b)) i j' = int (lcs_len a b i j')"
      using less.prems ij by (simp_all add: fill_table_at)
    show ?thesis
    proof (cases "a ! i' = b ! j'")
      case eq: True
      let ?k = "lcs_len a b i' j'"
      have k: "lcs_len a b i j = Suc ?k" "Suc ?k \<le> length sq" using less.prems eq ij by simp_all
      obtain run' ns where r: "extend_run i j run ms = (run', ns)" by (cases "extend_run i j run ms")
      have d: "drop ?k (sq[?k := a ! i']) = a ! i' # drop (Suc ?k) sq"
        using k(2) by (simp add: drop_update_swap Cons_nth_drop_Suc [symmetric])
      have "runs_inv a b i' j' (a ! i' # drop (Suc ?k) sq) run' ns"
        using less.prems eq r ij k by (intro extend_run_inv) simp_all
      moreover have "lcs_walk a b True (fill_table a b) i' j' ?k (sq[?k := a ! i']) run' ns = (sq', ms')"
        using less.prems(5) ij eq r k(1) by (subst (asm) lcs_walk.simps) (simp add: Let_def)
      ultimately show ?thesis using less.prems ij k d by (intro less.hyps [of i' j' _ run' ns]) simp_all
    next
      case ne: False
      have R: "runs_inv a b i2 j2 (drop (lcs_len a b i j) sq) (-1) ms" for i2 j2
        using less.prems(4) by (simp add: runs_inv_def)
      show ?thesis
      proof (cases "lcs_len a b i' j > lcs_len a b i j'")
        case gt: True
        have l: "lcs_len a b i j = lcs_len a b i' j" using gt ij ne by simp
        have "lcs_walk a b True (fill_table a b) i' j (lcs_len a b i' j) sq (-1) ms = (sq', ms')"
          using less.prems(5) ij ne T gt l by (subst (asm) lcs_walk.simps) simp
        then show ?thesis using less.prems ij R l by (intro less.hyps [of i' j sq "-1" ms]) simp_all
      next
        case le: False
        have l: "lcs_len a b i j = lcs_len a b i j'" using le ij ne by simp
        have "lcs_walk a b True (fill_table a b) i j' (lcs_len a b i j') sq (-1) ms = (sq', ms')"
          using less.prems(5) ij ne T le l by (subst (asm) lcs_walk.simps) simp
        then show ?thesis using less.prems ij R l by (intro less.hyps [of i j' sq "-1" ms]) simp_all
      qed
    qed
  qed
qed

subsection \<open>The result\<close>

lemma lcs_len_0_iff: "length a = 0 \<or> length b = 0 \<Longrightarrow> lcs_len a b (length a) (length b) = 0"
  by auto

lemma lcs_result:
  shows "lLen (lcs a b want) = int (lcs_len a b (length a) (length b))"
    "int (length (lSeq (lcs a b want))) = lLen (lcs a b want)"
    "subseq (lSeq (lcs a b want)) a \<and> subseq (lSeq (lcs a b want)) b"
    "want \<Longrightarrow> (\<forall>m \<in> set (Matches (lcs a b want)). run_ok a b m) \<and> concat (map (run_text a) (rev (Matches (lcs a b want)))) = lSeq (lcs a b want)"
proof -
  let ?L = "lcs_len a b (length a) (length b)"
  have tot: "fill_table a b ! tcell (Suc (length b)) (length a) (length b) = int ?L" by (rule fill_table_at) simp_all
  let ?W = "lcs_walk a b want (fill_table a b) (length a) (length b) ?L (replicate ?L CHR 0x00) (-1) []"
  have r: "lcs a b want = (if ?L = 0 then emptyLCS else \<lparr>lSeq = fst ?W, lLen = int ?L, Matches = snd ?W\<rparr>)"
    using lcs_len_0_iff [of a b] by (auto simp: lcs_def Let_def tot split_def)
  have s: "fst ?W = lcs_back a b (length a) (length b)" by (simp add: lcs_walk_seq)
  have B: "length (lcs_back a b (length a) (length b)) = ?L" "subseq (lcs_back a b (length a) (length b)) a"
    "subseq (lcs_back a b (length a) (length b)) b"
    using lcs_back_length [of a b] lcs_back_common [of "length a" a "length b" b] by simp_all
  show "lLen (lcs a b want) = int ?L" using r by simp
  show "int (length (lSeq (lcs a b want))) = lLen (lcs a b want)" using r s B by simp
  show "subseq (lSeq (lcs a b want)) a \<and> subseq (lSeq (lcs a b want)) b" using r s B by simp
  assume want
  have "runs_inv a b (length a) (length b) (drop ?L (replicate ?L CHR 0x00)) (-1) []" by (simp add: runs_inv_def)
  then have "(\<forall>m \<in> set (snd ?W). run_ok a b m) \<and> concat (map (run_text a) (rev (snd ?W))) = fst ?W"
    using \<open>want\<close> by (intro lcs_walk_runs [of "length a" a "length b" b "replicate ?L CHR 0x00" "-1" "[]"]) simp_all
  then show "(\<forall>m \<in> set (Matches (lcs a b want)). run_ok a b m) \<and> concat (map (run_text a) (rev (Matches (lcs a b want)))) = lSeq (lcs a b want)"
    using r by simp
qed

lemma subseq_revI: "subseq xs ys \<Longrightarrow> subseq (rev xs) (rev ys)"
proof (induction rule: list_emb.induct)
  case (list_emb_Cons xs ys y)
  then have "subseq (rev xs @ []) (rev ys @ [y])" by (intro list_emb_append_mono) simp_all
  then show ?case by simp
qed (auto intro: list_emb_append_mono)

lemma lcs_longest: "subseq zs a \<Longrightarrow> subseq zs b \<Longrightarrow> int (length zs) \<le> lLen (lcs a b want)"
  using lcs_len_maximal [of "rev zs" "length a" a "length b" b] by (simp add: lcs_result(1) subseq_revI)

interpretation lcsop: key_reader "\<lambda>env. lcsOperand env key" key "Inr []"
  "\<lambda>env st e. (e, case val e of VString s \<Rightarrow> Inr (sbytes s) | _ \<Rightarrow> Inl ErrNotString)" for key
  by unfold_locales (simp_all add: lcsOperand_def same_value_refl)

lemma LCS_inv: "store_inv st \<Longrightarrow> store_inv (snd (LCS env a b want st))"
proof -
  assume i: "store_inv st"
  obtain r st1 where a: "lcsOperand env a st = (r, st1)" by (cases "lcsOperand env a st")
  have i1: "store_inv st1" using lcsop.inv [OF i, of env a] a by simp
  obtain r' st2 where b: "lcsOperand env b st1 = (r', st2)" by (cases "lcsOperand env b st1")
  have "store_inv st2" using lcsop.inv [OF i1, of env b] b by simp
  then show ?thesis using i1 a b by (auto simp: LCS_def split: sum.split)
qed

end
