(* ===== verification/Bitmap.thy ===== *)
theory Bitmap
  imports Lcs
begin

unbundle bit_operations_syntax

text \<open>
  The bit operations on strings of \<open>internal/store/bitmap.go\<close>. Bit \<open>n\<close> of a string is the bit of byte \<open>n / 8\<close>
  selected by the mask \<open>0x80 >> (n % 8)\<close>; a byte is a \<^typ>\<open>char\<close> and its bits are read as an 8-bit word.
  Against the list of bits of the string (\<open>string_bits\<close>), the lemmas show what setting, reading,
  counting and searching bits do, that the bitwise combination of keys works on zero-extended operands,
  and that an integer field reads back what was written, reduced into its type by the overflow policy.
\<close>

subsection \<open>Bits of a string\<close>

datatype bit_error = BitStoreErr error | ErrBitOffset

type_synonym 'a bres = "bit_error + 'a"

abbreviation maxBitOffset :: int where "maxBitOffset \<equiv> maxStringLen * 8 - 1"

definition bit_mask :: "int \<Rightarrow> 8 word" where
  "bit_mask i = drop_bit (nat (i mod 8)) 0x80"

definition byte_at :: "bytes \<Rightarrow> nat \<Rightarrow> 8 word" where
  "byte_at b i = of_char (b ! i)"

definition bit_at :: "bytes \<Rightarrow> int \<Rightarrow> bool" where
  "bit_at b i \<longleftrightarrow> byte_at b (nat (i div 8)) AND bit_mask i \<noteq> 0"

definition put_bit :: "int \<Rightarrow> bool \<Rightarrow> bytes \<Rightarrow> bytes" where
  "put_bit i on b =
     (let k = nat (i div 8); c = byte_at b k
      in b[k := char_of (unat (if on then c OR bit_mask i else c AND NOT (bit_mask i)))])"

definition stringForWrite :: "entry option \<Rightarrow> (entry \<times> slice \<times> bool) option" where
  "stringForWrite live =
     (case live of
        Some e \<Rightarrow> (case val e of VString s \<Rightarrow> Some (e, s, False) | _ \<Rightarrow> None)
      | None \<Rightarrow> Some ((new_entry (VString (copyBytes [])))\<lparr>origin := strMutatedBuffer\<rparr>, copyBytes [], True))"

definition growString :: "int \<Rightarrow> slice \<Rightarrow> slice \<times> bool" where
  "growString n s =
     (if int (length (sbytes s)) \<ge> n then (s, False)
      else (copyBytes (overwrite 0 (sbytes s) (replicate (nat n) (CHR 0x00))), True))"

definition setBit_body :: "goenv \<Rightarrow> int \<Rightarrow> bool \<Rightarrow> store \<Rightarrow> entry option \<Rightarrow> entry option \<times> (int \<times> bool) bres" where
  "setBit_body env offset on st slot =
     (case stringForWrite (liveSlot (now env) slot) of
        None \<Rightarrow> (slot, Inl (BitStoreErr ErrWrongType))
      | Some (e, s, created) \<Rightarrow>
          let (s', grew) = growString (offset div 8 + 1) s;
              old = bit_at (sbytes s') offset;
              s'' = s'\<lparr>sbytes := put_bit offset on (sbytes s')\<rparr>
          in (Some (touch env st (e\<lparr>val := VString s''\<rparr>)), Inr (of_bool old, created \<or> grew \<or> old \<noteq> on)))"

definition SetBit :: "goenv \<Rightarrow> bytes \<Rightarrow> int \<Rightarrow> bool \<Rightarrow> store \<Rightarrow> (int \<times> bool) bres \<times> store" where
  "SetBit env key offset on st =
     (if offset < 0 \<or> offset > maxBitOffset then (Inl ErrBitOffset, st)
      else write_key key (setBit_body env offset on st) st)"

definition getBit_of :: "int \<Rightarrow> entry \<Rightarrow> int bres" where
  "getBit_of offset e =
     (case val e of
        VString s \<Rightarrow>
          if offset div 8 \<ge> int (length (sbytes s)) then Inr 0
          else Inr (of_bool (bit_at (sbytes s) offset))
      | _ \<Rightarrow> Inl (BitStoreErr ErrWrongType))"

definition GetBit :: "goenv \<Rightarrow> bytes \<Rightarrow> int \<Rightarrow> store \<Rightarrow> int bres \<times> store" where
  "GetBit env key offset st =
     (if offset < 0 \<or> offset > maxBitOffset then (Inl ErrBitOffset, st)
      else read_key env key (Inr 0) (\<lambda>e. (e, getBit_of offset e)) st)"

subsection \<open>Counting and searching\<close>

record BitRange =
  rangeStart :: int
  rangeEnd :: int
  rangeBits :: bool
  rangePresent :: bool

definition resolveByteRange :: "int \<Rightarrow> int \<Rightarrow> int \<Rightarrow> (int \<times> int) option" where
  "resolveByteRange start end' n =
     (let start = (if start < 0 then start + n else start);
          end' = (if end' < 0 then end' + n else end');
          start = max start 0;
          end' = (if end' \<ge> n then n - 1 else end')
      in if n = 0 \<or> start > end' then None else Some (start, end'))"

definition OnesCount8 :: "8 word \<Rightarrow> int" where
  "OnesCount8 c = int (length (filter (bit c) [0..<8]))"

definition countBits :: "bytes \<Rightarrow> int" where
  "countBits b = foldl (\<lambda>n c. n + OnesCount8 (of_char c)) 0 b"

definition count_each :: "bytes \<Rightarrow> int \<Rightarrow> int \<Rightarrow> int \<Rightarrow> int" where
  "count_each b from to n = fold (\<lambda>i n. if bit_at b i then n + 1 else n) [from..to] n"

definition countBitsInBitRange :: "bytes \<Rightarrow> int \<Rightarrow> int \<Rightarrow> int" where
  "countBitsInBitRange b startBit endBit =
     (let firstWhole = (startBit + 7) div 8; lastWhole = (endBit + 1) div 8 - 1
      in if firstWhole > lastWhole then count_each b startBit endBit 0
         else
           let n = count_each b startBit (firstWhole * 8 - 1) 0;
               n = n + countBits (take (nat (lastWhole + 1 - firstWhole)) (drop (nat firstWhole) b))
           in count_each b ((lastWhole + 1) * 8) endBit n)"

definition bitCount_of :: "BitRange \<Rightarrow> bytes \<Rightarrow> int" where
  "bitCount_of r str =
     (if \<not> rangePresent r then countBits str
      else if rangeBits r then
        (case resolveByteRange (rangeStart r) (rangeEnd r) (int (length str) * 8) of
           None \<Rightarrow> 0 | Some (a, b) \<Rightarrow> countBitsInBitRange str a b)
      else
        (case resolveByteRange (rangeStart r) (rangeEnd r) (int (length str)) of
           None \<Rightarrow> 0 | Some (a, b) \<Rightarrow> countBits (take (nat (b + 1 - a)) (drop (nat a) str))))"

definition BitCount :: "goenv \<Rightarrow> bytes \<Rightarrow> BitRange \<Rightarrow> store \<Rightarrow> int res \<times> store" where
  "BitCount env key r st =
     read_key env key (Inr 0)
       (\<lambda>e. (e, case val e of VString s \<Rightarrow> Inr (bitCount_of r (sbytes s)) | _ \<Rightarrow> Inl ErrWrongType)) st"

fun first_bit :: "bytes \<Rightarrow> bool \<Rightarrow> int list \<Rightarrow> int option" where
  "first_bit b v [] = None"
| "first_bit b v (i # is) = (if bit_at b i = v then Some i else first_bit b v is)"

definition bitPos_of :: "int \<Rightarrow> BitRange \<Rightarrow> bool \<Rightarrow> bytes \<Rightarrow> int" where
  "bitPos_of bt r hasEnd str =
     (let totalBits = int (length str) * 8;
          bounds = (if \<not> rangePresent r then Some (0, totalBits - 1)
                    else
                      let unit = (if rangeBits r then totalBits else int (length str))
                      in map_option (\<lambda>(a, b). if rangeBits r then (a, b) else (a * 8, b * 8 + 7))
                           (resolveByteRange (rangeStart r) (rangeEnd r) unit))
      in case bounds of
           None \<Rightarrow> -1
         | Some (startBit, endBit) \<Rightarrow>
             (case first_bit str (bt = 1) [startBit..min endBit (totalBits - 1)] of
                Some i \<Rightarrow> i
              | None \<Rightarrow> if bt = 0 \<and> \<not> hasEnd then totalBits else -1))"

definition BitPos :: "goenv \<Rightarrow> bytes \<Rightarrow> int \<Rightarrow> BitRange \<Rightarrow> bool \<Rightarrow> store \<Rightarrow> int res \<times> store" where
  "BitPos env key bt r hasEnd st =
     read_key env key (Inr (if bt = 0 then 0 else -1))
       (\<lambda>e. (e, case val e of VString s \<Rightarrow> Inr (bitPos_of bt r hasEnd (sbytes s)) | _ \<Rightarrow> Inl ErrWrongType)) st"

subsection \<open>Bitwise combination of keys\<close>

datatype BitOpKind = BitOpAnd | BitOpOr | BitOpXor | BitOpNot

definition byteAt :: "bytes \<Rightarrow> nat \<Rightarrow> 8 word" where
  "byteAt v i = (if i < length v then byte_at v i else 0)"

fun bit_op :: "BitOpKind \<Rightarrow> 8 word \<Rightarrow> 8 word \<Rightarrow> 8 word" where
  "bit_op BitOpAnd a b = a AND b"
| "bit_op BitOpOr a b = a OR b"
| "bit_op BitOpXor a b = a XOR b"
| "bit_op BitOpNot a b = a"

fun source_values :: "goenv \<Rightarrow> store \<Rightarrow> bytes list \<Rightarrow> bytes list res" where
  "source_values env st [] = Inr []"
| "source_values env st (k # ks) =
     (case (case liveEntry st k (now env) of
              None \<Rightarrow> Inr []
            | Some e \<Rightarrow> (case val e of VString s \<Rightarrow> Inr (sbytes s) | _ \<Rightarrow> Inl ErrWrongType)) of
        Inl err \<Rightarrow> Inl err
      | Inr v \<Rightarrow> (case source_values env st ks of Inl err \<Rightarrow> Inl err | Inr vs \<Rightarrow> Inr (v # vs)))"

definition bitOp_bytes :: "BitOpKind \<Rightarrow> bytes list \<Rightarrow> nat \<Rightarrow> bytes" where
  "bitOp_bytes opr values n =
     map (char_of \<circ> unat)
       (if n = 0 then []
        else if opr = BitOpNot then map (\<lambda>i. NOT (byteAt (hd values) i)) [0..<n]
        else fold (\<lambda>v out. map (\<lambda>i. bit_op opr (out ! i) (byteAt v i)) [0..<n]) (tl values)
               (map (byteAt (hd values)) [0..<n]))"

definition bitOp_body :: "goenv \<Rightarrow> BitOpKind \<Rightarrow> bytes \<Rightarrow> bytes list \<Rightarrow> store \<Rightarrow> int res \<times> store" where
  "bitOp_body env opr dst srcs st =
     (case source_values env st srcs of
        Inl err \<Rightarrow> (Inl err, st)
      | Inr values \<Rightarrow>
          let maxLen = fold (\<lambda>v n. max n (length v)) values 0
          in if int maxLen > maxStringLen then (Inl ErrStringTooLong, st)
             else
               let out = bitOp_bytes opr values maxLen
               in if out = [] then (Inr 0, put_slot dst None st)
                  else (Inr (int (length out)),
                        put_slot dst (Some (touch env st ((new_entry (VString (copyBytes out)))\<lparr>origin := strMutatedBuffer\<rparr>))) st))"

definition BitOp :: "goenv \<Rightarrow> BitOpKind \<Rightarrow> bytes \<Rightarrow> bytes list \<Rightarrow> store \<Rightarrow> int res \<times> store" where
  "BitOp env opr dst srcs st = trackedKeys [dst] (bitOp_body env opr dst srcs) st"

subsection \<open>Integer fields\<close>

datatype BitFieldOverflow = OverflowWrap | OverflowSat | OverflowFail

datatype BitFieldOpKind = BitFieldGet | BitFieldSet | BitFieldIncrBy

text \<open>A field is 1 to 64 bits wide (at most 63 when unsigned) at a bit offset that is not negative.\<close>

record BitFieldOp =
  fKind :: BitFieldOpKind
  fSigned :: bool
  fBits :: nat
  fOffset :: int
  fValue :: int
  fOverflow :: BitFieldOverflow

text \<open>The outcome of one operation; \<open>None\<close> when \<open>OVERFLOW FAIL\<close> refused it.\<close>

type_synonym BitFieldResult = "int option"

definition bitFieldBytes :: "BitFieldOp \<Rightarrow> int" where
  "bitFieldBytes op = (fOffset op + int (fBits op) + 7) div 8"

definition sign_extend :: "BitFieldOp \<Rightarrow> 64 word \<Rightarrow> 64 word" where
  "sign_extend op v =
     (if fSigned op \<and> v AND push_bit (fBits op - 1) 1 \<noteq> 0 then v OR push_bit (fBits op) (NOT 0) else v)"

definition getBitField :: "bytes \<Rightarrow> BitFieldOp \<Rightarrow> int" where
  "getBitField str op =
     (let v = foldl (\<lambda>v i. let b = fOffset op + int i; v = push_bit 1 v
                     in if b div 8 < int (length str) \<and> bit_at str b then v OR 1 else v) (0 :: 64 word) [0..<fBits op]
      in sint (if fBits op < 64 then sign_extend op v else v))"

definition setBitField :: "BitFieldOp \<Rightarrow> int \<Rightarrow> bytes \<Rightarrow> bytes" where
  "setBitField op value str =
     fold (\<lambda>i str. put_bit (fOffset op + int i) ((word_of_int value :: 64 word) AND push_bit (fBits op - 1 - i) 1 \<noteq> 0) str)
       [0..<fBits op] str"

definition bitFieldBounds :: "BitFieldOp \<Rightarrow> int \<times> int" where
  "bitFieldBounds op =
     (if fSigned op then
        if fBits op = 64 then (- (2 ^ 63), max_int64) else let hi = 2 ^ (fBits op - 1) - 1 in (- hi - 1, hi)
      else if fBits op \<ge> 63 then (0, max_int64) else (0, 2 ^ fBits op - 1))"

definition wrapBitField :: "BitFieldOp \<Rightarrow> int \<Rightarrow> int" where
  "wrapBitField op v =
     (if fBits op = 64 then v
      else sint (sign_extend op ((word_of_int v :: 64 word) AND (push_bit (fBits op) 1 - 1))))"

definition clampBitField :: "BitFieldOp \<Rightarrow> int \<Rightarrow> int option" where
  "clampBitField op v =
     (let (lo, hi) = bitFieldBounds op
      in if v \<ge> lo \<and> v \<le> hi then Some v
         else case fOverflow op of
                OverflowFail \<Rightarrow> None
              | OverflowSat \<Rightarrow> if v < lo then Some lo else Some hi
              | OverflowWrap \<Rightarrow> Some (wrapBitField op v))"

definition incrBitField :: "BitFieldOp \<Rightarrow> int \<Rightarrow> int option" where
  "incrBitField op cur =
     (let (lo, hi) = bitFieldBounds op; sum = wrap64 (cur + fValue op);
          overflowed = (fValue op > 0 \<and> sum < cur \<or> fValue op < 0 \<and> sum > cur \<or> sum < lo \<or> sum > hi)
      in if \<not> overflowed then Some sum
         else case fOverflow op of
                OverflowFail \<Rightarrow> None
              | OverflowSat \<Rightarrow> if fValue op > 0 then Some hi else Some lo
              | OverflowWrap \<Rightarrow> Some (wrapBitField op sum))"

definition bitField_step :: "bool \<Rightarrow> BitFieldOp \<Rightarrow> bytes \<times> bool \<times> BitFieldResult list \<Rightarrow> bytes \<times> bool \<times> BitFieldResult list" where
  "bitField_step widened op acc =
     (let (str, changed, results) = acc; cur = getBitField str op
      in case fKind op of
           BitFieldGet \<Rightarrow> (str, changed, results @ [Some cur])
         | BitFieldSet \<Rightarrow>
             (case clampBitField op (fValue op) of
                None \<Rightarrow> (str, changed, results @ [None])
              | Some v \<Rightarrow> (setBitField op v str, changed \<or> widened \<or> v \<noteq> cur, results @ [Some cur]))
         | BitFieldIncrBy \<Rightarrow>
             (case incrBitField op cur of
                None \<Rightarrow> (str, changed, results @ [None])
              | Some v \<Rightarrow> (setBitField op v str, changed \<or> widened \<or> v \<noteq> cur, results @ [Some v])))"

definition widen_all :: "BitFieldOp list \<Rightarrow> slice \<times> bool \<Rightarrow> slice \<times> bool" where
  "widen_all ops acc =
     fold (\<lambda>op (s, w). if fKind op = BitFieldGet then (s, w) else let (s', grew) = growString (bitFieldBytes op) s in (s', w \<or> grew)) ops acc"

definition bitField_body :: "goenv \<Rightarrow> BitFieldOp list \<Rightarrow> store \<Rightarrow> entry option \<Rightarrow> entry option \<times> (BitFieldResult list \<times> bool) res" where
  "bitField_body env ops st slot =
     (case stringForWrite (liveSlot (now env) slot) of
        None \<Rightarrow> (slot, Inl ErrWrongType)
      | Some (e, s, created) \<Rightarrow>
          let (s', widened) = widen_all ops (s, created);
              (str, changed, results) = fold (bitField_step widened) ops (sbytes s', False, []);
              e' = e\<lparr>val := VString (s'\<lparr>sbytes := str\<rparr>)\<rparr>
          in (if changed then Some (touch env st e') else if created then None else Some e', Inr (results, changed)))"

definition BitField :: "goenv \<Rightarrow> bytes \<Rightarrow> BitFieldOp list \<Rightarrow> store \<Rightarrow> (BitFieldResult list \<times> bool) res \<times> store" where
  "BitField env key ops st =
     (if \<forall>op \<in> set ops. fKind op = BitFieldGet
      then read_key env key (Inr (map (\<lambda>op. Some (getBitField [] op)) ops, False))
             (\<lambda>e. (e, case val e of
                        VString s \<Rightarrow> Inr (map (\<lambda>op. Some (getBitField (sbytes s) op)) ops, False)
                      | _ \<Rightarrow> Inl ErrWrongType)) st
      else write_key key (bitField_body env ops st) st)"


subsection \<open>The bits of a byte string\<close>

text \<open>A string stands for the bits of its bytes followed by zeros without end.\<close>

definition string_bit :: "bytes \<Rightarrow> int \<Rightarrow> bool" where
  "string_bit b i \<longleftrightarrow> i div 8 < int (length b) \<and> bit_at b i"

lemma bit_mask_exp: "bit_mask i = 2 ^ (7 - nat (i mod 8))"
proof -
  have "nat (i mod 8) < 8" by simp
  then consider "nat (i mod 8) = 0" | "nat (i mod 8) = 1" | "nat (i mod 8) = 2" | "nat (i mod 8) = 3"
    | "nat (i mod 8) = 4" | "nat (i mod 8) = 5" | "nat (i mod 8) = 6" | "nat (i mod 8) = 7" by linarith
  then show ?thesis by cases (simp_all only: bit_mask_def, code_simp+)
qed

lemma bit_at_iff: "bit_at b i \<longleftrightarrow> bit (byte_at b (nat (i div 8))) (7 - nat (i mod 8))"
  by (simp add: bit_at_def bit_mask_exp and_exp_eq_0_iff_not_bit)

lemma byte_of_char [simp]: "of_char (char_of (unat (w :: 8 word))) = w"
proof -
  have "of_char (char_of (unat w)) = (word_of_nat (of_char (char_of (unat w))) :: 8 word)" by (rule of_nat_of_char [symmetric])
  also have "(of_char (char_of (unat w)) :: nat) = unat w"
  proof -
    have "unat w < 2 ^ LENGTH(8)" by (rule unsigned_less)
    then show ?thesis by (simp add: of_char_of)
  qed
  finally show ?thesis by simp
qed

lemma byte_at_update: "k < length b \<Longrightarrow> byte_at (b[k := char_of (unat w)]) j = (if j = k then w else byte_at b j)"
  by (simp add: byte_at_def nth_list_update)

lemma length_put_bit [simp]: "length (put_bit i on b) = length b"
  by (simp add: put_bit_def Let_def)

lemma bit_position: "0 \<le> i \<Longrightarrow> 0 \<le> j \<Longrightarrow> nat (i div 8) = nat (j div 8) \<Longrightarrow> 7 - nat (i mod 8) = 7 - nat (j mod 8) \<Longrightarrow> i = j"
proof -
  assume a: "0 \<le> i" "0 \<le> j" "nat (i div 8) = nat (j div 8)" "7 - nat (i mod 8) = 7 - nat (j mod 8)"
  have "i mod 8 < 8" "j mod 8 < 8" "0 \<le> i mod 8" "0 \<le> j mod 8" by simp_all
  then have "i mod 8 = j mod 8" using a(4) by linarith
  moreover have "i div 8 = j div 8" using a by (simp add: nat_eq_iff pos_imp_zdiv_nonneg_iff)
  ultimately show "i = j" by (metis div_mult_mod_eq)
qed

lemma bit_update_word:
  fixes c :: "8 word"
  assumes "q < 8" "m < 8"
  shows "bit (if on then c OR 2 ^ m else c AND NOT (2 ^ m)) q = (if q = m then on else bit c q)"
  using assms by (cases on) (auto simp: bit_or_iff bit_and_iff bit_not_iff bit_exp_iff)

lemma bit_at_put:
  assumes "0 \<le> i" "0 \<le> j" "i div 8 < int (length b)"
  shows "bit_at (put_bit i on b) j = (if j = i then on else bit_at b j)"
proof -
  define k where "k = nat (i div 8)"
  define m where "m = 7 - nat (i mod 8)"
  define q where "q = 7 - nat (j mod 8)"
  have k: "k < length b" using assms by (simp add: k_def nat_less_iff pos_imp_zdiv_nonneg_iff)
  have mq: "m < 8" "q < 8" by (simp_all add: m_def q_def)
  have p: "bit_at (put_bit i on b) j =
      bit (if nat (j div 8) = k then (if on then byte_at b k OR 2 ^ m else byte_at b k AND NOT (2 ^ m)) else byte_at b (nat (j div 8))) q"
    by (simp add: bit_at_iff put_bit_def Let_def byte_at_update [OF k] bit_mask_exp k_def [symmetric] m_def [symmetric] q_def [symmetric]
        del: bit_not_iff_eq)
  show ?thesis
  proof (cases "nat (j div 8) = k")
    case True
    have "q = m \<longleftrightarrow> j = i" using bit_position [OF assms(2,1)] True by (auto simp: k_def m_def q_def)
    then show ?thesis unfolding p if_P [OF True] bit_update_word [OF mq(2,1)] using True by (simp add: bit_at_iff q_def)
  next
    case False
    then have "j \<noteq> i" by (auto simp: k_def)
    then show ?thesis unfolding p if_not_P [OF False] by (simp add: bit_at_iff q_def)
  qed
qed

lemma growString_bits:
  assumes "growString n s = (s', grew)" "0 \<le> n"
  shows "0 \<le> i \<Longrightarrow> string_bit (sbytes s') i = string_bit (sbytes s) i" "int (length (sbytes s')) = max (int (length (sbytes s))) n"
proof -
  have "byte_at (b @ replicate m (CHR 0x00)) k = (if k < length b then byte_at b k else 0)" if "k < length b + m" for b m k
    using that by (simp add: byte_at_def nth_append)
  moreover have "overwrite 0 b (replicate m c) = b @ replicate (m - length b) c" for b :: bytes and m c
    by (simp add: overwrite_def)
  ultimately show "0 \<le> i \<Longrightarrow> string_bit (sbytes s') i = string_bit (sbytes s) i"
    "int (length (sbytes s')) = max (int (length (sbytes s))) n"
    using assms by (auto simp: growString_def string_bit_def bit_at_iff nat_less_iff pos_imp_zdiv_nonneg_iff split: if_splits)
qed

subsection \<open>Setting and reading a bit\<close>

lemma stringForWrite_ok: "stringForWrite (liveSlot t slot) = Some (e, s, created) \<Longrightarrow> val e = VString s"
  by (auto simp: stringForWrite_def split: option.splits val.splits)

interpretation setbit: key_writer "SetBit env key offset on" key
  "\<lambda>st slot. if offset < 0 \<or> offset > maxBitOffset then (slot, Inl ErrBitOffset) else setBit_body env offset on st slot"
  for env key offset on
proof unfold_locales
  fix st :: store
  assume w: "store_wf st"
  show "SetBit env key offset on st =
    write_key key (\<lambda>slot. if offset < 0 \<or> offset > maxBitOffset then (slot, Inl ErrBitOffset) else setBit_body env offset on st slot) st"
    using write_key_same [OF w, of key] by (simp add: SetBit_def write_key_def Let_def split_def)
next
  fix st :: store and slot
  assume "slot_ok slot"
  then show "slot_ok (fst (if offset < 0 \<or> offset > maxBitOffset then (slot, Inl ErrBitOffset) else setBit_body env offset on st slot))"
    by (auto simp: setBit_body_def entry_ok_def Let_def split_def split: option.split)
qed

interpretation bitfield: key_writer "\<lambda>st. write_key key (bitField_body env ops st) st" key "bitField_body env ops" for env key ops
  by unfold_locales (auto simp: bitField_body_def entry_ok_def Let_def split_def split: option.split)

interpretation getbit: key_reader "\<lambda>env. read_key env key (Inr 0) (\<lambda>e. (e, getBit_of offset e))" key "Inr 0"
  "\<lambda>env st e. (e, getBit_of offset e)" for key offset
  by unfold_locales (simp_all add: same_value_refl)

interpretation bitcount: key_reader "\<lambda>env. BitCount env key r" key "Inr 0"
  "\<lambda>env st e. (e, case val e of VString s \<Rightarrow> Inr (bitCount_of r (sbytes s)) | _ \<Rightarrow> Inl ErrWrongType)" for key r
  by unfold_locales (simp_all add: BitCount_def same_value_refl)

interpretation bitpos: key_reader "\<lambda>env. BitPos env key b r he" key "Inr (if b = 0 then 0 else -1)"
  "\<lambda>env st e. (e, case val e of VString s \<Rightarrow> Inr (bitPos_of b r he (sbytes s)) | _ \<Rightarrow> Inl ErrWrongType)" for key b r he
  by unfold_locales (simp_all add: BitPos_def same_value_refl)

interpretation bitfieldget: key_reader "\<lambda>env. read_key env key (Inr (map (\<lambda>op. Some (getBitField [] op)) ops, False))
    (\<lambda>e. (e, case val e of VString s \<Rightarrow> Inr (map (\<lambda>op. Some (getBitField (sbytes s) op)) ops, False) | _ \<Rightarrow> Inl ErrWrongType))"
  key "Inr (map (\<lambda>op. Some (getBitField [] op)) ops, False)"
  "\<lambda>env st e. (e, case val e of VString s \<Rightarrow> Inr (map (\<lambda>op. Some (getBitField (sbytes s) op)) ops, False) | _ \<Rightarrow> Inl ErrWrongType)"
  for key ops
  by unfold_locales (simp_all add: same_value_refl)

interpretation bitop: keys_writer "BitOp env opr dst srcs" "[dst]" "bitOp_body env opr dst srcs" True for env opr dst srcs
proof unfold_locales
  fix st :: store and k
  assume i: "store_inv st"
  note w = store_invD(1) [OF i]
  show "data_only [dst] st (snd (bitOp_body env opr dst srcs st))"
    using w by (auto simp: bitOp_body_def Let_def data_only_refl data_only_put split: sum.split)
  show "slot_ok (get_slot (snd (bitOp_body env opr dst srcs st)) k)"
    using w store_invD(3) [OF i, of k] by (auto simp: bitOp_body_def Let_def get_put_slot entry_ok_def split: sum.split)
qed (simp add: BitOp_def)

lemma bit_writes_inv:
  assumes "store_inv st"
  shows "store_inv (snd (SetBit env key i on st))" "store_inv (snd (BitField env key ops st))" "store_inv (snd (BitOp env opr dst srcs st))"
    "store_inv (snd (GetBit env key i st))"
  using assms by (simp_all add: setbit.inv bitop.inv BitField_def bitfield.inv bitfieldget.inv GetBit_def getbit.inv)

lemma SetBit_result:
  assumes "store_inv st" "liveEntry st key (now env) = live" "0 \<le> i" "i \<le> maxBitOffset"
    and "live = None \<and> base = [] \<or> (\<exists>e s. live = Some e \<and> val e = VString s \<and> sbytes s = base)"
  shows "\<exists>str changed. fst (SetBit env key i on st) = Inr (of_bool (string_bit base i), changed) \<and>
    holds (snd (SetBit env key i on st)) key str (Option.bind live expireAt) \<and>
    int (length str) = max (int (length base)) (i div 8 + 1) \<and>
    (\<forall>j \<ge> 0. string_bit str j = (if j = i then on else string_bit base j))"
proof -
  note w = store_invD(1) [OF assms(1)]
  have live: "liveSlot (now env) (get_slot st key) = live" using assms(2) by (simp add: liveEntry_def)
  obtain e s created where sw: "stringForWrite live = Some (e, s, created)" "sbytes s = base" "expireAt e = Option.bind live expireAt"
    using assms(5) by (fastforce simp: stringForWrite_def new_entry_def)
  obtain s' grew where g: "growString (i div 8 + 1) s = (s', grew)" by (cases "growString (i div 8 + 1) s")
  have n: "0 \<le> i div 8 + 1" using assms(3) by (simp add: pos_imp_zdiv_nonneg_iff)
  note G = growString_bits [OF g n]
  have l: "i div 8 < int (length (sbytes s'))" using G(2) by linarith
  have "string_bit (sbytes s') i = bit_at (sbytes s') i" using l by (simp add: string_bit_def)
  then have old: "bit_at (sbytes s') i = string_bit base i" using G(1) [OF assms(3)] sw(2) by simp
  let ?str = "put_bit i on (sbytes s')"
  have b: "string_bit ?str j = (if j = i then on else string_bit base j)" if "0 \<le> j" for j
    using bit_at_put [OF assms(3) that l] G(1) [OF that] l sw(2) by (auto simp: string_bit_def)
  have r: "fst (SetBit env key i on st) = Inr (of_bool (string_bit base i), created \<or> grew \<or> string_bit base i \<noteq> on)"
    "get_slot (snd (SetBit env key i on st)) key = Some (touch env st (e\<lparr>val := VString (s'\<lparr>sbytes := ?str\<rparr>)\<rparr>))"
    using assms(3,4) live sw g old by (simp_all add: setbit.result [OF w] setbit.slot [OF w] setBit_body_def Let_def)
  then have "holds (snd (SetBit env key i on st)) key ?str (Option.bind live expireAt)"
    using sw(3) by (simp add: holds_def)
  then show ?thesis using r(1) b G(2) sw(2) by auto
qed

lemma GetBit_result:
  assumes "liveEntry st key (now env) = live" "0 \<le> i" "i \<le> maxBitOffset"
    and "live = None \<and> base = [] \<or> (\<exists>e s. live = Some e \<and> val e = VString s \<and> sbytes s = base)"
  shows "fst (GetBit env key i st) = Inr (of_bool (string_bit base i))"
proof -
  have "fst (GetBit env key i st) = (case live of None \<Rightarrow> Inr 0 | Some e \<Rightarrow> getBit_of i e)"
    using assms(1-3) by (simp add: GetBit_def getbit.result split: option.split)
  then show ?thesis using assms(2,4) by (auto simp: getBit_of_def string_bit_def pos_imp_zdiv_nonneg_iff)
qed

subsection \<open>Counting and searching\<close>

definition set_bits_in :: "bytes \<Rightarrow> int \<Rightarrow> int \<Rightarrow> int" where
  "set_bits_in b i j = int (length (filter (bit_at b) [i..j]))"

lemma set_bits_split: "i \<le> k \<Longrightarrow> k \<le> j + 1 \<Longrightarrow> set_bits_in b i j = set_bits_in b i (k - 1) + set_bits_in b k j"
  by (cases "k = j + 1") (simp_all add: set_bits_in_def upto_split1 [of i k j])

lemma set_bits_card: "set_bits_in b i j = int (card {k \<in> {i..j}. bit_at b k})"
proof -
  have "distinct (filter (bit_at b) [i..j])" by simp
  then have "length (filter (bit_at b) [i..j]) = card (set (filter (bit_at b) [i..j]))" by (rule distinct_card [symmetric])
  also have "set (filter (bit_at b) [i..j]) = {k \<in> {i..j}. bit_at b k}" by auto
  finally show ?thesis by (simp only: set_bits_in_def)
qed

lemma OnesCount8_bits: "OnesCount8 (byte_at b k) = set_bits_in b (8 * int k) (8 * int k + 7)"
proof -
  have u: "[8 * int k..8 * int k + 7] = map (\<lambda>j. 8 * int k + (7 - int j)) (rev [0..<8])"
    by (simp add: upto.simps upt_rec)
  have "bit_at b (8 * int k + (7 - int j)) = bit (byte_at b k) j" if "j < 8" for j
  proof -
    have "(8 * int k + (7 - int j)) div 8 = int k" "(8 * int k + (7 - int j)) mod 8 = 7 - int j" using that by simp_all
    moreover have "7 - nat (7 - int j) = j" using that by simp
    ultimately show ?thesis by (simp add: bit_at_iff)
  qed
  then have "filter (\<lambda>j. bit_at b (8 * int k + (7 - int j))) [0..<8] = filter (bit (byte_at b k)) [0..<8]" by (intro filter_cong) simp_all
  then show ?thesis
    by (simp add: OnesCount8_def set_bits_in_def u filter_map comp_def rev_filter [symmetric] del: upt_Suc)
qed

lemma countBits_sum: "countBits b = sum_list (map (\<lambda>c. OnesCount8 (of_char c)) b)"
proof -
  have "foldl (\<lambda>n c. n + OnesCount8 (of_char c)) m b = m + sum_list (map (\<lambda>c. OnesCount8 (of_char c)) b)" for m
    by (induction b arbitrary: m) simp_all
  then show ?thesis by (simp add: countBits_def)
qed

lemma countBits_slice:
  "k + n \<le> length b \<Longrightarrow> countBits (take n (drop k b)) = set_bits_in b (8 * int k) (8 * int (k + n) - 1)"
proof (induction n)
  case (Suc n)
  then have "take (Suc n) (drop k b) = take n (drop k b) @ [b ! (k + n)]" by (simp add: take_Suc_conv_app_nth)
  then have "countBits (take (Suc n) (drop k b)) = countBits (take n (drop k b)) + OnesCount8 (byte_at b (k + n))"
    by (simp add: countBits_sum byte_at_def)
  also have "\<dots> = set_bits_in b (8 * int k) (8 * int (k + n) - 1) + set_bits_in b (8 * int (k + n)) (8 * int (k + n) + 7)"
    using Suc by (simp add: OnesCount8_bits)
  also have "\<dots> = set_bits_in b (8 * int k) (8 * int (k + n) + 7)"
    by (rule set_bits_split [symmetric]) simp_all
  finally show ?case by (simp add: algebra_simps)
qed (simp add: countBits_sum set_bits_in_def)

lemma count_each_eq: "count_each b i j n = n + set_bits_in b i j"
proof -
  have "fold (\<lambda>i n. if bit_at b i then n + 1 else n) xs n = n + int (length (filter (bit_at b) xs))" for xs n
    by (induction xs arbitrary: n) simp_all
  then show ?thesis by (simp add: count_each_def set_bits_in_def)
qed

lemma countBitsInBitRange_eq:
  assumes "0 \<le> i" "i \<le> j" "j < 8 * int (length b)"
  shows "countBitsInBitRange b i j = set_bits_in b i j"
proof (cases "(i + 7) div 8 > (j + 1) div 8 - 1")
  case True
  then show ?thesis by (simp add: countBitsInBitRange_def Let_def count_each_eq)
next
  case False
  define f where "f = (i + 7) div 8"
  define l where "l = (j + 1) div 8 - 1"
  have f: "0 \<le> f" "i \<le> 8 * f" "f \<le> l" and l: "8 * (l + 1) \<le> j + 1" "l + 1 \<le> int (length b)"
    using assms False by (auto simp: f_def l_def pos_imp_zdiv_nonneg_iff)
  have n: "nat f + nat (l + 1 - f) = nat (l + 1)" using f by simp
  have "countBits (take (nat (l + 1 - f)) (drop (nat f) b)) = set_bits_in b (8 * f) (8 * (l + 1) - 1)"
    using countBits_slice [of "nat f" "nat (l + 1 - f)" b] n f l by simp
  then have "countBitsInBitRange b i j =
      set_bits_in b i (8 * f - 1) + set_bits_in b (8 * f) (8 * (l + 1) - 1) + set_bits_in b (8 * (l + 1)) j"
    using False by (simp add: countBitsInBitRange_def Let_def count_each_eq f_def [symmetric] l_def [symmetric] mult.commute)
  moreover have "set_bits_in b i j = set_bits_in b i (8 * f - 1) + set_bits_in b (8 * f) j"
    using f l by (intro set_bits_split) simp_all
  moreover have "set_bits_in b (8 * f) j = set_bits_in b (8 * f) (8 * (l + 1) - 1) + set_bits_in b (8 * (l + 1)) j"
    using f l by (intro set_bits_split) simp_all
  ultimately show ?thesis by simp
qed

lemma resolveByteRange_some: "resolveByteRange i j n = Some (a, b) \<Longrightarrow> 0 \<le> a \<and> a \<le> b \<and> b < n"
  by (auto simp: resolveByteRange_def Let_def split: if_splits)

text \<open>The bit range that a count or a search covers.\<close>

definition covered :: "BitRange \<Rightarrow> bytes \<Rightarrow> (int \<times> int) option" where
  "covered r str =
     (if \<not> rangePresent r then Some (0, int (length str) * 8 - 1)
      else if rangeBits r then resolveByteRange (rangeStart r) (rangeEnd r) (int (length str) * 8)
      else map_option (\<lambda>(a, b). (a * 8, b * 8 + 7)) (resolveByteRange (rangeStart r) (rangeEnd r) (int (length str))))"

lemma bitCount_eq: "bitCount_of r str = (case covered r str of None \<Rightarrow> 0 | Some (a, b) \<Rightarrow> set_bits_in str a b)"
proof -
  have "countBits (take (nat (b + 1 - a)) (drop (nat a) str)) = set_bits_in str (8 * a) (8 * b + 7)"
    if "0 \<le> a" "a \<le> b" "b < int (length str)" for a b
  proof -
    have "nat a + nat (b + 1 - a) = nat (b + 1)" "8 * int (nat (b + 1)) - 1 = 8 * b + 7" using that by simp_all
    then show ?thesis using countBits_slice [of "nat a" "nat (b + 1 - a)" str] that by (simp add: add.commute)
  qed
  moreover have "countBits str = set_bits_in str 0 (8 * int (length str) - 1)" using countBits_slice [of 0 "length str" str] by simp
  ultimately show ?thesis using countBitsInBitRange_eq [of _ _ str]
    by (auto simp: bitCount_of_def covered_def mult.commute dest!: resolveByteRange_some split: option.split)
qed

lemma first_bit_find: "first_bit b v is = find (\<lambda>i. bit_at b i = v) is"
  by (induction "is") simp_all

lemma first_bit_Some:
  assumes "first_bit b v [i..j] = Some k"
  shows "k \<in> {i..j}" "bit_at b k = v" "\<forall>m \<in> {i..<k}. bit_at b m \<noteq> v"
proof -
  obtain n where n: "n < length [i..j]" "bit_at b ([i..j] ! n) = v" "k = [i..j] ! n" "\<And>m. m < n \<Longrightarrow> bit_at b ([i..j] ! m) \<noteq> v"
    using assms unfolding first_bit_find find_Some_iff by blast
  then have k: "k = i + int n" by (simp add: nth_upto)
  then show "k \<in> {i..j}" "bit_at b k = v" using n(1-3) by simp_all
  show "\<forall>m \<in> {i..<k}. bit_at b m \<noteq> v"
  proof
    fix m assume m: "m \<in> {i..<k}"
    then have "i \<le> m" "m < i + int n" using k by simp_all
    then have "nat (m - i) < n" "[i..j] ! nat (m - i) = m" using n(1) by (auto simp: nth_upto nat_less_iff)
    then show "bit_at b m \<noteq> v" using n(4) by metis
  qed
qed

lemma first_bit_None: "first_bit b v [i..j] = None \<Longrightarrow> \<forall>m \<in> {i..j}. bit_at b m \<noteq> v"
  by (simp add: first_bit_find find_None_iff)

text \<open>The answer of a search: the first position of the range with the bit; past the end of the value for a zero
  without an explicit end; otherwise -1.\<close>

lemma bitPos_result:
  assumes "bt = 0 \<or> bt = 1" "covered r str = Some (a, e)" "bitPos_of bt r hasEnd str = p"
  shows "p \<in> {a..e} \<and> bit_at str p = (bt = 1) \<and> (\<forall>m \<in> {a..<p}. bit_at str m \<noteq> (bt = 1)) \<or>
    (\<forall>m \<in> {a..e}. bit_at str m \<noteq> (bt = 1)) \<and> p = (if bt = 0 \<and> \<not> hasEnd then int (length str) * 8 else -1)"
proof -
  have e: "min e (int (length str) * 8 - 1) = e"
    using assms(2) by (auto simp: covered_def dest: resolveByteRange_some split: if_splits)
  have p: "p = (case first_bit str (bt = 1) [a..e] of Some i \<Rightarrow> i | None \<Rightarrow> if bt = 0 \<and> \<not> hasEnd then int (length str) * 8 else -1)"
    using assms(2,3) e by (auto simp: bitPos_of_def covered_def Let_def split: if_splits)
  show ?thesis
  proof (cases "first_bit str (bt = 1) [a..e]")
    case None
    then show ?thesis using p first_bit_None [OF None] by simp
  next
    case (Some k)
    then show ?thesis using p first_bit_Some [OF Some] by simp
  qed
qed

subsection \<open>Bitwise combination\<close>

lemma string_bit_byteAt: "0 \<le> i \<Longrightarrow> string_bit v i = bit (byteAt v (nat (i div 8))) (7 - nat (i mod 8))"
  by (auto simp: string_bit_def byteAt_def bit_at_iff nat_less_iff pos_imp_zdiv_nonneg_iff)

lemma string_bit_map:
  fixes ws :: "8 word list"
  shows "0 \<le> i \<Longrightarrow> string_bit (map (char_of \<circ> unat) ws) i = (i div 8 < int (length ws) \<and> bit (ws ! nat (i div 8)) (7 - nat (i mod 8)))"
  by (auto simp: string_bit_def bit_at_iff byte_at_def nat_less_iff pos_imp_zdiv_nonneg_iff)

lemma fold_bytes:
  assumes "length init = n"
  shows "length (fold (\<lambda>v out. map (\<lambda>i. bit_op opr (out ! i) (byteAt v i)) [0..<n]) vs init) = n"
    and "k < n \<Longrightarrow> fold (\<lambda>v out. map (\<lambda>i. bit_op opr (out ! i) (byteAt v i)) [0..<n]) vs init ! k =
      fold (\<lambda>v a. bit_op opr a (byteAt v k)) vs (init ! k)"
  using assms by (induction vs arbitrary: init) simp_all

text \<open>What the operation does to one bit of its operands.\<close>

fun combine_bits :: "BitOpKind \<Rightarrow> bool list \<Rightarrow> bool" where
  "combine_bits BitOpAnd bs = (\<forall>b \<in> set bs. b)"
| "combine_bits BitOpOr bs = (\<exists>b \<in> set bs. b)"
| "combine_bits BitOpXor bs = odd (length (filter (\<lambda>b. b) bs))"
| "combine_bits BitOpNot bs = (\<not> hd bs)"

lemma fold_bit:
  assumes "q < 8" "opr \<noteq> BitOpNot"
  shows "bit (fold (\<lambda>v a. bit_op opr a (byteAt v k)) vs w) q = combine_bits opr (bit w q # map (\<lambda>v. bit (byteAt v k) q) vs)"
  using assms
proof (induction vs arbitrary: w)
  case (Cons v vs)
  then show ?case by (cases opr) (auto simp: bit_simps)
qed (cases opr; simp)

lemma bitOp_bits:
  assumes "vs \<noteq> []" "0 \<le> i" "i div 8 < int n"
  shows "string_bit (bitOp_bytes opr vs n) i = combine_bits opr (map (\<lambda>v. string_bit v i) vs)"
proof -
  define k where "k = nat (i div 8)"
  define q where "q = 7 - nat (i mod 8)"
  obtain v vs' where v: "vs = v # vs'" using assms(1) by (cases vs) auto
  have k: "k < n" "n \<noteq> 0" "q < 8" using assms(2,3) by (auto simp: k_def q_def nat_less_iff pos_imp_zdiv_nonneg_iff)
  have b: "string_bit u i = bit (byteAt u k) q" for u by (simp add: string_bit_byteAt [OF assms(2)] k_def q_def)
  show ?thesis
  proof (cases "opr = BitOpNot")
    case True
    then have L: "bitOp_bytes opr vs n = map (char_of \<circ> unat) (map (\<lambda>i. NOT (byteAt v i)) [0..<n])"
      using k v by (simp add: bitOp_bytes_def)
    show ?thesis unfolding L string_bit_map [OF assms(2)] using k v assms(3) True
      by (simp add: b k_def [symmetric] q_def [symmetric] bit_not_iff)
  next
    case False
    let ?ws = "fold (\<lambda>v out. map (\<lambda>i. bit_op opr (out ! i) (byteAt v i)) [0..<n]) vs' (map (byteAt v) [0..<n])"
    have "?ws ! k = fold (\<lambda>v a. bit_op opr a (byteAt v k)) vs' (byteAt v k)" "length ?ws = n"
      using fold_bytes [where init = "map (byteAt v) [0..<n]" and n = n and opr = opr and vs = vs'] k(1) by simp_all
    moreover have L: "bitOp_bytes opr vs n = map (char_of \<circ> unat) ?ws" using False k v by (simp add: bitOp_bytes_def)
    ultimately show ?thesis unfolding L string_bit_map [OF assms(2)] using assms(3) fold_bit [OF k(3) False, of k vs' "byteAt v k"]
      by (simp add: k_def [symmetric] q_def [symmetric] b v)
  qed
qed

lemma length_bitOp_bytes: "length (bitOp_bytes opr vs n) = n"
  using fold_bytes(1) [of "map (byteAt (hd vs)) [0..<n]" n opr "tl vs"] by (simp add: bitOp_bytes_def)

lemma source_values_result:
  assumes "list_all2 (\<lambda>k v. (liveEntry st k (now env) = None \<and> v = []) \<or>
      (\<exists>e s. liveEntry st k (now env) = Some e \<and> val e = VString s \<and> sbytes s = v)) ks vs"
  shows "source_values env st ks = Inr vs"
  using assms by (induction rule: list_all2_induct) auto

lemma fold_max_length: "fold (\<lambda>v n. max n (length v)) vs m = Max (insert m (length ` set vs))"
proof (induction vs arbitrary: m)
  case (Cons v vs)
  have "Max (insert m (insert (length v) (length ` set vs))) = Max (insert (max m (length v)) (length ` set vs))"
    by (cases "vs = []") (simp_all add: max.assoc)
  then show ?case using Cons by simp
qed simp

lemma BitOp_result:
  assumes "store_inv st" "srcs \<noteq> []"
    and src: "list_all2 (\<lambda>k v. (liveEntry st k (now env) = None \<and> v = []) \<or>
      (\<exists>e s. liveEntry st k (now env) = Some e \<and> val e = VString s \<and> sbytes s = v)) srcs vs"
    and n: "n = Max (length ` set vs)" "int n \<le> maxStringLen"
  shows "fst (BitOp env opr dst srcs st) = Inr (int n)"
    and "n = 0 \<Longrightarrow> get_slot (snd (BitOp env opr dst srcs st)) dst = None"
    and "0 < n \<Longrightarrow> holds (snd (BitOp env opr dst srcs st)) dst (bitOp_bytes opr vs n) None"
    and "k \<noteq> dst \<Longrightarrow> get_slot (snd (BitOp env opr dst srcs st)) k = get_slot st k"
proof -
  note w = store_invD(1) [OF assms(1)]
  have "vs \<noteq> []" using assms(2) src by auto
  then have m: "fold (\<lambda>v n. max n (length v)) vs 0 = n" using n(1) by (simp add: fold_max_length)
  have e: "bitOp_bytes opr vs n = [] \<longleftrightarrow> n = 0" using length_bitOp_bytes [of opr vs n] by (metis length_0_conv)
  note R = source_values_result [OF src] and B = bitop.result [OF w, of env opr dst srcs] bitop.slot [OF assms(1) TrueI, of env opr dst srcs]
  show "fst (BitOp env opr dst srcs st) = Inr (int n)" using n(2) by (auto simp: B bitOp_body_def R m e Let_def length_bitOp_bytes)
  show "n = 0 \<Longrightarrow> get_slot (snd (BitOp env opr dst srcs st)) dst = None"
    by (simp add: B bitOp_body_def R m Let_def get_put_slot w) (simp add: bitOp_bytes_def get_put_slot w)
  show "0 < n \<Longrightarrow> holds (snd (BitOp env opr dst srcs st)) dst (bitOp_bytes opr vs n) None"
    using n(2) by (simp add: B bitOp_body_def R m e Let_def get_put_slot w holds_def new_entry_def)
  show "k \<noteq> dst \<Longrightarrow> get_slot (snd (BitOp env opr dst srcs st)) k = get_slot st k"
    using bitop.frame [OF assms(1) TrueI] by simp
qed

subsection \<open>Integer fields\<close>

text \<open>A field that the value holds entirely.\<close>

definition field_ok :: "BitFieldOp \<Rightarrow> bool" where
  "field_ok op \<longleftrightarrow> 1 \<le> fBits op \<and> fBits op \<le> (if fSigned op then 64 else 63) \<and> 0 \<le> fOffset op"

lemma fold_put_length: "length (fold (\<lambda>i str. put_bit (g i) (f i) str) xs str) = length str"
  by (induction xs arbitrary: str) simp_all

lemma fold_put_bits:
  assumes "0 \<le> off" "n \<le> m" "0 \<le> j" "off + int m \<le> 8 * int (length str)"
  shows "bit_at (fold (\<lambda>i str. put_bit (off + int i) (f i) str) [0..<n] str) j =
      (if off \<le> j \<and> j < off + int n then f (nat (j - off)) else bit_at str j)"
  using assms(2)
proof (induction n)
  case (Suc n)
  let ?s = "fold (\<lambda>i str. put_bit (off + int i) (f i) str) [0..<n] str"
  have "(off + int n) div 8 < int (length ?s)" using assms(1,4) Suc(2) by (simp add: div_less_iff_less_mult fold_put_length)
  then show ?case using bit_at_put [of "off + int n" j ?s "f n"] Suc assms(1,3) by auto
qed (use assms in auto)

lemma setBitField_bits:
  assumes "field_ok op" "fOffset op + int (fBits op) \<le> 8 * int (length str)" "0 \<le> j"
  shows "string_bit (setBitField op v str) j =
      (if fOffset op \<le> j \<and> j < fOffset op + int (fBits op)
       then bit v (fBits op - 1 - nat (j - fOffset op)) else string_bit str j)"
    and "length (setBitField op v str) = length str"
proof -
  have b: "(word_of_int v :: 64 word) AND push_bit k 1 \<noteq> 0 \<longleftrightarrow> bit v k" if "k < 64" for k
    using that by (simp add: and_exp_eq_0_iff_not_bit bit_word_of_int_iff push_bit_eq_mult)
  note F = fold_put_bits [of "fOffset op" "fBits op" "fBits op" j str
    "\<lambda>i. (word_of_int v :: 64 word) AND push_bit (fBits op - 1 - i) 1 \<noteq> 0"]
  show "length (setBitField op v str) = length str" by (simp add: setBitField_def fold_put_length)
  have "j div 8 < int (length str)" if "j < fOffset op + int (fBits op)" using that assms(2) by (simp add: div_less_iff_less_mult)
  moreover have "fBits op - 1 - i < 64" for i using assms(1) by (auto simp: field_ok_def split: if_splits)
  ultimately show "string_bit (setBitField op v str) j =
      (if fOffset op \<le> j \<and> j < fOffset op + int (fBits op)
       then bit v (fBits op - 1 - nat (j - fOffset op)) else string_bit str j)"
    using F assms b by (auto simp: string_bit_def setBitField_def field_ok_def fold_put_length)
qed

lemma foldl_bits:
  assumes "n \<le> 64"
  shows "bit (foldl (\<lambda>v i. let v = push_bit 1 v in if f i then v OR 1 else v) (0 :: 64 word) [0..<n]) k \<longleftrightarrow> k < n \<and> f (n - 1 - k)"
  using assms
proof (induction n arbitrary: k)
  case (Suc n)
  define w where "w = foldl (\<lambda>v i. let v = push_bit 1 v in if f i then v OR 1 else v) (0 :: 64 word) [0..<n]"
  have IH: "bit w m \<longleftrightarrow> m < n \<and> f (n - 1 - m)" for m using Suc unfolding w_def by simp
  have e: "foldl (\<lambda>v i. let v = push_bit 1 v in if f i then v OR 1 else v) (0 :: 64 word) [0..<Suc n] =
      (if f n then push_bit 1 w OR 1 else push_bit 1 w)"
    by (simp add: w_def)
  have "bit (push_bit 1 w) k \<longleftrightarrow> 0 < k \<and> k < 64 \<and> bit w (k - 1)" unfolding bit_push_bit_iff by auto
  moreover have "bit (1 :: 64 word) k \<longleftrightarrow> k = 0" by (auto simp: bit_1_iff)
  ultimately show ?case unfolding e IH using Suc.prems
    by (cases k) (auto simp only: IH bit_or_iff split: if_split, simp_all)
qed simp

lemma sign_extend_bits:
  assumes "1 \<le> fBits op" "fBits op < 64" "\<And>k. bit v k \<Longrightarrow> k < fBits op"
  shows "bit (sign_extend op v) k \<longleftrightarrow> (if k < fBits op then bit v k else k < 64 \<and> fSigned op \<and> bit v (fBits op - 1))"
proof -
  have "v AND push_bit (fBits op - 1) 1 \<noteq> 0 \<longleftrightarrow> bit v (fBits op - 1)"
    by (simp add: push_bit_eq_mult and_exp_eq_0_iff_not_bit)
  then show ?thesis using assms
    by (auto simp: sign_extend_def bit_or_iff bit_push_bit_iff bit_not_iff bit_mask_iff)
qed

text \<open>The bits of the integer a field stands for.\<close>

lemma getBitField_bits:
  assumes "field_ok op"
  shows "bit (getBitField str op) k \<longleftrightarrow>
    (if fSigned op then string_bit str (fOffset op + int (fBits op - 1 - min k (fBits op - 1)))
     else k < fBits op \<and> string_bit str (fOffset op + int (fBits op - 1 - k)))"
proof -
  define w where "w = foldl (\<lambda>v i. let v = push_bit 1 v in if string_bit str (fOffset op + int i) then v OR 1 else v) (0 :: 64 word) [0..<fBits op]"
  have n: "1 \<le> fBits op" "fBits op \<le> 64" "fBits op < 64 \<or> fSigned op" using assms by (auto simp: field_ok_def split: if_splits)
  have w: "bit w k \<longleftrightarrow> k < fBits op \<and> string_bit str (fOffset op + int (fBits op - 1 - k))" for k
    unfolding w_def by (rule foldl_bits [OF n(2)])
  have g: "getBitField str op = sint (if fBits op < 64 then sign_extend op w else w)"
    by (simp add: getBitField_def w_def string_bit_def Let_def)
  show ?thesis
  proof (cases "fBits op < 64")
    case True
    have "bit (sign_extend op w) k \<longleftrightarrow> (if k < fBits op then bit w k else k < 64 \<and> fSigned op \<and> bit w (fBits op - 1))" for k
      using w by (intro sign_extend_bits [OF n(1) True]) simp
    then show ?thesis using True n(1) by (auto simp: g bit_sint_iff w min_def)
  next
    case False
    then have "fBits op = 64" "fSigned op" using n by simp_all
    then show ?thesis by (auto simp: g bit_sint_iff w min_def)
  qed
qed

text \<open>Reducing a value into the type of a field.\<close>

lemma wrapBitField_eq:
  assumes "field_ok op" "int64_range v"
  shows "wrapBitField op v = (if fSigned op then signed_take_bit (fBits op - 1) v else take_bit (fBits op) v)"
proof (cases "fBits op = 64")
  case True
  then have "fSigned op" using assms(1) by (auto simp: field_ok_def split: if_splits)
  moreover have "signed_take_bit 63 v = v" using assms(2) by (intro signed_take_bit_int_eq_self) (simp_all add: int64_range_def)
  ultimately show ?thesis using True by (simp add: wrapBitField_def)
next
  case False
  then have n: "1 \<le> fBits op" "fBits op < 64" using assms(1) by (auto simp: field_ok_def split: if_splits)
  define w where "w = (word_of_int v :: 64 word) AND (push_bit (fBits op) 1 - 1)"
  have w: "bit w k \<longleftrightarrow> k < fBits op \<and> bit v k" for k
    using n(2) by (auto simp: w_def bit_and_iff bit_word_of_int_iff push_bit_eq_mult mask_eq_exp_minus_1 [symmetric] bit_mask_iff)
  have "bit (sign_extend op w) k \<longleftrightarrow> (if k < fBits op then bit w k else k < 64 \<and> fSigned op \<and> bit w (fBits op - 1))" for k
    using w by (intro sign_extend_bits [OF n]) simp
  then have "bit (sint (sign_extend op w)) k \<longleftrightarrow> bit (if fSigned op then signed_take_bit (fBits op - 1) v else take_bit (fBits op) v) k" for k
    using n by (cases "k = fBits op - 1") (auto simp: bit_sint_iff w bit_signed_take_bit_iff bit_take_bit_iff min_def)
  then show ?thesis unfolding wrapBitField_def if_not_P [OF False] w_def [symmetric] by (rule bit_eqI)
qed

lemma field_range:
  assumes "field_ok op" "bitFieldBounds op = (lo, hi)"
  shows "fSigned op \<Longrightarrow> lo = - (2 ^ (fBits op - 1)) \<and> hi = 2 ^ (fBits op - 1) - 1"
    and "\<not> fSigned op \<Longrightarrow> lo = 0 \<and> hi = 2 ^ fBits op - 1"
proof -
  show "fSigned op \<Longrightarrow> lo = - (2 ^ (fBits op - 1)) \<and> hi = 2 ^ (fBits op - 1) - 1"
    using assms by (auto simp: bitFieldBounds_def Let_def split: if_splits)
  assume u: "\<not> fSigned op"
  then have "fBits op \<ge> 63 \<longleftrightarrow> fBits op = 63" using assms(1) by (auto simp: field_ok_def)
  then show "lo = 0 \<and> hi = 2 ^ fBits op - 1" using u assms(2) by (auto simp: bitFieldBounds_def split: if_splits)
qed

lemma field_range64:
  assumes "field_ok op" "bitFieldBounds op = (lo, hi)"
  shows "- (2 ^ 63) \<le> lo" "lo \<le> 0" "0 \<le> hi" "hi < 2 ^ 63"
proof -
  have "fBits op - 1 \<le> 63" "\<not> fSigned op \<Longrightarrow> fBits op \<le> 63" using assms(1) by (auto simp: field_ok_def split: if_splits)
  then have "(2 :: int) ^ (fBits op - 1) \<le> 2 ^ 63" "\<not> fSigned op \<Longrightarrow> (2 :: int) ^ fBits op \<le> 2 ^ 63"
    by (auto intro: power_increasing simp del: power_numeral)
  moreover have "(0 :: int) < 2 ^ (fBits op - 1)" "(0 :: int) < 2 ^ fBits op" by simp_all
  ultimately show "- (2 ^ 63) \<le> lo" "lo \<le> 0" "0 \<le> hi" "hi < 2 ^ 63"
    using field_range [OF assms] by (cases "fSigned op"; linarith)+
qed

lemma wrapBitField_bounds:
  assumes "field_ok op" "int64_range v" "bitFieldBounds op = (lo, hi)"
  shows "lo \<le> wrapBitField op v \<and> wrapBitField op v \<le> hi" "2 ^ fBits op dvd wrapBitField op v - v"
    "lo \<le> v \<Longrightarrow> v \<le> hi \<Longrightarrow> wrapBitField op v = v"
proof -
  have n: "fBits op = Suc (fBits op - 1)" using assms(1) by (simp add: field_ok_def)
  note R = field_range [OF assms(1,3)] and W = wrapBitField_eq [OF assms(1,2)]
  show "lo \<le> wrapBitField op v \<and> wrapBitField op v \<le> hi"
    using R signed_take_bit_int_greater_eq_minus_exp [of "fBits op - 1" v] signed_take_bit_int_less_exp [of "fBits op - 1" v]
      take_bit_int_less_exp [of "fBits op" v]
    by (cases "fSigned op") (auto simp: W)
  have "take_bit (fBits op) (wrapBitField op v) = take_bit (fBits op) v"
  proof (cases "fSigned op")
    case True
    have "take_bit (Suc (fBits op - 1)) (signed_take_bit (fBits op - 1) v) = take_bit (Suc (fBits op - 1)) v"
      by (simp add: take_bit_signed_take_bit)
    then show ?thesis using True n by (simp add: W)
  qed (simp add: W)
  then show "2 ^ fBits op dvd wrapBitField op v - v" by (simp add: take_bit_eq_mod mod_eq_dvd_iff)
  show "lo \<le> v \<Longrightarrow> v \<le> hi \<Longrightarrow> wrapBitField op v = v"
    using R by (cases "fSigned op") (auto simp: W signed_take_bit_int_eq_self take_bit_int_eq_self)
qed

lemma wrap64_low: "- (2 ^ 64) \<le> n \<Longrightarrow> n < - (2 ^ 63) \<Longrightarrow> wrap64 n = n + 2 ^ 64"
proof -
  assume n: "- (2 ^ 64) \<le> n" "n < - (2 ^ 63)"
  have "(n + 9223372036854775808) mod 18446744073709551616 = (n + 9223372036854775808 + 18446744073709551616) mod 18446744073709551616"
    by (rule mod_add_self2 [symmetric])
  also have "\<dots> = n + 9223372036854775808 + 18446744073709551616" using n by (intro mod_pos_pos_trivial) simp_all
  finally show "wrap64 n = n + 2 ^ 64" by (simp add: wrap64_def)
qed

lemma wrap64_high: "2 ^ 63 \<le> n \<Longrightarrow> n < 2 ^ 64 \<Longrightarrow> wrap64 n = n - 2 ^ 64"
proof -
  assume n: "2 ^ 63 \<le> n" "n < 2 ^ 64"
  have "(n + 9223372036854775808) mod 18446744073709551616 = (n + 9223372036854775808 - 18446744073709551616) mod 18446744073709551616"
    by (rule minus_mod_self2 [symmetric])
  also have "\<dots> = n + 9223372036854775808 - 18446744073709551616" using n by (intro mod_pos_pos_trivial) simp_all
  finally show "wrap64 n = n - 2 ^ 64" by (simp add: wrap64_def)
qed

text \<open>An increment is exact inside the type; outside, the policy decides, on the true sum.\<close>

lemma incrBitField_eq:
  assumes "field_ok op" "bitFieldBounds op = (lo, hi)" "lo \<le> cur" "cur \<le> hi" "int64_range (fValue op)"
  shows "incrBitField op cur =
    (if lo \<le> cur + fValue op \<and> cur + fValue op \<le> hi then Some (cur + fValue op)
     else case fOverflow op of
            OverflowFail \<Rightarrow> None
          | OverflowSat \<Rightarrow> Some (if fValue op > 0 then hi else lo)
          | OverflowWrap \<Rightarrow> Some (wrapBitField op (wrap64 (cur + fValue op))))"
proof -
  note R = field_range64 [OF assms(1,2)]
  have v: "- (2 ^ 63) \<le> fValue op" "fValue op < 2 ^ 63" using assms(5) by (simp_all add: int64_range_def)
  define sum where "sum = cur + fValue op"
  have F: "incrBitField op cur =
      (if \<not> (fValue op > 0 \<and> wrap64 sum < cur \<or> fValue op < 0 \<and> wrap64 sum > cur \<or> wrap64 sum < lo \<or> wrap64 sum > hi) then Some (wrap64 sum)
       else case fOverflow op of
              OverflowFail \<Rightarrow> None
            | OverflowSat \<Rightarrow> Some (if fValue op > 0 then hi else lo)
            | OverflowWrap \<Rightarrow> Some (wrapBitField op (wrap64 sum)))"
    by (simp add: incrBitField_def assms(2) Let_def sum_def split: BitFieldOverflow.split)
  consider (low) "sum < - (2 ^ 63)" | (exact) "int64_range sum" | (high) "2 ^ 63 \<le> sum"
    by (force simp: int64_range_def)
  then show ?thesis
  proof cases
    case low
    then have "wrap64 sum = sum + 2 ^ 64" using R assms(3,4) v by (intro wrap64_low) (simp_all add: sum_def)
    moreover have "fValue op < 0" "sum < lo" using low R assms(3) by (simp_all add: sum_def)
    moreover have "wrap64 sum > cur" using \<open>wrap64 sum = _\<close> v by (simp add: sum_def)
    ultimately show ?thesis unfolding F sum_def [symmetric] by simp
  next
    case exact
    moreover have "0 < fValue op \<Longrightarrow> cur < sum" "fValue op < 0 \<Longrightarrow> sum < cur" by (simp_all add: sum_def)
    ultimately show ?thesis unfolding F sum_def [symmetric] using assms(3,4) by auto
  next
    case high
    then have "wrap64 sum = sum - 2 ^ 64" using R assms(3,4) v by (intro wrap64_high) (simp_all add: sum_def)
    moreover have "fValue op > 0" "sum > hi" using high R assms(4) by (simp_all add: sum_def)
    moreover have "wrap64 sum < cur" using \<open>wrap64 sum = _\<close> v by (simp add: sum_def)
    ultimately show ?thesis unfolding F sum_def [symmetric] by simp
  qed
qed

lemma get_set_field:
  assumes "field_ok op" "fOffset op + int (fBits op) \<le> 8 * int (length str)" "int64_range v"
  shows "getBitField (setBitField op v str) op = wrapBitField op v"
proof (rule bit_eqI)
  fix k :: nat
  have n: "1 \<le> fBits op" "0 \<le> fOffset op" using assms(1) by (auto simp: field_ok_def)
  have b: "string_bit (setBitField op v str) (fOffset op + int (fBits op - 1 - i)) = bit v i" if "i < fBits op" for i
  proof -
    define q where "q = fOffset op + int (fBits op - 1 - i)"
    have "fOffset op \<le> q" "q < fOffset op + int (fBits op)" "fBits op - 1 - nat (q - fOffset op) = i"
      using that by (simp_all add: q_def)
    then show ?thesis using setBitField_bits(1) [OF assms(1,2), of q v] n(2) unfolding q_def [symmetric] by simp
  qed
  have "min k (fBits op - 1) < fBits op" using n(1) by simp
  with b [of k] b [OF this] show "bit (getBitField (setBitField op v str) op) k = bit (wrapBitField op v) k"
    by (auto simp only: getBitField_bits [OF assms(1)] wrapBitField_eq [OF assms(1,3)] bit_signed_take_bit_iff bit_take_bit_iff
        possible_bit_int min.commute [of "fBits op - 1" k] split: if_split)
qed

end
