(* ===== verification/History.thy ===== *)
theory History
  imports Bitmap
begin

text \<open>
  Every history of a store. One inductive step relation per group of operations has one rule per
  operation of the earlier theories, with its whole state change; \<open>reachable\<close> closes the constructor
  \<open>New\<close> under all of them, in any order and with any clock, random draws and map iteration orders.
  Rule induction shows that every reachable store satisfies \<open>store_inv\<close>. The guards are the ones the
  command layer enforces (no empty argument lists, scores that are numbers, 64-bit deltas), distinct
  keys for \<open>MSetNX\<close>, and, for the two operations that create streams behind the byte accounting,
  that the accounting is off or the stream is there; \<open>Expire\<close>, which no command calls, is left out.
\<close>

subsection \<open>The empty store\<close>

lemma pow2_from_power: "p = 2 ^ m \<Longrightarrow> \<exists>j. pow2_from n p = 2 ^ j \<and> n \<le> pow2_from n p \<and> (pow2_from n p = p \<or> pow2_from n p < 2 * n)"
proof (induction n p arbitrary: m rule: pow2_from.induct)
  case (1 n p)
  show ?case
  proof (cases "p < n")
    case True
    have "2 * p = 2 ^ Suc m" using 1(2) by simp
    from 1(1) [OF _ this] True 1(2) have
      "\<exists>j. pow2_from n (2 * p) = 2 ^ j \<and> n \<le> pow2_from n (2 * p) \<and> (pow2_from n (2 * p) = 2 * p \<or> pow2_from n (2 * p) < 2 * n)"
      by simp
    moreover have "pow2_from n p = pow2_from n (2 * p)" using True 1(2) by (subst pow2_from.simps) simp
    ultimately show ?thesis using True by auto
  next
    case False
    then have "pow2_from n p = p" by (subst pow2_from.simps) simp
    then show ?thesis using False 1(2) by auto
  qed
qed

text \<open>The number of shards is the least power of two that is enough.\<close>

lemma nextPow2_power: "\<exists>j. nextPow2 n = 2 ^ j" "max 1 n \<le> nextPow2 n" "nextPow2 n < 2 * max 1 n"
proof -
  have "\<exists>j. pow2_from n 1 = 2 ^ j \<and> n \<le> pow2_from n 1 \<and> (pow2_from n 1 = 1 \<or> pow2_from n 1 < 2 * n)"
    by (rule pow2_from_power [of 1 0]) simp
  moreover have "1 \<le> (2 :: int) ^ j" for j by simp
  ultimately show "\<exists>j. nextPow2 n = 2 ^ j" "max 1 n \<le> nextPow2 n" "nextPow2 n < 2 * max 1 n"
    by (auto simp: nextPow2_def intro: exI [of _ 0])
qed

lemma New_fields [simp]:
  "shards (New n) = replicate (nat (nextPow2 n)) \<lparr>sdata = [], smem = 0, svolatile = 0\<rparr>"
  "smask (New n) = word_of_int (nextPow2 n - 1)" "memTrack (New n) = False" "mem (New n) = 0"
  by (simp_all add: New_def Let_def)

lemma New_slot [simp]:
  assumes "n \<le> 2 ^ 62"
  shows "store_wf (New n)" "get_slot (New n) k = None"
proof -
  obtain j where j: "nextPow2 n = 2 ^ j" using nextPow2_power(1) by blast
  have "(2 :: int) ^ j < 2 ^ 63" using nextPow2_power(3) [of n] assms j by simp
  then have "(2 :: int) ^ j - 1 \<in> {0..<2 ^ 64}" by simp
  then have "uint (word_of_int (2 ^ j - 1) :: 64 word) = 2 ^ j - 1" by (simp only: uint_word_of_int) simp
  then have "unat (word_of_int (2 ^ j - 1) :: 64 word) = 2 ^ j - 1"
    by (simp add: unat_eq_nat_uint nat_diff_distrib nat_power_eq)
  then show w: "store_wf (New n)" using j
    by (simp add: store_wf_def gmap_wf_def nat_power_eq)
  show "get_slot (New n) k = None" using shardIndex_bound [OF w, of k] by (simp add: get_slot_def getShard_def)
qed

lemma New_inv: "n \<le> 2 ^ 62 \<Longrightarrow> store_inv (New n)"
  by (simp add: store_inv_def mem_inv_def sum_list_replicate)


subsection \<open>Facts for the operations that are not covered by an interface\<close>

lemma Rename_inv:
  assumes "store_inv st"
  shows "store_inv (snd (Rename env src dst st))"
proof (cases "src = dst")
  case True
  have "chargeOf (snd (rename_body env dst dst st)) dst = chargeOf st dst"
    using store_invD(1) [OF assms]
    by (auto simp: rename_body_def chargeOf_def get_put_slot put_slot_wf dest: liveEntry_Some split: option.split)
  then show ?thesis using True assms by (intro rename.inv_settles) (simp_all add: settles_def)
next
  case False
  then show ?thesis using assms by (intro rename.inv) simp_all
qed

lemma TrackMemory_inv: "store_inv st \<Longrightarrow> fair_iter env \<Longrightarrow> store_inv (TrackMemory env st)"
proof -
  assume i: "store_inv st" and f: "fair_iter env"
  have "store_inv (RecomputeMemory env (st\<lparr>memTrack := True\<rparr>))"
    using store_invD(1) [OF i] totals_inv [OF i] store_invD(3) [OF i] f
    by (intro RecomputeMemory_inv)
      (simp_all add: store_wf_def totals_ok_def get_slot_def getShard_def shardIndex_def)
  then show ?thesis using i by (simp add: TrackMemory_def)
qed

lemma accounting_inv:
  assumes "store_inv st" "fair_iter env"
  shows "store_inv (snd (UsedMemory env st))" "store_inv (SetMaxMemory env n st)" "store_inv (RecomputeMemory env st)"
proof -
  show "store_inv (snd (UsedMemory env st))" "store_inv (SetMaxMemory env n st)"
    using assms TrackMemory_inv [OF assms] by (simp_all add: UsedMemory_def SetMaxMemory_def Let_def)
  show "store_inv (RecomputeMemory env st)"
    using assms by (intro RecomputeMemory_inv) (simp_all add: store_invD totals_inv)
qed

lemma evict_loop_inv: "store_inv st \<Longrightarrow> (\<And>i. fair_iter (envs i)) \<Longrightarrow> store_inv (snd (evict_loop envs p i n st))"
proof (induction n arbitrary: i st)
  case (Suc n)
  obtain ok ev st' where e: "EvictOne (envs i) p st = ((ok, ev), st')" by (metis surj_pair)
  then have "store_inv st'" using EvictOne_inv [OF Suc.prems(1), of "envs i" p] Suc.prems(2) by simp
  then show ?case using Suc e by (simp add: split_def Let_def)
qed simp

lemma EvictToLimit_inv: "store_inv st \<Longrightarrow> (\<And>i. fair_iter (envs i)) \<Longrightarrow> store_inv (snd (EvictToLimit envs st))"
  by (simp add: EvictToLimit_def Let_def evict_loop_inv)

lemma XGroupCreate_inv:
  assumes "store_inv st" "\<not> memTrack st \<or> stream_at (now env) st key \<noteq> None"
  shows "store_inv (snd (XGroupCreate env key grp i mk n has st))"
proof (rule xgcreate.inv [OF assms(1)])
  show "\<not> memTrack st \<or> slot_cost (fst (xGroupCreate_body env grp i mk n has st (get_slot st key))) = slot_cost (get_slot st key)"
    using assms(2) liveSlot_SomeD [of "now env" "get_slot st key"]
    by (auto simp: xGroupCreate_body_def stream_at_def liveEntry_def slot_cost_def entryPayload_def Let_def
        split: option.splits val.splits)
qed


subsection \<open>The steps\<close>

inductive string_step :: "goenv \<Rightarrow> store \<Rightarrow> store \<Rightarrow> bool" for env st where
  "string_step env st (snd (Set env key v ttl st))"
| "string_step env st (snd (SetDeadline env key v d st))"
| "string_step env st (snd (SetWithOptions env key v opts st))"
| "string_step env st (snd (SetNX env key v st))"
| "string_step env st (snd (GetSet env key v st))"
| "string_step env st (snd (GetDel env key st))"
| "string_step env st (snd (GetEx env key d a st))"
| "string_step env st (snd (Append env key v st))"
| "string_step env st (snd (SetRange env key off v st))"
| "string_step env st (snd (Incr env key n st))"
| "distinct (map fst pairs) \<Longrightarrow> string_step env st (snd (MSetNX env pairs st))"
| "string_step env st (snd (GetString env key st))"
| "string_step env st (snd (GetRange env key a b st))"
| "string_step env st (snd (StrLen env key st))"
| "string_step env st (snd (LCS env k1 k2 want st))"
| "string_step env st (snd (SetBit env key i on st))"
| "string_step env st (snd (BitField env key bops st))"
| "string_step env st (snd (BitOp env opr dst srcs st))"
| "string_step env st (snd (GetBit env key i st))"
| "string_step env st (snd (BitCount env key r st))"
| "string_step env st (snd (BitPos env key i r he st))"

inductive key_step :: "goenv \<Rightarrow> store \<Rightarrow> store \<Rightarrow> bool" for env st where
  "key_step env st (snd (Del env key st))"
| "key_step env st (snd (Exists env key st))"
| "key_step env st (snd (Type env key st))"
| "key_step env st (snd (TTL env key st))"
| "key_step env st (snd (TTLMillis env key st))"
| "key_step env st (snd (Persist env key st))"
| "key_step env st (snd (Rename env src dst st))"
| "key_step env st (snd (RenameNX env src dst st))"
| "key_step env st (snd (Copy env src dst replace st))"
| "key_step env st (snd (ExpireAtCond env key t cond st))"
| "key_step env st (snd (ExpireTimeMillis env key st))"
| "key_step env st (snd (Touch env key st))"
| "key_step env st (snd (IdleSeconds env key st))"
| "key_step env st (snd (SetIdleSeconds env key n st))"
| "key_step env st (snd (Encoding env key st))"
| "key_step env st (snd (SetFreq env key n st))"
| "key_step env st (snd (SortSource env key st))"
| "key_step env st (snd (ReplaceList env key vals st))"

inductive list_step :: "goenv \<Rightarrow> store \<Rightarrow> store \<Rightarrow> bool" for env st where
  "vals \<noteq> [] \<Longrightarrow> list_step env st (snd (listPushMaybe env key left vals req st))"
| "list_step env st (snd (listPop env key left st))"
| "list_step env st (snd (LPopCount env key n left st))"
| "list_step env st (snd (LSet env key n v st))"
| "list_step env st (snd (LInsert env key before pivot v st))"
| "list_step env st (snd (LRem env key n v st))"
| "list_step env st (snd (LTrim env key a b st))"
| "list_step env st (snd (LMove env src dst sl dl' st))"
| "list_step env st (snd (LRange env key a b st))"
| "list_step env st (snd (LLen env key st))"
| "list_step env st (snd (LIndex env key n st))"
| "list_step env st (snd (LPos env key v r c m st))"

inductive hash_step :: "goenv \<Rightarrow> store \<Rightarrow> store \<Rightarrow> bool" for env st where
  "pairs \<noteq> [] \<Longrightarrow> hash_step env st (snd (HSet env key pairs st))"
| "hash_step env st (snd (HSetNX env key f v st))"
| "hash_step env st (snd (HDel env key fs st))"
| "int64_range n \<Longrightarrow> hash_step env st (snd (HIncrBy env key f n st))"
| "hash_step env st (snd (HGet env key f st))"
| "hash_step env st (snd (HMGet env key fs st))"
| "hash_step env st (snd (HExists env key f st))"
| "hash_step env st (snd (HStrLen env key f st))"
| "hash_step env st (snd (HLen env key st))"
| "hash_step env st (snd (HKeys env key st))"
| "hash_step env st (snd (HVals env key st))"
| "hash_step env st (snd (HGetAll env key st))"
| "hash_step env st (snd (HRandField env key n wv st))"

inductive set_step :: "goenv \<Rightarrow> store \<Rightarrow> store \<Rightarrow> bool" for env st where
  "ms \<noteq> [] \<Longrightarrow> set_step env st (snd (SAdd env key ms st))"
| "set_step env st (snd (SRem env key ms st))"
| "set_step env st (snd (SPop env key n st))"
| "set_step env st (snd (SMove env src dst m st))"
| "set_step env st (snd (SMembers env key st))"
| "set_step env st (snd (SIsMember env key m st))"
| "set_step env st (snd (SMIsMember env key ms st))"
| "set_step env st (snd (SCard env key st))"
| "set_step env st (snd (SRandMember env key n st))"
| "set_step env st (snd (SCombine env opr limit ks st))"
| "set_step env st (snd (SCombineStore env opr dst ks st))"

inductive zset_step :: "goenv \<Rightarrow> store \<Rightarrow> store \<Rightarrow> bool" for env st where
  "numbers ms \<Longrightarrow> zset_step env st (snd (ZAddMulti env key opts ms st))"
| "zset_step env st (snd (ZIncrBy env key m delta opts st))"
| "zset_step env st (snd (ZRem env key m st))"
| "zset_step env st (snd (ZRemMulti env key ms st))"
| "zset_step env st (snd (ZPop env key n b st))"
| "zset_step env st (snd (zRemRange env key sel st))"
| "zset_step env st (snd (ZCombineStore env dst kind ops agg st))"
| "zset_step env st (snd (ZRangeStore env dst src zsel st))"
| "zset_step env st (snd (ZScore env key m st))"
| "zset_step env st (snd (ZMScore env key ms st))"
| "zset_step env st (snd (ZCard env key st))"
| "zset_step env st (snd (ZRank env key m st))"
| "zset_step env st (snd (ZRevRank env key m st))"
| "zset_step env st (snd (ZRange env key a b st))"
| "zset_step env st (snd (ZRevRange env key a b st))"
| "zset_step env st (snd (ZRandMember env key n st))"
| "zset_step env st (snd (ZRangeByScore env key r off n rv st))"
| "zset_step env st (snd (ZRangeByLex env key lr off n rv st))"
| "zset_step env st (snd (ZRangeByScoreMulti env key rs st))"
| "zset_step env st (snd (ZCount env key r st))"
| "zset_step env st (snd (ZLexCount env key lr st))"
| "zset_step env st (snd (ZRangeSelect env key zsel st))"

inductive stream_step :: "goenv \<Rightarrow> store \<Rightarrow> store \<Rightarrow> bool" for env st where
  "\<not> memTrack st \<or> (\<exists>x. stream_at (now env) st key = Some x \<and> (entries x \<noteq> [] \<or> added x \<noteq> 0 \<or> groups x \<noteq> [])) \<Longrightarrow> stream_step env st (snd (XAdd env key o' fs st))"
| "stream_step env st (snd (XDel env key is st))"
| "stream_step env st (snd (XTrim env key opt st))"
| "stream_step env st (snd (XSetID env key i so st))"
| "stream_step env st (snd (XLen env key st))"
| "stream_step env st (snd (XRange env key i j n b st))"
| "stream_step env st (snd (XLastID env key st))"
| "\<not> memTrack st \<or> stream_at (now env) st key \<noteq> None \<Longrightarrow> stream_step env st (snd (XGroupCreate env key grp i mk n has st))"
| "stream_step env st (snd (XGroupSetID env key grp i has n st))"
| "stream_step env st (snd (XGroupDestroy env key grp st))"
| "stream_step env st (snd (XGroupCreateConsumer env key grp c st))"
| "stream_step env st (snd (XGroupDelConsumer env key grp c st))"
| "stream_step env st (snd (XReadGroup env key grp c b i n na st))"
| "stream_step env st (snd (XAck env key grp is st))"
| "stream_step env st (snd (XClaim env key grp c is oc st))"
| "stream_step env st (snd (XAutoClaim env key grp c i m n j st))"
| "stream_step env st (snd (XPendingSummary env key grp st))"
| "stream_step env st (snd (XPendingRange env key grp i j c n m st))"
| "stream_step env st (snd (XInfoStream env key st))"
| "stream_step env st (snd (XInfoGroups env key b st))"
| "stream_step env st (snd (XInfoConsumers env key grp st))"
| "stream_step env st (snd (XInfoStreamFull env key n st))"

inductive admin_step :: "goenv \<Rightarrow> store \<Rightarrow> store \<Rightarrow> bool" for env st where
  "admin_step env st (snd (maintain env ex st))"
| "admin_step env st (FlushAll st)"
| "admin_step env st (RecomputeMemory env st)"
| "admin_step env st (TrackMemory env st)"
| "admin_step env st (snd (UsedMemory env st))"
| "admin_step env st (SetActiveExpire b st)"
| "admin_step env st (ResetKeyspaceStats st)"
| "admin_step env st (SetEncodingLimit p n st)"
| "admin_step env st (SetMaxKeys n st)"
| "admin_step env st (SetMaxMemory env n st)"
| "admin_step env st (SetEvictionPolicy pol st)"
| "admin_step env st (SetEvictionSamples n st)"
| "admin_step env st (SetLFUParams n m st)"
| "admin_step env st (snd (EvictOne env pol st))"
| "(\<And>i. fair_iter (envs i)) \<Longrightarrow> admin_step env st (snd (EvictToLimit envs st))"

inductive store_step :: "goenv \<Rightarrow> store \<Rightarrow> store \<Rightarrow> bool" for env st st' where
  "string_step env st st' \<Longrightarrow> store_step env st st'"
| "key_step env st st' \<Longrightarrow> store_step env st st'"
| "list_step env st st' \<Longrightarrow> store_step env st st'"
| "hash_step env st st' \<Longrightarrow> store_step env st st'"
| "set_step env st st' \<Longrightarrow> store_step env st st'"
| "zset_step env st st' \<Longrightarrow> store_step env st st'"
| "stream_step env st st' \<Longrightarrow> store_step env st st'"
| "admin_step env st st' \<Longrightarrow> store_step env st st'"

inductive reachable :: "store \<Rightarrow> bool" where
  init: "n \<le> 2 ^ 62 \<Longrightarrow> reachable (New n)"
| step: "reachable st \<Longrightarrow> fair_iter env \<Longrightarrow> store_step env st st' \<Longrightarrow> reachable st'"


subsection \<open>Every step keeps the invariant\<close>

lemma string_step_inv: "string_step env st st' \<Longrightarrow> store_inv st \<Longrightarrow> store_inv st'"
  by (induction rule: string_step.induct)
    (simp_all add: set.inv setdl.inv setopt.inv setnx.inv getset.inv getdel.inv getex.inv appnd.inv setrange.inv incr.inv
      msetnx.inv GetString_inv getrange.inv strlen.inv LCS_inv bit_writes_inv bitcount.inv bitpos.inv)

lemma key_step_inv: "key_step env st st' \<Longrightarrow> store_inv st \<Longrightarrow> fair_iter env \<Longrightarrow> store_inv st'"
  by (induction rule: key_step.induct)
    (simp_all add: del.inv exists.inv type.inv ttl.inv ttlms.inv persist.inv Rename_inv RenameNX_inv Copy_inv expireat.inv
      expiretime.inv touchkey.inv idle.inv SetIdleSeconds_inv encname.inv SetFreq_result(1) [OF _ prod.collapse [symmetric]]
      sortsrc.inv replist.inv)

lemma list_step_inv: "list_step env st st' \<Longrightarrow> store_inv st \<Longrightarrow> store_inv st'"
  by (induction rule: list_step.induct)
    (simp_all add: push.inv_if pop.inv popn.inv lset.inv linsert.inv lrem.inv ltrim.inv LMove_inv lrange.inv llen.inv lindex.inv lpos.inv)

lemma hash_step_inv: "hash_step env st st' \<Longrightarrow> store_inv st \<Longrightarrow> store_inv st'"
  by (induction rule: hash_step.induct)
    (simp_all add: hset.inv_if hsetnx.inv hdel.inv hincr.inv_if hget.inv hmget.inv hexists.inv hstrlen.inv hlen.inv
      HKeys_def HVals_def HGetAll_def hproj.inv hrand.inv)

lemma set_step_inv: "set_step env st st' \<Longrightarrow> store_inv st \<Longrightarrow> store_inv st'"
  by (induction rule: set_step.induct)
    (simp_all add: sadd.inv_if srem.inv spop.inv SMove_inv smembers.inv sismember.inv smismember.inv scard.inv srand.inv
      SCombine_inv SCombineStore_inv)

lemma zset_step_inv: "zset_step env st st' \<Longrightarrow> store_inv st \<Longrightarrow> fair_iter env \<Longrightarrow> store_inv st'"
  by (induction rule: zset_step.induct)
    (simp_all add: zadd.inv_if zincr.inv zrem.inv zremm.inv zpop.inv zremr.inv ZCombineStore_inv zrstore.inv zscore.inv
      zmscore.inv zcard.inv zrank.inv zrevrank.inv zrng.inv zrevrng.inv zrand.inv zscorerng.inv zlexrng.inv zmulti.inv
      zcount.inv zlexcount.inv zselect.inv)

lemma stream_step_inv: "stream_step env st st' \<Longrightarrow> store_inv st \<Longrightarrow> store_inv st'"
  by (induction rule: stream_step.induct)
    (simp_all add: XAdd_inv stream_writes_inv xlen.inv xrange.inv xlast.inv XGroupCreate_inv xgsetid.inv xgdestroy.inv xgcc.inv
      xgdel.inv xrg.inv xack.inv xclaim.inv xauto.inv xpsum.inv xprange.inv xinfo.inv xinfogroups.inv xinfocons.inv xinfofull.inv)

lemma settings_inv [simp]:
  "store_inv (SetActiveExpire b st) = store_inv st" "store_inv (ResetKeyspaceStats st) = store_inv st"
  "store_inv (SetEncodingLimit p n st) = store_inv st"
  by (rule store_inv_cong(1); simp add: SetActiveExpire_def ResetKeyspaceStats_def SetEncodingLimit_def Let_def)+

lemma admin_step_inv: "admin_step env st st' \<Longrightarrow> store_inv st \<Longrightarrow> fair_iter env \<Longrightarrow> store_inv st'"
  by (induction rule: admin_step.induct)
    (simp_all add: maintain_inv FlushAll_props(1) accounting_inv TrackMemory_inv configuration_inv EvictOne_inv EvictToLimit_inv)

lemma store_step_inv: "store_step env st st' \<Longrightarrow> store_inv st \<Longrightarrow> fair_iter env \<Longrightarrow> store_inv st'"
  by (induction rule: store_step.induct)
    (blast intro: string_step_inv key_step_inv list_step_inv hash_step_inv set_step_inv zset_step_inv stream_step_inv admin_step_inv)+

lemma reachable_inv: "reachable st \<Longrightarrow> store_inv st"
  by (induction rule: reachable.induct) (auto intro: New_inv store_step_inv)

subsection \<open>A deadline that the accounting does not see\<close>

text \<open>\<open>Expire\<close> gives a key a deadline without settling its shard, so the count of volatile keys misses it.\<close>

lemma evict_from_none:
  "(\<And>i. i \<in> set is \<Longrightarrow> pickVictim env st p n (shards st ! i) = None) \<Longrightarrow> evict_from env p n is st = ((False, []), st)"
  by (induction "is") auto

lemma no_volatile_shard:
  assumes "store_inv st" "memTrack st" "\<And>k e. get_slot st k = Some e \<Longrightarrow> expireAt e = None" "i < length (shards st)"
  shows "svolatile (shards st ! i) = 0"
proof -
  have "entryVolatile k e = 0" if "(k, e) \<in> set (sdata (shards st ! i))" for k e
    using shard_slot [OF store_invD(1) [OF assms(1)] nth_mem [OF assms(4)] that] assms(3) by (simp add: entryVolatile_def)
  then have "gsum entryVolatile (sdata (shards st ! i)) = gsum (\<lambda>k e. 0) (sdata (shards st ! i))" by (intro gsum_cong)
  also have "\<dots> = 0" by (induction "sdata (shards st ! i)") (simp_all add: gsum_def split_def)
  finally show ?thesis using store_invD(2) [OF assms(1)] assms(2,4) by (simp add: mem_inv_def)
qed

lemma Expire_result:
  assumes "store_inv st" "liveEntry st key (now env) = Some e"
  shows "fst (Expire env key ttl st)" "store_ok (snd (Expire env key ttl st))"
    "get_slot (snd (Expire env key ttl st)) key = Some (e\<lparr>expireAt := Some (now env + ttl)\<rparr>)"
proof -
  note w = store_invD(1) [OF assms(1)]
  have "map smem (shards (put_slot key v st)) = map smem (shards st)" for v
    by (rule nth_equalityI) (simp_all add: shards_put_slot [OF w])
  moreover have "entry_ok (e\<lparr>expireAt := t\<rparr>) = entry_ok e" for t by (cases "val e") (simp_all add: entry_ok_def)
  ultimately show "fst (Expire env key ttl st)" "store_ok (snd (Expire env key ttl st))"
    "get_slot (snd (Expire env key ttl st)) key = Some (e\<lparr>expireAt := Some (now env + ttl)\<rparr>)"
    using assms liveEntry_Some [OF assms(2)] store_inv_ok [OF assms(1)] live_ok [OF assms]
    by (simp_all add: Expire_def w get_put_slot store_ok_def totals_ok_def put_slot_wf)
qed

lemma Expire_hidden:
  assumes "store_inv st" "memTrack st" "\<And>k e. get_slot st k = Some e \<Longrightarrow> expireAt e = None" "volatileOnly p"
  shows "EvictOne env p (snd (Expire env' key ttl st)) = ((False, []), snd (Expire env' key ttl st))"
proof -
  let ?st = "snd (Expire env' key ttl st)"
  note w = store_invD(1) [OF assms(1)]
  have s: "svolatile (shards ?st ! i) = 0" if "i < length (shards st)" for i
    using no_volatile_shard [OF assms(1,2) _ that] assms(2,3)
    by (auto simp: Expire_def shards_put_slot [OF w] split: option.split)
  have t: "memTrack ?st" "length (shards ?st) = length (shards st)"
    using assms(2) by (simp_all add: Expire_def split: option.split)
  have "length (shards st) > 0" using shardIndex_bound [OF w, of key] by linarith
  then have "pickVictim env ?st p n (shards ?st ! (i mod length (shards st))) = None" for n i
    using s t(1) assms(4) by (simp add: pickVictim_def)
  then show ?thesis unfolding EvictOne_def Let_def t(2) by (auto intro!: evict_from_none)
qed

end
