(* ===== verification/Spec2Isabelle.thy ===== *)
theory Spec2Isabelle
  imports Lfu History
begin

text \<open>
  A verification library of shardkv, a sharded in-memory key-value server.
\<close>

text \<open>Concrete inputs that the instances below share: a store of four shards, one with two strings, an
  unconditional append to a stream, and a store with one stream entry.\<close>

definition store4 :: store where
  "store4 = New 4"

definition store4_strings :: store where
  "store4_strings = snd (Set (env0 0) ''b'' ''7'' 0 (snd (Set (env0 0) ''a'' ''x'' 0 store4)))"

definition add_auto :: XAddOptions where
  "add_auto = \<lparr>addID = zeroStreamID, Auto = True, AutoSeq = False, NoMkStream = False, Trim = TrimNone\<rparr>"

definition store4_stream :: store where
  "store4_stream = snd (XAdd (env0 1000000) ''s'' add_auto [copyBytes ''f'', copyBytes ''v''] store4)"

lemma store4_props [simp]:
  "store_inv store4" "get_slot store4 k = None" "liveEntry store4 k t = None" "store_wf store4" "memTrack store4 = False"
  "store_inv store4_strings" "store_ok store4"
  by (simp_all add: store4_def store4_strings_def New_inv set.inv liveEntry_def store_inv_ok)

lemma store4_stream_inv: "store_inv store4_stream"
  unfolding store4_stream_def by (rule XAdd_inv) simp_all

lemma holds_live:
  "holds st k v None \<Longrightarrow> \<exists>e s. liveEntry st k t = Some e \<and> val e = VString s \<and> sbytes s = v \<and> expireAt e = None"
  by (auto simp: holds_def liveEntry_def liveSlot_def expired_def)

lemma store4_strings_holds: "holds store4_strings ''a'' ''x'' None" "holds store4_strings ''b'' ''7'' None"
proof -
  let ?st = "snd (Set (env0 0) ''a'' ''x'' 0 store4)"
  have i: "store_inv ?st" by (simp add: set.inv)
  show "holds store4_strings ''b'' ''7'' None" using Set_holds [OF i, of "env0 0" "''b''" "''7''" 0] by (simp add: store4_strings_def)
  have "get_slot store4_strings ''a'' = get_slot ?st ''a''"
    unfolding store4_strings_def by (rule set.frame [OF store_invD(1) [OF i]]) simp
  then show "holds store4_strings ''a'' ''x'' None"
    using Set_holds [of store4 "env0 0" "''a''" "''x''" 0] by (simp add: holds_def)
qed

section \<open>Histories\<close>



text \<open>C5: The maintenance pass restores the accounting. From any well-formed keyspace whose byte counts may
  have drifted (stream writes and \<open>Expire\<close> do not settle), one pass reinstates the whole invariant, and
  if the accounting runs the counted total then equals the total measured from the values.\<close>

theorem maintenance_restores:
  assumes "store_ok st" "fair_iter env"
  shows "store_inv (snd (maintain env ex st)) \<and>
    (memTrack st \<longrightarrow> mem (snd (maintain env ex st)) = exactMemory (snd (maintain env ex st)))"
  using store_ok_heals [OF assms] maintain_exact [of st env ex] assms by (simp add: store_ok_def)

theorem maintenance_restores_witness:
  "store_inv (snd (maintain (env0 0) True (snd (XAdd (env0 1000000) ''s'' add_auto [copyBytes ''f'', copyBytes ''v''] (TrackMemory (env0 0) store4)))))"
  using maintenance_restores [of "snd (XAdd (env0 1000000) ''s'' add_auto [copyBytes ''f'', copyBytes ''v''] (TrackMemory (env0 0) store4))" "env0 0" True]
  by (simp add: xadd.ok store_inv_ok TrackMemory_inv)

section \<open>Iteration, expiry and eviction\<close>

text \<open>C6: A full scan misses no key that stays. If a key is live throughout, then calling \<open>Scan\<close> from cursor
  0 and following the cursor returns the key and reaches cursor 0 again after at most as many calls as there
  are shards, whatever else is written between the calls.\<close>

theorem scan_returns_every_key:
  assumes "\<And>i. fair_iter (fst (sts i)) \<and> store_wf (snd (sts i)) \<and> length (shards (snd (sts i))) = N \<and>
      shardIndex (snd (sts i)) k = j \<and> liveEntry (snd (sts i)) k (now (fst (sts i))) \<noteq> None"
    and "0 < N" "N < 2 ^ 63"
  shows "k \<in> set (fst (scan_run N sts cnt 0)) \<and> snd (scan_run N sts cnt 0) = 0"
  using scan_run_complete [of sts N k j 0 0 N cnt] assms by simp

theorem scan_returns_every_key_witness:
  "''a'' \<in> set (fst (scan_run 4 (\<lambda>i. (env0 (int i), store4_strings)) 1 0))"
proof -
  have "liveEntry store4_strings ''a'' t \<noteq> None" for t using holds_live [OF store4_strings_holds(1), of t] by auto
  moreover have "length (shards store4_strings) = 4" by code_simp
  ultimately show ?thesis
    using scan_returns_every_key [of "\<lambda>i. (env0 (int i), store4_strings)" 4 "''a''" "shardIndex store4_strings ''a''" 1]
    by (simp add: store_invD)
qed

text \<open>C7: Eviction takes one candidate of the policy and nothing else, and a refusal is evidence: it leaves
  the store alone, and then no key in it is a candidate (provided every candidate ranks below the largest
  integer, the value the search starts from).\<close>

theorem evict_one:
  assumes "store_inv st" "fair_iter env" "EvictOne env p st = ((ok, ev), st')"
  shows "store_inv st' \<and>
    (ok \<longrightarrow> (\<exists>k e. ev = [(k, True)] \<and> get_slot st k = Some e \<and> candidate p e \<and> get_slot st' k = None \<and>
       (\<forall>k'. k' \<noteq> k \<longrightarrow> get_slot st' k' = get_slot st k'))) \<and>
    (\<not> ok \<longrightarrow> ev = [] \<and> st' = st \<and>
       (Evicts p \<longrightarrow> rankable st p (now env) \<longrightarrow> (\<forall>k e. get_slot st k = Some e \<longrightarrow> \<not> candidate p e)))"
proof (intro conjI)
  note R = EvictOne_result [OF assms]
  show "store_inv st'" using EvictOne_inv [OF assms(1,2), of p] assms(3) by simp
  show "ok \<longrightarrow> (\<exists>k e. ev = [(k, True)] \<and> get_slot st k = Some e \<and> candidate p e \<and> get_slot st' k = None \<and>
       (\<forall>k'. k' \<noteq> k \<longrightarrow> get_slot st' k' = get_slot st k'))"
  proof
    assume ok
    then obtain k where "ev = [(k, True)]" "evicts_key p k st st'" using R(1) by blast
    moreover from this obtain e where "get_slot st k = Some e" "candidate p e" by (auto simp: evicts_key_def)
    ultimately show "\<exists>k e. ev = [(k, True)] \<and> get_slot st k = Some e \<and> candidate p e \<and> get_slot st' k = None \<and>
       (\<forall>k'. k' \<noteq> k \<longrightarrow> get_slot st' k' = get_slot st k')"
      using evicts_key_props(2,3) [OF _ assms(1)] by blast
  qed
  show "\<not> ok \<longrightarrow> ev = [] \<and> st' = st \<and>
       (Evicts p \<longrightarrow> rankable st p (now env) \<longrightarrow> (\<forall>k e. get_slot st k = Some e \<longrightarrow> \<not> candidate p e))"
    using R(2,3) by blast
qed

theorem evict_one_witness:
  "\<not> fst (fst (EvictOne (env0 0) PolicyVolatileLFU store4_strings)) \<and>
   \<not> candidate PolicyVolatileLFU (the (get_slot store4_strings ''a''))"
proof -
  have "\<not> fst (fst (EvictOne (env0 0) PolicyVolatileLFU store4_strings))" by code_simp
  moreover obtain ok ev st' where e: "EvictOne (env0 0) PolicyVolatileLFU store4_strings = ((ok, ev), st')" by (metis surj_pair)
  moreover have "get_slot store4_strings ''a'' \<noteq> None" using store4_strings_holds(1) by (auto simp: holds_def)
  ultimately show ?thesis using evict_one [OF _ _ e] rankable_LFU [of PolicyVolatileLFU] by (auto simp: Evicts_def)
qed

text \<open>C8: The key cap. After \<open>EvictToLimit\<close> with a positive limit, either at most that many keys are left or no
  remaining key may be evicted under the policy in force; the number of keys dropped is the number of events,
  and it never evicts below the limit.\<close>

theorem key_cap:
  assumes "store_inv st" "\<And>i. fair_iter (envs i)" "0 < maxKeys st"
    and "p = (if Evicts (policy st) then policy st else PolicyAllKeysLRU)"
    and "\<And>i. rankable st p (now (envs i))" "EvictToLimit envs st = (ev, st')"
  shows "store_inv st' \<and> approxLen st' = approxLen st - int (length ev) \<and>
    (approxLen st' \<le> maxKeys st \<or> (\<forall>k e. get_slot st' k = Some e \<longrightarrow> \<not> candidate p e)) \<and>
    (maxKeys st \<le> approxLen st' \<or> st' = st)"
  using EvictToLimit_bound [OF assms] by blast

theorem key_cap_witness:
  "approxLen (snd (EvictToLimit (\<lambda>i. env0 0) (SetMaxKeys 1 (SetEvictionPolicy PolicyAllKeysLFU store4_strings)))) = 1"
proof -
  let ?st = "SetMaxKeys 1 (SetEvictionPolicy PolicyAllKeysLFU store4_strings)"
  have l: "length (fst (EvictToLimit (\<lambda>i. env0 0) ?st)) = 1" "approxLen ?st = 2" "maxKeys ?st = 1"
    "policy ?st = PolicyAllKeysLFU"
    by code_simp+
  have "approxLen (snd (EvictToLimit (\<lambda>i. env0 0) ?st)) = approxLen ?st - int (length (fst (EvictToLimit (\<lambda>i. env0 0) ?st)))"
    using key_cap [of ?st "\<lambda>i. env0 0" PolicyAllKeysLFU, OF _ _ _ _ _ prod.collapse [symmetric]] l
    by (simp add: configuration_inv rankable_LFU Evicts_def)
  then show ?thesis using l by simp
qed



section \<open>Strings and keys\<close>

text \<open>C16: A conditional \<open>SET\<close> takes effect exactly when its condition allows it: with \<open>GET\<close> on a value that is
  not a string it fails and changes nothing; when \<open>NX\<close> and \<open>XX\<close> allow it the key holds the value with the
  deadline the options select (a new one, the kept one or none); otherwise the key is left alone.\<close>

theorem set_with_options:
  assumes "store_inv st" "live = liveEntry st key (now env)" "SetWithOptions env key v opts st = (r, st')"
  shows "if oGet opts \<and> (\<exists>e. live = Some e \<and> kind_of (val e) \<noteq> kindString)
    then r = Inl ErrWrongType \<and> get_slot st' key = get_slot st key
    else if (NX opts \<longrightarrow> live = None) \<and> (XX opts \<longrightarrow> live \<noteq> None)
    then (\<exists>old. r = Inr (old, True)) \<and>
      holds st' key v (if HasDeadline opts then Deadline opts else if KeepTTL opts then Option.bind live expireAt else None)
    else (\<exists>old. r = Inr (old, False)) \<and> get_slot st' key = get_slot st key"
proof (cases "oGet opts \<and> (\<exists>e. live = Some e \<and> kind_of (val e) \<noteq> kindString)")
  case True
  then obtain e where "oGet opts" "live = Some e" "kind_of (val e) \<noteq> kindString" by blast
  from SetWithOptions_result(1) [OF assms(1) assms(2) [symmetric] this, of v]
  show ?thesis unfolding if_P [OF True] by (simp add: assms(3))
next
  case no_get: False
  then have k: "\<And>x. oGet opts \<Longrightarrow> live = Some x \<Longrightarrow> kind_of (val x) = kindString" by blast
  note R = SetWithOptions_result(2,3) [where opts = opts and v = v, OF assms(1) assms(2) [symmetric]]
  show ?thesis
  proof (cases "(NX opts \<longrightarrow> live = None) \<and> (XX opts \<longrightarrow> live \<noteq> None)")
    case True
    then have "NX opts \<longrightarrow> live = None" "XX opts \<longrightarrow> live \<noteq> None" by blast+
    from R(1) [OF k this] show ?thesis unfolding if_not_P [OF no_get] if_P [OF True] by (simp add: assms(3))
  next
    case False
    then have "NX opts \<and> live \<noteq> None \<or> XX opts \<and> live = None" by auto
    from R(2) [OF k this] show ?thesis unfolding if_not_P [OF no_get] if_not_P [OF False] by (simp add: assms(3))
  qed
qed

theorem set_with_options_witness:
  "holds (snd (SetWithOptions (env0 0) ''k'' ''v''
     \<lparr>NX = True, XX = False, oGet = False, KeepTTL = False, HasDeadline = True, Deadline = Some 9\<rparr> store4)) ''k'' ''v'' (Some 9)"
  using set_with_options [of store4 None "''k''" "env0 0" "''v''"
      "\<lparr>NX = True, XX = False, oGet = False, KeepTTL = False, HasDeadline = True, Deadline = Some 9\<rparr>",
      OF _ _ prod.collapse [symmetric]] by simp

text \<open>C17: \<open>INCRBY\<close> adds without ever wrapping. On a string that is a 64-bit integer, or a missing key read as 0,
  it stores and returns the exact sum and keeps the deadline when the sum is a 64-bit integer; otherwise it
  reports overflow and changes nothing.\<close>

theorem incr_exact_or_overflow:
  assumes "store_inv st" "live = liveEntry st key (now env)"
    and "live = None \<and> n = 0 \<or> (\<exists>e s. live = Some e \<and> val e = VString s \<and> ParseInt (sbytes s) = Some n)"
    and "int64_range n" "int64_range delta"
  shows "if int64_range (n + delta)
    then fst (Incr env key delta st) = Inr (n + delta) \<and>
      holds (snd (Incr env key delta st)) key (FormatInt (n + delta)) (Option.bind live expireAt)
    else fst (Incr env key delta st) = Inl ErrOverflow \<and> get_slot (snd (Incr env key delta st)) key = get_slot st key"
  using Incr_result [OF assms(1) assms(2) [symmetric] assms(3-5)] by simp

theorem incr_exact_or_overflow_witness:
  "fst (Incr (env0 0) ''b'' 9223372036854775807 store4_strings) = Inl ErrOverflow"
proof -
  obtain e s where "liveEntry store4_strings ''b'' (now (env0 0)) = Some e" "val e = VString s" "sbytes s = ''7''"
    using holds_live [OF store4_strings_holds(2)] by blast
  moreover have "ParseInt ''7'' = Some 7" by code_simp
  ultimately show ?thesis
    using incr_exact_or_overflow [of store4_strings _ "''b''" "env0 0" 7 9223372036854775807] by (simp add: int64_range_def)
qed



text \<open>C19: \<open>RENAME\<close> moves the entry: it succeeds exactly when the source is live; then the destination has the
  source's entry, deadline included, and the source is gone; on failure nothing changes. \<open>RENAMENX\<close> does the
  same and refuses a live destination.\<close>

theorem rename_moves_entry:
  assumes "store_inv st" "src \<noteq> dst"
  shows "(fst (Rename env src dst st) \<longleftrightarrow> liveEntry st src (now env) \<noteq> None) \<and>
    (if fst (Rename env src dst st)
     then get_slot (snd (Rename env src dst st)) dst = get_slot st src \<and> get_slot (snd (Rename env src dst st)) src = None
     else \<forall>k. get_slot (snd (Rename env src dst st)) k = get_slot st k) \<and>
    (fst (fst (RenameNX env src dst st)) \<longleftrightarrow> liveEntry st src (now env) \<noteq> None \<and> liveEntry st dst (now env) = None) \<and>
    (\<forall>k. get_slot (snd (RenameNX env src dst st)) k =
       (if \<not> fst (fst (RenameNX env src dst st)) then get_slot st k
        else if k = dst then get_slot st src else if k = src then None else get_slot st k))"
  using Rename_moves [OF assms, of env] RenameNX_view [OF assms(1), of env src dst] assms(2) by auto

theorem rename_moves_entry_witness:
  "fst (Rename (env0 0) ''a'' ''c'' store4_strings) \<and> holds (snd (Rename (env0 0) ''a'' ''c'' store4_strings)) ''c'' ''x'' None"
  using rename_moves_entry [of store4_strings "''a''" "''c''" "env0 0"] store4_strings_holds(1)
    holds_live [OF store4_strings_holds(1), of "now (env0 0)"]
  by (auto simp: holds_def)

text \<open>C20: \<open>EXPIREAT\<close> with a condition sets the deadline exactly when the key is live and the condition holds
  between the old and the new deadline, and changes nothing else of the entry.\<close>

theorem expire_at_condition:
  assumes "store_inv st" "ExpireAtCond env key deadline cond st = (ok, st')"
  shows "(ok \<longleftrightarrow> (\<exists>e. liveEntry st key (now env) = Some e \<and> deadline_allowed cond (expireAt e) deadline)) \<and>
    get_slot st' key = (if ok then map_option (\<lambda>e. e\<lparr>expireAt := Some deadline\<rparr>) (get_slot st key) else get_slot st key)"
  using ExpireAtCond_result [OF assms(1), of env key deadline cond] assms(2) by simp

theorem expire_at_condition_witness:
  "holds (snd (ExpireAtCond (env0 0) ''a'' 9 ExpireAlways store4_strings)) ''a'' ''x'' (Some 9)"
proof -
  obtain e s where e: "liveEntry store4_strings ''a'' (now (env0 0)) = Some e" "val e = VString s" "sbytes s = ''x''"
    using holds_live [OF store4_strings_holds(1)] by blast
  have "fst (ExpireAtCond (env0 0) ''a'' 9 ExpireAlways store4_strings)" by code_simp
  then show ?thesis
    using expire_at_condition [of store4_strings "env0 0" "''a''" 9 ExpireAlways, OF _ prod.collapse [symmetric]]
      e liveEntry_Some [OF e(1)] by (auto simp: holds_def)
qed

text \<open>C21: Moving or copying a key between two databases succeeds exactly when the source is live and the
  destination is free or may be replaced; the destination then has an equal value with the same deadline, the
  source keeps its entry only for a copy, no other key of either database changes, both keep their
  invariants, and a refusal changes nothing.\<close>

theorem transfer_key:
  assumes "store_inv src" "store_inv dst" "fair_iter env" "TransferKey env key remove replace src dst = (r, src', dst')"
  shows "store_inv src' \<and> store_inv dst' \<and>
    (r \<longleftrightarrow> liveEntry src key (now env) \<noteq> None \<and> (replace \<or> liveEntry dst key (now env) = None)) \<and>
    (if r
     then (\<exists>e e'. get_slot src key = Some e \<and> get_slot dst' key = Some e' \<and> val_eq (val e) (val e') \<and> expireAt e' = expireAt e) \<and>
       get_slot src' key = (if remove then None else get_slot src key) \<and>
       (\<forall>k. k \<noteq> key \<longrightarrow> get_slot src' k = get_slot src k \<and> get_slot dst' k = get_slot dst k)
     else src' = src \<and> dst' = dst)"
proof (cases r)
  case True
  note V = TransferKey_view [OF assms]
  show ?thesis using TransferKey_inv [OF assms] V(1,5) V(3,4) [OF True] True by simp
next
  case False
  show ?thesis unfolding if_not_P [OF False] using TransferKey_inv [OF assms] TransferKey_view(1) [OF assms]
      TransferKey_view(2) [OF assms False] by (intro conjI) simp_all
qed

theorem transfer_key_witness:
  "fst (TransferKey (env0 0) ''a'' True False store4_strings store4) \<and>
   get_slot (fst (snd (TransferKey (env0 0) ''a'' True False store4_strings store4))) ''a'' = None"
proof -
  obtain r src' dst' where t: "TransferKey (env0 0) ''a'' True False store4_strings store4 = (r, src', dst')" by (metis surj_pair)
  show ?thesis using transfer_key [OF _ _ _ t] holds_live [OF store4_strings_holds(1), of "now (env0 0)"] by (auto simp: t)
qed

section \<open>Lists, hashes and sets\<close>

text \<open>C9: A list key behaves as a list of byte strings: pushing, popping at either end, ranges, trimming and
  the length refine the list operations, for the empty list of a missing key too.\<close>

theorem list_refinement:
  assumes "store_inv st" "list_view st key (now env) = Some xs"
  shows "fst (RPush env key vals st) = Inr (int (length xs + length vals)) \<and>
    list_view (snd (RPush env key vals st)) key (now env) = Some (xs @ vals) \<and>
    list_view (snd (LPush env key vals st)) key (now env) = Some (rev vals @ xs) \<and>
    fst (LPop env key st) = Inr (if xs = [] then None else Some (hd xs)) \<and>
    list_view (snd (LPop env key st)) key (now env) = Some (tl xs) \<and>
    fst (RPop env key st) = Inr (if xs = [] then None else Some (last xs)) \<and>
    list_view (snd (RPop env key st)) key (now env) = Some (butlast xs) \<and>
    fst (LRange env key a b st) = Inr (slice_of (normalizeRange (int (length xs)) a b) xs) \<and>
    list_view (snd (LTrim env key a b st)) key (now env) = Some (slice_of (normalizeRange (int (length xs)) a b) xs) \<and>
    fst (LLen env key st) = Inr (int (length xs))"
  using push_view(1) [OF assms, where vals = vals and req = False]
    pop_view [OF assms] list_edit_views [OF assms]
  by (simp add: RPush_def LPush_def listPush_def LPop_def RPop_def)

theorem list_refinement_witness:
  "list_view (snd (RPush (env0 0) ''l'' [''a'', ''b''] store4)) ''l'' (now (env0 0)) = Some [''a'', ''b'']"
  using list_refinement [of store4 "env0 0" "''l''" "[]" "[''a'', ''b'']"] by simp

text \<open>C23: \<open>LMOVE\<close> takes the element from the chosen end of the source and puts it at the chosen end of the
  destination, also when both are the same list; it fails without change on a type error and reports nothing
  to move on an empty source.\<close>

theorem lmove_moves:
  assumes "store_inv st" "list_view st src (now env) = Some xs" "xs \<noteq> []" "list_view st dst (now env) = Some ys"
    and "LMove env src dst sl dl' st = (r, st')"
    and "v = (if sl then hd xs else last xs)" "xs' = (if sl then tl xs else butlast xs)" "zs = (if src = dst then xs' else ys)"
  shows "store_inv st' \<and> r = Inr (Some v) \<and>
    (src \<noteq> dst \<longrightarrow> list_view st' src (now env) = Some xs') \<and>
    list_view st' dst (now env) = Some (if dl' then v # zs else zs @ [v])"
  using LMove_view [OF assms(1-4), of sl dl'] LMove_inv [OF assms(1), of env src dst sl dl'] assms(5-8) by (simp add: Let_def)

theorem lmove_moves_witness:
  "list_view (snd (LMove (env0 0) ''l'' ''l'' True False (snd (RPush (env0 0) ''l'' [''a'', ''b''] store4)))) ''l'' (now (env0 0)) =
     Some [''b'', ''a'']"
proof -
  let ?st = "snd (RPush (env0 0) ''l'' [''a'', ''b''] store4)"
  have l: "list_view ?st ''l'' (now (env0 0)) = Some [''a'', ''b'']"
    using push_view(1) [where st = store4 and env = "env0 0" and key = "''l''" and xs = "[]" and vals = "[''a'', ''b'']" and req = False and left = False] by (simp add: RPush_def listPush_def)
  have i: "store_inv ?st" by (simp add: RPush_def listPush_def push.inv_if)
  show ?thesis using lmove_moves [OF i l _ l prod.collapse [symmetric], where sl = True and dl' = False] by simp
qed

text \<open>C10: A hash key behaves as a finite map from fields to values: \<open>HSET\<close> updates it from left to right and
  counts the new fields, \<open>HDEL\<close> restricts it and counts the removed ones, and the reads look up.\<close>

theorem hash_refinement:
  assumes "store_inv st" "hash_view st key (now env) = Some m"
  shows "fst (HSet env key pairs st) = Inr (int (card (fst ` set pairs - dom m))) \<and>
    hash_view (snd (HSet env key pairs st)) key (now env) = Some (m ++ map_of (rev pairs)) \<and>
    fst (HDel env key fs st) = Inr (int (card (set fs \<inter> dom m))) \<and>
    hash_view (snd (HDel env key fs st)) key (now env) = Some (m |` (- set fs)) \<and>
    fst (HGet env key f st) = Inr (m f) \<and> fst (HMGet env key fs st) = Inr (map m fs)"
  using HSet_view [OF assms] HDel_view [OF assms] HGet_view [OF assms(2)] by simp

theorem hash_refinement_witness:
  "hash_view (snd (HSet (env0 0) ''h'' [(''f'', ''1''), (''g'', ''2''), (''f'', ''3'')] store4)) ''h'' (now (env0 0)) =
     Some [''g'' \<mapsto> ''2'', ''f'' \<mapsto> ''3'']"
  using hash_refinement [of store4 "env0 0" "''h''" Map.empty "[(''f'', ''1''), (''g'', ''2''), (''f'', ''3'')]"] by simp

text \<open>C11: A set key behaves as a finite set: \<open>SADD\<close> and \<open>SREM\<close> add and remove and count what changed, and
  \<open>SMOVE\<close> between two keys moves a member exactly when the source has it.\<close>

theorem set_refinement:
  assumes "store_inv st" "set_view st key (now env) = Some A" "set_view st dst (now env) = Some B" "key \<noteq> dst"
  shows "fst (SAdd env key ms st) = Inr (int (card (set ms - A))) \<and>
    set_view (snd (SAdd env key ms st)) key (now env) = Some (A \<union> set ms) \<and>
    fst (SRem env key ms st) = Inr (int (card (set ms \<inter> A))) \<and>
    set_view (snd (SRem env key ms st)) key (now env) = Some (A - set ms) \<and>
    fst (SMove env key dst m st) = Inr (m \<in> A) \<and>
    (if m \<in> A
     then set_view (snd (SMove env key dst m st)) key (now env) = Some (A - {m}) \<and>
       set_view (snd (SMove env key dst m st)) dst (now env) = Some (insert m B)
     else \<forall>k. get_slot (snd (SMove env key dst m st)) k = get_slot st k)"
  using SAdd_view [OF assms(1,2), of ms] SRem_view [OF assms(1,2), of ms] SMove_view [OF assms, of m] by simp

theorem set_refinement_witness:
  "set_view (snd (SAdd (env0 0) ''s'' [''x'', ''y''] store4)) ''s'' (now (env0 0)) = Some {''x'', ''y''}"
  using set_refinement [of store4 "env0 0" "''s''" "{}" "''t''" "{}" "[''x'', ''y'']"] by simp

text \<open>C12: Storing a set combination computes the intersection, union or difference of the operands as they
  were, into the destination, which may be one of them; it reports the cardinality and leaves the value of
  every other key as it was.\<close>

theorem set_combination_stored:
  assumes "store_inv st" "fair_iter env" "ks \<noteq> []" "list_all2 (\<lambda>k A. set_view st k (now env) = Some A) ks As"
  shows "set_view (snd (SCombineStore env opr dst ks st)) dst (now env) = Some (set_combination opr As) \<and>
    (\<exists>changed. fst (SCombineStore env opr dst ks st) = Inr (int (card (set_combination opr As)), changed)) \<and>
    (\<forall>k. k \<noteq> dst \<longrightarrow> rel_option same_value (get_slot st k) (get_slot (snd (SCombineStore env opr dst ks st)) k))"
  using SCombineStore_view [OF assms] by blast

theorem set_combination_stored_witness:
  "set_view (snd (SCombineStore (env0 0) SetDiff ''s'' [''s'', ''t''] (snd (SAdd (env0 0) ''s'' [''x'', ''y''] store4)))) ''s'' (now (env0 0)) =
     Some {''x'', ''y''}"
proof -
  let ?st = "snd (SAdd (env0 0) ''s'' [''x'', ''y''] store4)"
  have s: "set_view ?st ''s'' (now (env0 0)) = Some {''x'', ''y''}"
    using SAdd_view(2) [of store4 "env0 0" "''s''" "{}" "[''x'', ''y'']"] by simp
  have t: "set_view ?st ''t'' (now (env0 0)) = Some {}" using sadd.frame [of store4 "''t''" "''s''"] by simp
  have i: "store_inv ?st" by (simp add: sadd.inv_if)
  show ?thesis
    using set_combination_stored [OF i, of "env0 0" "[''s'', ''t'']" "[{''x'', ''y''}, {}]" SetDiff "''s''"] s t
    by (simp add: set_combination_def)
qed



section \<open>Sorted sets\<close>



text \<open>C14: Reads and removals of a sorted set are those of its sorted list: ranges by rank in both directions,
  ranges and counts by score, the score of a member, popping from either end and removing members.\<close>

theorem zset_operations:
  assumes "store_inv st" "zset_view st key (now env) = Some xs"
  shows "fst (ZRange env key a b st) = Inr (slice_of (normalizeRange (int (length xs)) a b) xs) \<and>
    fst (ZRevRange env key a b st) = Inr (slice_of (normalizeRange (int (length xs)) a b) (rev xs)) \<and>
    fst (ZCount env key r st) = Inr (int (length (filter (in_score r) xs))) \<and>
    fst (ZRangeByScore env key r 0 n rv st) =
      Inr (limit_members 0 n (if rv then rev (filter (in_score r) xs) else filter (in_score r) xs)) \<and>
    fst (ZScore env key m st) = Inr (map_of xs m) \<and>
    fst (ZPop env key n fromMin st) = Inr (take (nat n) (if fromMin then xs else rev xs)) \<and>
    zset_view (snd (ZPop env key n fromMin st)) key (now env) = Some (if fromMin then drop (nat n) xs else take (length xs - nat n) xs) \<and>
    fst (ZRemMulti env key ms st) = Inr (int (card (set ms \<inter> fst ` set xs))) \<and>
    zset_view (snd (ZRemMulti env key ms st)) key (now env) = Some (filter (\<lambda>it. fst it \<notin> set ms) xs)"
  using zset_reads_view(1) [OF assms, of a b] zset_reads_view(2) [OF assms, of a b] zset_reads_view(3) [OF assms, of r]
    zset_reads_view(4) [OF assms, of 0 r n rv] zset_reads_view(5) [OF assms, of m]
    ZPop_view [OF assms, of n fromMin] ZRem_view(1,2) [OF assms, of ms]
  by (intro conjI) simp_all

theorem zset_operations_witness:
  "fst (ZPop (env0 0) ''z'' 1 True (snd (ZAddMulti (env0 0) ''z'' noZAddOptions [(''m'', F64 0)] store4))) = Inr [(''m'', F64 0)]"
proof -
  let ?st = "snd (ZAddMulti (env0 0) ''z'' noZAddOptions [(''m'', F64 0)] store4)"
  have i: "store_inv ?st" by (simp add: zadd.inv_if numbers_def)
  obtain ys where y: "zset_view ?st ''z'' (now (env0 0)) = Some ys" "map_of ys = [''m'' \<mapsto> F64 0]"
    using ZAddMulti_view [of store4 "env0 0" "''z''" "[]" "[(''m'', F64 0)]" noZAddOptions]
    by (auto simp: numbers_def zadd_step_def noZAddOptions_def allows_def gateScore_def)
  have "length ys = card (dom (map_of ys))"
    using zset_view_sorted(2) [OF i y(1)] by (metis distinct_card dom_map_of_conv_image_fst length_map list.set_map)
  then have "length ys = 1" using y(2) by simp
  then have "ys = [(''m'', F64 0)]" using y(2) by (cases ys) (auto simp: fun_eq_iff split: if_splits)
  then show ?thesis using zset_operations [OF i y(1), of _ _ _ 1 _ _ True] by simp
qed



section \<open>The sorted-set index\<close>

text \<open>C2: Inserting into the skip list keeps the pointer, span and order invariant and puts the item at
  its place in (score, member) order, when the score is a number and the item is not there yet.\<close>

theorem skiplist_insert_sorted:
  assumes "sl_wf sl" "\<not> IsNaN s" "(f64_key s, m) \<notin> item_key ` set (sl_items sl)"
  shows "sl_wf (insert_sl m s sl) \<and> sl_items (insert_sl m s sl) = insort_key item_key (m, s) (sl_items sl)"
  using insert_items [OF assms] by simp

theorem skiplist_insert_sorted_witness:
  "sl_items (insert_sl ''a'' (F64 0) (newSkipList (\<lambda>_. True))) = [(''a'', F64 0)]"
  using skiplist_insert_sorted [of "newSkipList (\<lambda>_. True)" "F64 0" "''a''"]
  by (simp add: newSkipList_wf IsNaN_def f64_mag_def f64_inf_mag_def)

text \<open>C3: Deleting from the skip list removes exactly the node that has the score and the member, reports
  whether there was one, and keeps the invariant.\<close>

theorem skiplist_delete_exact:
  assumes "sl_wf sl" "\<not> IsNaN s"
  shows "sl_wf (fst (delete_sl m s sl)) \<and>
    sl_items (fst (delete_sl m s sl)) = filter (\<lambda>it. item_key it \<noteq> (f64_key s, m)) (sl_items sl) \<and>
    (snd (delete_sl m s sl) \<longleftrightarrow> (f64_key s, m) \<in> item_key ` set (sl_items sl))"
  using delete_items [OF assms] by simp

lemma zero_not_NaN [simp]: "\<not> IsNaN (F64 0)"
  by (simp add: IsNaN_def f64_mag_def f64_inf_mag_def)

theorem skiplist_delete_exact_witness:
  "sl_items (fst (delete_sl ''a'' (F64 0) (insert_sl ''a'' (F64 0) (newSkipList (\<lambda>_. True))))) = []"
  using skiplist_delete_exact [of "insert_sl ''a'' (F64 0) (newSkipList (\<lambda>_. True))" "F64 0" "''a''"]
    insert_items [of "newSkipList (\<lambda>_. True)" "F64 0" "''a''"]
  by (simp add: newSkipList_wf item_key_def)

text \<open>C4: The rank that the span-counting search computes for a member of a sorted set is its position
  in the sorted list of the set's dict.\<close>

theorem zset_rank_position:
  assumes "zset_ok z" "map_of (zdict z) m = Some s"
  shows "0 \<le> rank_sl m s (zsl z) \<and> rank_sl m s (zsl z) < int (length (zdict z)) \<and>
    sort_key item_key (zdict z) ! nat (rank_sl m s (zsl z)) = (m, s)"
  using zset_rank [OF assms] by simp

theorem zset_rank_position_witness:
  "rank_sl ''b'' (F64 0) (zsl (fst (zset_add ''b'' (F64 0) (newZSet (\<lambda>_. True))))) = 0"
  using zset_rank_position [of "fst (zset_add ''b'' (F64 0) (newZSet (\<lambda>_. True)))" "''b''" "F64 0"]
    zset_add_ok [of "newZSet (\<lambda>_. True)" "F64 0" "''b''"] zset_add_map [of "''b''" "F64 0" "newZSet (\<lambda>_. True)"]
    newZSet_ok(1) [of "\<lambda>_. True"]
  by (simp add: zset_add_def newZSet_def gput_def)

text \<open>C31: Parsing the printed form of a stream identifier gives the identifier back.\<close>

theorem stream_id_roundtrip: "ParseStreamID (StreamID_String i) d = Some i"
  by (rule ParseStreamID_String)

text \<open>Rank -1 yields the header of the skip list and every other rank outside the list yields
  nothing.\<close>

lemma nodeByRank_minus_one:
  assumes "sl_wf sl"
  shows "nodeByRank (-1) sl = Some (slhead sl) \<and> (r < -1 \<or> slen sl \<le> r \<longrightarrow> nodeByRank r sl = None)"
  using nodeByRank_items [OF assms] by blast

section \<open>Streams\<close>





text \<open>A range up to the largest id leaves an entry with that id out: it is in the stream and counted, but
  \<open>XRange\<close> over all ids does not return it.\<close>

lemma xrange_misses_largest_id:
  "let st = snd (XAdd (env0 0) ''s'' (add_auto\<lparr>Auto := False, addID := maxStreamID\<rparr>) [copyBytes ''f'', copyBytes ''v''] store4)
   in fst (XLen (env0 0) ''s'' st) = Inr 1 \<and> fst (XRange (env0 0) ''s'' zeroStreamID maxStreamID 0 False st) = Inr []"
  by code_simp

text \<open>C27: \<open>XDEL\<close> removes exactly the named entries and reports how many there were; the last id, the number of
  entries ever added and the groups stay, and the largest deleted id is at least every deleted id.\<close>

theorem xdel_exact:
  assumes "store_ok st" "stream_at (now env) st key = Some x" "XDel env key is st = (r, st')"
  shows "\<exists>x'. stream_at (now env) st' key = Some x' \<and> entries x' = filter (\<lambda>e. ID e \<notin> set is) (entries x) \<and>
    r = Inr (int (length (entries x)) - int (length (entries x'))) \<and>
    lastID x' = lastID x \<and> added x' = added x \<and> groups x' = groups x \<and>
    (\<forall>e \<in> set (entries x). ID e \<in> set is \<longrightarrow> ID e \<le> maxDeleted x')"
  using XDel_view [OF assms] xdel_loop_result [OF stream_at_ok [OF assms(1,2)], of "is" 0] by simp

theorem xdel_exact_witness:
  "\<exists>x'. stream_at 0 (snd (XDel (env0 0) ''s'' [StreamID 1 0] store4_stream)) ''s'' = Some x'"
proof -
  have "stream_at 0 store4_stream ''s'' \<noteq> None" by code_simp
  then obtain x where "stream_at 0 store4_stream ''s'' = Some x" by blast
  then show ?thesis
    using xdel_exact [OF store_inv_ok [OF store4_stream_inv] _ prod.collapse [symmetric], of "env0 0" "''s''" x "[StreamID 1 0]"]
    by (auto simp: env0_def)
qed





text \<open>C37: \<open>XCLAIM\<close> with \<open>FORCE\<close> and a minimum idle time orphans an entry: an entry of the stream that was not
  pending becomes pending in the group under the claiming consumer's name, is not reported as claimed, and is
  missing from that consumer's own list.\<close>

theorem force_claim_orphans:
  assumes "shares_ok g" "map_of (gpel g) i = None" "find_entry i x \<noteq> None" "Force o'" "0 < MinIdleMs o'"
    and "claim_group env n [i] o' x g = (g', tch, claimed, deleted, created)"
  shows "claimed = [] \<and> (\<exists>h c. g' = Some h \<and> owner h i = Some n \<and> map_of (consumers h) n = Some c \<and> map_of (cpel c) i = None)"
proof -
  define t where "t = UnixMilli (now env)"
  define g1 where "g1 = fst (consumerFor n t g)"
  have g1: "shares_ok g1" "map_of (gpel g1) i = None" "map_of (consumers g1) n \<noteq> None"
    using assms(1,2) consumerFor_shares [of g n t] by (simp add: g1_def, simp_all add: g1_def consumerFor_def Let_def split: option.splits)
  then obtain c where c: "map_of (consumers g1) n = Some c" by blast
  have "map_of (cpel c) i = None" using sharesD(3) [OF g1(1) c] g1(2) by (auto simp: fun_eq_iff)
  moreover define h where "h = force_nack t n o' x i g1"
  have h: "nack_at h i = Some \<lparr>nackID = i, nackConsumer = n, deliveryMs = t, deliveryCount = 0\<rparr>" "consumers h = consumers g1"
    using g1(2) assms(3,4) by (simp_all add: h_def force_nack_def nack_at_def)
  have "xclaim_step t n o' x i (g1, [], []) = (h, [], [])"
    using h(1) assms(5) by (simp add: xclaim_step_def claim_step_def h_def [symmetric] wrap64_def)
  then have "claimed = []" "g' = Some (if HasLastID o' \<and> Compare (claimLastID o') (lastDelivered h) > 0 then h\<lparr>lastDelivered := claimLastID o'\<rparr> else h)"
    using assms(6) by (auto simp: claim_group_def Let_def split_def t_def [symmetric] g1_def [symmetric])
  ultimately show ?thesis using h c by (auto simp: owner_def nack_at_def)
qed

theorem force_claim_orphans_witness:
  "let st = snd (XGroupCreate (env0 1000000) ''s'' ''g'' zeroStreamID False 0 True store4_stream);
       x = the (stream_at 0 st ''s''); g = the (map_of (groups x) ''g'')
   in fst (snd (snd (claim_group (env0 1000000) ''bob'' [StreamID 1 0]
        \<lparr>MinIdleMs = 1, HasIdle = False, IdleMs = 0, HasTime = False, TimeMs = 0, HasRetryCount = False, RetryCount = 0,
         Force = True, JustID = False, HasLastID = False, claimLastID = zeroStreamID\<rparr> x g))) = []"
proof -
  let ?st = "snd (XGroupCreate (env0 1000000) ''s'' ''g'' zeroStreamID False 0 True store4_stream)"
  let ?x = "the (stream_at 0 ?st ''s'')" let ?g = "newStreamGroup zeroStreamID 0 True"
  have g: "the (map_of (groups ?x) ''g'') = ?g" by code_simp
  have f: "find_entry (StreamID 1 0) ?x \<noteq> None" by code_simp
  let ?o = "\<lparr>MinIdleMs = 1, HasIdle = False, IdleMs = 0, HasTime = False, TimeMs = 0, HasRetryCount = False, RetryCount = 0,
         Force = True, JustID = False, HasLastID = False, claimLastID = zeroStreamID\<rparr>"
  obtain g' tch claimed deleted created where
    c: "claim_group (env0 1000000) ''bob'' [StreamID 1 0] ?o ?x ?g = (g', tch, claimed, deleted, created)" by (metis surj_pair)
  have "map_of (gpel ?g) (StreamID 1 0) = None" by (simp add: newStreamGroup_def)
  then have "claimed = []" using force_claim_orphans [OF newStreamGroup_shares _ f _ _ c] by simp
  then show ?thesis unfolding Let_def g c by simp
qed


section \<open>Other components\<close>

text \<open>C30: The longest common subsequence. The table of the dynamic program gives a sequence that is a
  subsequence of both strings, at least as long as every other one and of the reported length; with match runs,
  the runs are equal stretches of the two strings and together spell the sequence.\<close>

theorem lcs_optimal:
  "subseq (lSeq (lcs a b want)) a \<and> subseq (lSeq (lcs a b want)) b \<and> int (length (lSeq (lcs a b want))) = lLen (lcs a b want) \<and>
   (\<forall>zs. subseq zs a \<and> subseq zs b \<longrightarrow> int (length zs) \<le> lLen (lcs a b want)) \<and>
   (want \<longrightarrow> (\<forall>m \<in> set (Matches (lcs a b want)). run_ok a b m) \<and>
      concat (map (run_text a) (rev (Matches (lcs a b want)))) = lSeq (lcs a b want))"
  using lcs_result [where a = a and b = b and want = want] lcs_longest [where a = a and b = b and want = want] by blast

theorem lcs_optimal_witness: "2 \<le> lLen (lcs ''abc'' ''xbyc'' False)"
proof -
  have "subseq ''bc'' ''abc''" "subseq ''bc'' ''xbyc''" by simp_all
  then have "int (length ''bc'') \<le> lLen (lcs ''abc'' ''xbyc'' False)" using lcs_optimal [of "''abc''" "''xbyc''" False] by blast
  then show ?thesis by simp
qed

text \<open>C32: A new store has a power of two of shards, at least as many as asked for and fewer than twice as many,
  and every key has its place among them.\<close>

theorem new_store_shards:
  assumes "n \<le> 2 ^ 62"
  shows "(\<exists>j. length (shards (New n)) = 2 ^ j) \<and> max 1 n \<le> int (length (shards (New n))) \<and>
    int (length (shards (New n))) < 2 * max 1 n \<and> shardIndex (New n) k < length (shards (New n)) \<and> get_slot (New n) k = None"
proof -
  obtain j where j: "nextPow2 n = 2 ^ j" using nextPow2_power(1) by blast
  then show ?thesis using nextPow2_power(2,3) [of n] assms shardIndex_bound [OF New_slot(1) [OF assms], of k]
    by (auto simp: nat_power_eq)
qed

theorem new_store_shards_witness: "length (shards (New 5)) = 8"
proof -
  have b: "5 \<le> int (length (shards (New 5)))" "int (length (shards (New 5))) < 10" and "\<exists>j. length (shards (New 5)) = 2 ^ j"
    using new_store_shards [of 5 "[]"] by (simp_all del: New_fields)
  then obtain j where j: "length (shards (New 5)) = 2 ^ j" by blast
  have "j = 3"
  proof (rule ccontr)
    assume "j \<noteq> 3"
    then consider "j \<le> 2" | "4 \<le> j" by linarith
    then show False
      using b [unfolded j] power_increasing [of j 2 "2 :: int"] power_increasing [of 4 j "2 :: int"] by cases auto
  qed
  then show ?thesis using j by simp
qed

text \<open>C22: Exchanging two databases exchanges their contents, key by key, and keeps both invariants when they
  account alike.\<close>

theorem swap_databases:
  assumes "store_inv a" "store_inv b" "length (shards b) = length (shards a)" "SwapData a b = (a', b')"
  shows "(\<forall>k. get_slot a' k = get_slot b k \<and> get_slot b' k = get_slot a k) \<and>
    (memTrack a = memTrack b \<longrightarrow> store_inv a' \<and> store_inv b')"
  using SwapData_view [OF assms] by blast

theorem swap_databases_witness: "holds (fst (SwapData store4 store4_strings)) ''a'' ''x'' None"
proof -
  have "length (shards store4_strings) = length (shards store4)" by code_simp
  then show ?thesis
    using swap_databases [of store4 store4_strings, OF _ _ _ prod.collapse [symmetric]] store4_strings_holds(1) by (simp add: holds_def)
qed

text \<open>\<open>MSETNX\<close> with a repeated key drifts: while the accounting runs the key is settled twice, and the total
  then is more than what the store holds, until the next maintenance pass.\<close>

lemma msetnx_repeated_key_drifts:
  "let st = snd (MSetNX (env0 0) [(''a'', ''1''), (''a'', ''1'')] (TrackMemory (env0 0) store4))
   in mem st > exactMemory st \<and> mem (snd (maintain (env0 0) True st)) = exactMemory st"
  by code_simp

section \<open>Bitmaps\<close>



text \<open>C34: \<open>BITOP\<close> combines its operands bit by bit, each extended with zeros to the longest, and stores the
  result without a deadline; an empty result removes the destination, and no other key changes.\<close>

theorem bitop_combines:
  assumes "store_inv st" "srcs \<noteq> []"
    and "list_all2 (\<lambda>k v. (liveEntry st k (now env) = None \<and> v = []) \<or>
      (\<exists>e s. liveEntry st k (now env) = Some e \<and> val e = VString s \<and> sbytes s = v)) srcs vs"
    and "n = Max (length ` set vs)" "int n \<le> maxStringLen" "BitOp env opr dst srcs st = (r, st')"
  shows "r = Inr (int n) \<and> (\<forall>k. k \<noteq> dst \<longrightarrow> get_slot st' k = get_slot st k) \<and>
    (if n = 0 then get_slot st' dst = None
     else \<exists>str. holds st' dst str None \<and> length str = n \<and>
       (\<forall>i \<in> {0..<8 * int n}. string_bit str i = combine_bits opr (map (\<lambda>v. string_bit v i) vs)))"
proof -
  note R = BitOp_result [OF assms(1-5), where opr = opr and dst = dst]
  have vs: "vs \<noteq> []" using assms(2,3) by auto
  have "string_bit (bitOp_bytes opr vs n) i = combine_bits opr (map (\<lambda>v. string_bit v i) vs)" if "i \<in> {0..<8 * int n}" for i
  proof -
    have "0 \<le> i" "i div 8 < int n" using that by auto
    then show ?thesis by (rule bitOp_bits [OF vs])
  qed
  then show ?thesis using R assms(6) length_bitOp_bytes [of opr vs n] by (cases "n = 0") auto
qed

theorem bitop_combines_witness:
  "fst (BitOp (env0 0) BitOpNot ''d'' [''a''] store4_strings) = Inr 1"
proof -
  obtain e s where "liveEntry store4_strings ''a'' (now (env0 0)) = Some e" "val e = VString s" "sbytes s = ''x''"
    using holds_live [OF store4_strings_holds(1)] by blast
  then show ?thesis
    using bitop_combines [of store4_strings "[''a'']" "env0 0" "[''x'']" 1 BitOpNot "''d''", OF _ _ _ _ _ prod.collapse [symmetric]] by simp
qed

text \<open>C35: Integer fields. Reading a field back gives the written value reduced into the field's type, which
  lies in the type's range, is congruent to the value modulo the range, and is the value itself when it fits;
  the other bits stay. An increment is exact when the true sum fits and otherwise follows the overflow policy.\<close>

theorem bitfield_arithmetic:
  assumes "field_ok op" "fOffset op + int (fBits op) \<le> 8 * int (length str)" "int64_range v" "bitFieldBounds op = (lo, hi)"
  shows "getBitField (setBitField op v str) op = wrapBitField op v \<and>
    lo \<le> wrapBitField op v \<and> wrapBitField op v \<le> hi \<and> 2 ^ fBits op dvd wrapBitField op v - v \<and>
    (lo \<le> v \<and> v \<le> hi \<longrightarrow> wrapBitField op v = v) \<and>
    (\<forall>j. 0 \<le> j \<and> \<not> (fOffset op \<le> j \<and> j < fOffset op + int (fBits op)) \<longrightarrow> string_bit (setBitField op v str) j = string_bit str j) \<and>
    (lo \<le> v \<and> v \<le> hi \<and> int64_range (fValue op) \<longrightarrow>
      incrBitField op v =
        (if lo \<le> v + fValue op \<and> v + fValue op \<le> hi then Some (v + fValue op)
         else case fOverflow op of
                OverflowFail \<Rightarrow> None
              | OverflowSat \<Rightarrow> Some (if fValue op > 0 then hi else lo)
              | OverflowWrap \<Rightarrow> Some (wrapBitField op (wrap64 (v + fValue op)))))"
proof (intro conjI allI impI)
  show "getBitField (setBitField op v str) op = wrapBitField op v" by (rule get_set_field [OF assms(1-3)])
  show "lo \<le> wrapBitField op v" "wrapBitField op v \<le> hi" "2 ^ fBits op dvd wrapBitField op v - v"
    using wrapBitField_bounds(1,2) [OF assms(1,3,4)] by simp_all
  show "wrapBitField op v = v" if "lo \<le> v \<and> v \<le> hi" using wrapBitField_bounds(3) [OF assms(1,3,4)] that by simp
  show "string_bit (setBitField op v str) j = string_bit str j" if "0 \<le> j \<and> \<not> (fOffset op \<le> j \<and> j < fOffset op + int (fBits op))" for j
    using setBitField_bits(1) [OF assms(1,2), of j v] that by auto
qed (use incrBitField_eq [OF assms(1,4)] in simp)

theorem bitfield_arithmetic_witness:
  "getBitField (setBitField \<lparr>fKind = BitFieldSet, fSigned = True, fBits = 5, fOffset = 2, fValue = 1, fOverflow = OverflowWrap\<rparr> 17 ''a'')
     \<lparr>fKind = BitFieldSet, fSigned = True, fBits = 5, fOffset = 2, fValue = 1, fOverflow = OverflowWrap\<rparr> = - 15"
proof -
  let ?op = "\<lparr>fKind = BitFieldSet, fSigned = True, fBits = 5, fOffset = 2, fValue = 1, fOverflow = OverflowWrap\<rparr>"
  have "wrapBitField ?op 17 = - 15" by code_simp
  then show ?thesis using bitfield_arithmetic [of ?op "''a''" 17 "- 16" 15]
    by (simp add: field_ok_def int64_range_def bitFieldBounds_def)
qed

text \<open>\<open>BITFIELD\<close> under \<open>OVERFLOW FAIL\<close> grows an existing value although it refuses the write and reports no change.\<close>

lemma bitfield_refused_grows:
  "let op = \<lparr>fKind = BitFieldSet, fSigned = False, fBits = 8, fOffset = 80, fValue = 999, fOverflow = OverflowFail\<rparr>;
       r = BitField (env0 0) ''a'' [op] store4_strings
   in fst r = Inr ([None], False) \<and> fst (StrLen (env0 0) ''a'' store4_strings) = Inr 1 \<and> fst (StrLen (env0 0) ''a'' (snd r)) = Inr 11"
  by code_simp

end
